(* ===== verification/Prelude.thy ===== *)
theory Prelude
  imports Main "HOL-Library.Word"
begin

text \<open>
  Shared vocabulary of the development: machine integers, the outcome of a
  fallible Rust computation, a state monad over such outcomes, the little- and
  big-endian byte images of integers, byte-slice access and single-bit
  operations on byte arrays, and the generic lemmas the components use.

  Integer arithmetic wraps (the kernel is built without overflow checks: the
  boot log kept in the repository, \<^verbatim>\<open>src/console.txt\<close>, shows the generator of
  \<^verbatim>\<open>crypto/random.rs\<close> running past its overflowing multiplication).  A panic
  is a value of the model, so every index out of range, failed \<^verbatim>\<open>expect\<close> and
  \<^verbatim>\<open>todo!\<close> of the source is visible in a theorem about it.
\<close>

unbundle bit_operations_syntax

named_theorems res_simps \<open>rewrite rules of the outcome and state monads\<close>
named_theorems returns_intros \<open>introduction rules for code that comes to an end\<close>
named_theorems readonly_intros \<open>introduction rules for code that only reads its state\<close>
named_theorems byte_simps \<open>byte images of integers\<close>
named_theorems slice_simps \<open>reading and writing byte slices\<close>

named_theorems pod_simps \<open>fields of concatenated byte images\<close>

section \<open>Machine integers\<close>

type_synonym u8 = "8 word"
type_synonym u16 = "16 word"
type_synonym u32 = "32 word"
type_synonym u64 = "64 word"
type_synonym u128 = "128 word"
type_synonym bytes = "u8 list"

text \<open>The signed types are integers kept in range by an explicit wrap-around.\<close>

definition i64 :: "int \<Rightarrow> int" where
  "i64 x = signed_take_bit 63 x"

definition i32 :: "int \<Rightarrow> int" where
  "i32 x = signed_take_bit 31 x"

lemma i64_id: "- (2 ^ 63) \<le> x \<Longrightarrow> x < 2 ^ 63 \<Longrightarrow> i64 x = x"
  unfolding i64_def by (rule signed_take_bit_int_eq_self) simp_all

lemma i64_small: "0 \<le> x \<Longrightarrow> x \<le> 2 ^ 32 * 65536 \<Longrightarrow> i64 x = x"
  by (rule i64_id) simp_all

lemma i32_id: "- (2 ^ 31) \<le> x \<Longrightarrow> x < 2 ^ 31 \<Longrightarrow> i32 x = x"
  unfolding i32_def by (rule signed_take_bit_int_eq_self) simp_all

text \<open>Rust's \<^verbatim>\<open>/\<close> and \<^verbatim>\<open>%\<close> on signed integers round towards zero.\<close>

definition quot :: "int \<Rightarrow> int \<Rightarrow> int" where
  "quot a b = sgn a * sgn b * (\<bar>a\<bar> div \<bar>b\<bar>)"

definition rmd :: "int \<Rightarrow> int \<Rightarrow> int" where
  "rmd a b = a - b * quot a b"

lemma quot_nonneg [simp]: "0 \<le> a \<Longrightarrow> 0 < b \<Longrightarrow> quot a b = a div b"
  by (cases "a = 0") (simp_all add: quot_def)

lemma rmd_nonneg [simp]: "0 \<le> a \<Longrightarrow> 0 < b \<Longrightarrow> rmd a b = a mod b"
  by (simp add: rmd_def minus_mult_div_eq_mod)

section \<open>Outcomes: a value, an error, a panic, or none\<close>

text \<open>\<open>Diverge\<close> is the outcome of a loop that never ends.\<close>

datatype ('e, 'a) res = Ok 'a | Err 'e | Panic | Diverge

fun bind_res :: "('e, 'a) res \<Rightarrow> ('a \<Rightarrow> ('e, 'b) res) \<Rightarrow> ('e, 'b) res" where
  "bind_res (Ok x) f = f x"
| "bind_res (Err e) f = Err e"
| "bind_res Panic f = Panic"
| "bind_res Diverge f = Diverge"

fun map_err :: "('e \<Rightarrow> 'f) \<Rightarrow> ('e, 'a) res \<Rightarrow> ('f, 'a) res" where
  "map_err g (Ok x) = Ok x"
| "map_err g (Err e) = Err (g e)"
| "map_err g Panic = Panic"
| "map_err g Diverge = Diverge"

definition is_ok :: "('e, 'a) res \<Rightarrow> bool" where
  "is_ok r = (case r of Ok _ \<Rightarrow> True | _ \<Rightarrow> False)"

lemma is_ok_simps [simp, res_simps]: "is_ok (Ok x)" "\<not> is_ok (Err e)" "\<not> is_ok Panic" "\<not> is_ok Diverge"
  by (simp_all add: is_ok_def)

lemma is_ok_iff: "is_ok r \<longleftrightarrow> (\<exists>x. r = Ok x)"
  by (cases r) simp_all

lemma bind_res_Ok_iff [res_simps]: "bind_res m f = Ok y \<longleftrightarrow> (\<exists>x. m = Ok x \<and> f x = Ok y)"
  by (cases m) simp_all

lemma bind_res_assoc: "bind_res (bind_res m f) g = bind_res m (\<lambda>x. bind_res (f x) g)"
  by (cases m) simp_all

text \<open>
  Stateful code: a function from the state to an outcome and the next state.
  The state is kept on an error, as Rust keeps the effects made before a
  \<^verbatim>\<open>?\<close> returns.
\<close>

type_synonym ('s, 'e, 'a) st = "'s \<Rightarrow> ('e, 'a) res \<times> 's"

definition ret :: "'a \<Rightarrow> ('s, 'e, 'a) st" where
  "ret x = (\<lambda>s. (Ok x, s))"

definition fail :: "'e \<Rightarrow> ('s, 'e, 'a) st" where
  "fail e = (\<lambda>s. (Err e, s))"

definition crash :: "('s, 'e, 'a) st" where
  "crash = (\<lambda>s. (Panic, s))"

definition diverge :: "('s, 'e, 'a) st" where
  "diverge = (\<lambda>s. (Diverge, s))"

definition bind :: "('s, 'e, 'a) st \<Rightarrow> ('a \<Rightarrow> ('s, 'e, 'b) st) \<Rightarrow> ('s, 'e, 'b) st" where
  "bind m f = (\<lambda>s. case m s of
      (Ok x, s') \<Rightarrow> f x s'
    | (Err e, s') \<Rightarrow> (Err e, s')
    | (Panic, s') \<Rightarrow> (Panic, s')
    | (Diverge, s') \<Rightarrow> (Diverge, s'))"

definition lift_res :: "('e, 'a) res \<Rightarrow> ('s, 'e, 'a) st" where
  "lift_res r = (\<lambda>s. (r, s))"

definition get_st :: "('s, 'e, 's) st" where
  "get_st = (\<lambda>s. (Ok s, s))"

definition modify :: "('s \<Rightarrow> 's) \<Rightarrow> ('s, 'e, unit) st" where
  "modify f = (\<lambda>s. (Ok (), f s))"

definition map_err_st :: "('e \<Rightarrow> 'f) \<Rightarrow> ('s, 'e, 'a) st \<Rightarrow> ('s, 'f, 'a) st" where
  "map_err_st g m = (\<lambda>s. case m s of (r, s') \<Rightarrow> (map_err g r, s'))"

lemma ret_apply [simp, res_simps]: "ret x s = (Ok x, s)"
  by (simp add: ret_def)

lemma fail_apply [simp, res_simps]: "fail e s = (Err e, s)"
  by (simp add: fail_def)

lemma crash_apply [simp, res_simps]: "crash s = (Panic, s)"
  by (simp add: crash_def)

lemma diverge_apply [simp, res_simps]: "diverge s = (Diverge, s)"
  by (simp add: diverge_def)

lemma get_st_apply [simp, res_simps]: "get_st s = (Ok s, s)"
  by (simp add: get_st_def)

lemma modify_apply [simp, res_simps]: "modify f s = (Ok (), f s)"
  by (simp add: modify_def)

lemma lift_res_apply [simp, res_simps]: "lift_res r s = (r, s)"
  by (simp add: lift_res_def)

lemma bind_Ok [res_simps]: "m s = (Ok x, s') \<Longrightarrow> bind m f s = f x s'"
  by (simp add: bind_def)

lemma bind_Err [res_simps]: "m s = (Err e, s') \<Longrightarrow> bind m f s = (Err e, s')"
  by (simp add: bind_def)

lemma bind_Panic [res_simps]: "m s = (Panic, s') \<Longrightarrow> bind m f s = (Panic, s')"
  by (simp add: bind_def)

lemma bind_Diverge [res_simps]: "m s = (Diverge, s') \<Longrightarrow> bind m f s = (Diverge, s')"
  by (simp add: bind_def)

lemma bind_simps [simp, res_simps]:
  "bind (ret x) f = f x"
  "bind (fail e) f = fail e"
  "bind crash f = crash"
  "bind diverge f = diverge"
  by (simp_all add: bind_def ret_def fail_def crash_def diverge_def)

lemma bind_get_st [simp, res_simps]: "bind get_st f s = f s s"
  by (simp add: bind_def)

lemma bind_modify [simp, res_simps]: "bind (modify g) f s = f () (g s)"
  by (simp add: bind_def)

lemma bind_eq_OkE:
  assumes "bind m f s = (Ok y, s'')"
  obtains x s' where "m s = (Ok x, s')" "f x s' = (Ok y, s'')"
  using assms by (auto simp: bind_def split: prod.splits res.splits)

lemma bind_assoc: "bind (bind m f) g = bind m (\<lambda>x. bind (f x) g)"
  by (rule ext) (simp add: bind_def split: prod.splits res.splits)

lemma bind_then: "bind m f s = (Ok x, s') \<Longrightarrow> bind m (\<lambda>y. bind (f y) g) s = g x s'"
  by (simp add: bind_Ok flip: bind_assoc)

text \<open>Code that only reads its state, whatever its outcome.\<close>

definition readonly :: "('s, 'e, 'a) st \<Rightarrow> bool" where
  "readonly m \<longleftrightarrow> (\<forall>s. snd (m s) = s)"

lemma readonlyD: "readonly m \<Longrightarrow> m s = (r, s') \<Longrightarrow> s' = s"
  unfolding readonly_def by (metis snd_conv)

lemma readonly_basic [readonly_intros]:
  "readonly (ret x)" "readonly (fail e)" "readonly crash" "readonly diverge" "readonly (lift_res r)" "readonly get_st"
  by (simp_all add: readonly_def)

lemma readonly_bind [readonly_intros]:
  "readonly m \<Longrightarrow> (\<And>x. readonly (f x)) \<Longrightarrow> readonly (bind m f)"
  by (auto simp: readonly_def bind_def split: prod.splits res.splits) (metis snd_conv)+

lemma readonly_map_err [readonly_intros]: "readonly m \<Longrightarrow> readonly (map_err_st g m)"
  by (auto simp: readonly_def map_err_st_def split: prod.splits) (metis snd_conv)

lemma readonly_if [readonly_intros]: "readonly m \<Longrightarrow> readonly m' \<Longrightarrow> readonly (if b then m else m')"
  by simp

lemma readonly_case_prod [readonly_intros]:
  "(\<And>a b. readonly (f a b)) \<Longrightarrow> readonly (case x of (a, b) \<Rightarrow> f a b)"
  by (cases x) simp

lemma readonly_case_option [readonly_intros]:
  "readonly m \<Longrightarrow> (\<And>a. readonly (f a)) \<Longrightarrow> readonly (case x of None \<Rightarrow> m | Some a \<Rightarrow> f a)"
  by (cases x) simp_all

lemma readonly_Let [readonly_intros]: "readonly (f x) \<Longrightarrow> readonly (let y = x in f y)"
  by (simp add: Let_def)

text \<open>Code that comes to an end, with a value, an error or a panic, in every state.\<close>

definition returns :: "('s, 'e, 'a) st \<Rightarrow> bool" where
  "returns m \<longleftrightarrow> (\<forall>s. fst (m s) \<noteq> Diverge)"

lemma returns_basic [returns_intros]:
  "returns (ret x)" "returns (fail e)" "returns crash" "returns get_st" "returns (modify g)"
  "r \<noteq> Diverge \<Longrightarrow> returns (lift_res r)"
  by (simp_all add: returns_def)

lemma returns_bind [returns_intros]:
  "returns m \<Longrightarrow> (\<And>x. returns (f x)) \<Longrightarrow> returns (bind m f)"
  by (auto simp: returns_def bind_def split: prod.splits res.splits) (metis fst_conv)+

lemma returns_map_err [returns_intros]:
  fixes m :: "('s, 'e, 'a) st"
  shows "returns m \<Longrightarrow> returns (map_err_st g m)"
proof -
  have "map_err g r = Diverge \<Longrightarrow> r = Diverge" for r :: "('e, 'a) res" by (cases r) simp_all
  then show "returns m \<Longrightarrow> returns (map_err_st g m)"
    by (auto simp: returns_def map_err_st_def split: prod.splits) (metis fst_conv)
qed

lemma returns_if [returns_intros]: "returns m \<Longrightarrow> returns m' \<Longrightarrow> returns (if b then m else m')"
  by simp

lemma returns_case_prod [returns_intros]:
  "(\<And>a b. x = (a, b) \<Longrightarrow> returns (f a b)) \<Longrightarrow> returns (case x of (a, b) \<Rightarrow> f a b)"
  by (cases x) simp

lemma returns_case_option [returns_intros]:
  "returns m \<Longrightarrow> (\<And>a. x = Some a \<Longrightarrow> returns (f a)) \<Longrightarrow> returns (case x of None \<Rightarrow> m | Some a \<Rightarrow> f a)"
  by (cases x) simp_all

lemma returns_Let [returns_intros]: "returns (f x) \<Longrightarrow> returns (let y = x in f y)"
  by simp

lemma readonly_bind_OkE:
  assumes "readonly m" "bind m f s = (Ok y, s'')"
  obtains x where "m s = (Ok x, s)" "f x s = (Ok y, s'')"
  using assms(2)
proof (rule bind_eq_OkE)
  fix x s'
  assume "m s = (Ok x, s')" "f x s' = (Ok y, s'')"
  with readonlyD [OF assms(1)] show thesis by (blast intro: that)
qed

section \<open>Byte images of integers\<close>

fun nat_bytes :: "nat \<Rightarrow> nat \<Rightarrow> bytes" where
  "nat_bytes 0 x = []"
| "nat_bytes (Suc n) x = word_of_nat x # nat_bytes n (x div 256)"

fun bytes_nat :: "bytes \<Rightarrow> nat" where
  "bytes_nat [] = 0"
| "bytes_nat (b # bs) = unat b + 256 * bytes_nat bs"

lemma length_nat_bytes [simp, byte_simps]: "length (nat_bytes n x) = n"
  by (induction n arbitrary: x) simp_all

lemma unat_byte_of_nat: "unat (word_of_nat x :: u8) = x mod 256"
  by (simp add: unat_of_nat)

lemma bytes_nat_nat_bytes [byte_simps]: "bytes_nat (nat_bytes n x) = x mod 256 ^ n"
proof (induction n arbitrary: x)
  case 0
  then show ?case by simp
next
  case (Suc n)
  then show ?case
    by (simp add: unat_byte_of_nat) (metis add.commute mod_mult2_eq)
qed

lemma bytes_nat_bound: "bytes_nat bs < 256 ^ length bs"
proof (induction bs)
  case (Cons b bs)
  have "unat b < 256" using unsigned_less [of b, where ?'a = nat] by simp
  with Cons show ?case by simp
qed simp

lemma bytes_nat_zeros [simp]: "bytes_nat (replicate n 0) = 0"
  by (induction n) simp_all

lemma nat_bytes_bytes_nat [byte_simps]: "nat_bytes (length bs) (bytes_nat bs) = bs"
proof (induction bs)
  case (Cons b bs)
  have b: "unat b < 256" using unsigned_less [of b, where ?'a = nat] by simp
  then have "(unat b + 256 * bytes_nat bs) div 256 = bytes_nat bs" by simp
  moreover have "(word_of_nat (unat b + 256 * bytes_nat bs) :: u8) = b"
    by (rule word_unat_eq_iff [THEN iffD2]) (subst unat_byte_of_nat, use b in simp)
  ultimately show ?case using Cons by simp
qed simp

text \<open>Rust's \<^verbatim>\<open>to_le_bytes\<close>, \<^verbatim>\<open>to_be_bytes\<close> and their inverses, \<open>n\<close> bytes wide.\<close>

definition to_le :: "'a::len word \<Rightarrow> bytes" where
  "to_le w = nat_bytes (LENGTH('a) div 8) (unat w)"

definition to_be :: "'a::len word \<Rightarrow> bytes" where
  "to_be w = rev (to_le w)"

definition from_le :: "bytes \<Rightarrow> 'a::len word" where
  "from_le bs = word_of_nat (bytes_nat bs)"

definition from_be :: "bytes \<Rightarrow> 'a::len word" where
  "from_be bs = from_le (rev bs)"

lemma length_to_le [simp, byte_simps]: "length (to_le (w :: 'a::len word)) = LENGTH('a) div 8"
  by (simp add: to_le_def)

lemma length_to_be [simp, byte_simps]: "length (to_be (w :: 'a::len word)) = LENGTH('a) div 8"
  by (simp add: to_be_def)

lemma pow256: "(256 :: nat) ^ n = 2 ^ (8 * n)"
  by (simp add: power_mult)

lemma from_le_to_le:
  fixes w :: "'a::len word"
  assumes "8 dvd LENGTH('a)"
  shows "from_le (to_le w) = w"
proof -
  from assms have "8 * (LENGTH('a) div 8) = LENGTH('a)" by simp
  then have "(256 :: nat) ^ (LENGTH('a) div 8) = 2 ^ LENGTH('a)"
    by (simp add: pow256)
  then show ?thesis
    by (simp add: from_le_def to_le_def bytes_nat_nat_bytes)
qed

lemma from_be_to_be:
  fixes w :: "'a::len word"
  shows "8 dvd LENGTH('a) \<Longrightarrow> from_be (to_be w) = w"
  by (simp add: from_be_def to_be_def from_le_to_le)

lemma to_le_from_le:
  assumes "length bs = LENGTH('a::len) div 8" "8 dvd LENGTH('a)"
  shows "to_le (from_le bs :: 'a word) = bs"
proof -
  from assms have "(256 :: nat) ^ length bs = 2 ^ LENGTH('a)"
    by (simp add: pow256)
  with bytes_nat_bound [of bs] have "bytes_nat bs < 2 ^ LENGTH('a)" by simp
  then have "unat (from_le bs :: 'a word) = bytes_nat bs"
    by (simp add: from_le_def unat_of_nat)
  with assms show ?thesis
    by (simp add: to_le_def flip: assms(1)) (rule nat_bytes_bytes_nat)
qed

lemma from_le_inject:
  assumes "length xs = LENGTH('a::len) div 8" "length ys = length xs" "8 dvd LENGTH('a)"
    and "(from_le xs :: 'a word) = from_le ys"
  shows "xs = ys"
  using assms to_le_from_le by metis

lemmas from_to_le_word [simp, byte_simps] =
  from_le_to_le [where 'a = 8, simplified] from_le_to_le [where 'a = 16, simplified]
  from_le_to_le [where 'a = 32, simplified] from_le_to_le [where 'a = 64, simplified]
  from_le_to_le [where 'a = 128, simplified]

lemmas from_to_be_word [simp, byte_simps] =
  from_be_to_be [where 'a = 8, simplified] from_be_to_be [where 'a = 16, simplified]
  from_be_to_be [where 'a = 32, simplified] from_be_to_be [where 'a = 64, simplified]
  from_be_to_be [where 'a = 128, simplified]

section \<open>Slices\<close>

text \<open>
  \<^verbatim>\<open>&buf[a..b]\<close> panics unless \<open>a \<le> b \<le> len\<close>; \<open>splice\<close> is the buffer after
  \<open>new\<close> was written at offset \<open>a\<close>.
\<close>

definition sub_list :: "'a list \<Rightarrow> nat \<Rightarrow> nat \<Rightarrow> 'a list" where
  "sub_list xs a b = take (b - a) (drop a xs)"

definition slice :: "'a list \<Rightarrow> nat \<Rightarrow> nat \<Rightarrow> ('e, 'a list) res" where
  "slice xs a b = (if a \<le> b \<and> b \<le> length xs then Ok (sub_list xs a b) else Panic)"

definition splice_at :: "'a list \<Rightarrow> nat \<Rightarrow> 'a list \<Rightarrow> 'a list" where
  "splice_at xs a new = take a xs @ new @ drop (a + length new) xs"

lemma length_splice_at [simp, slice_simps]:
  "a + length new \<le> length xs \<Longrightarrow> length (splice_at xs a new) = length xs"
  by (simp add: splice_at_def)

lemma length_sub_list [simp, slice_simps]:
  "b \<le> length xs \<Longrightarrow> length (sub_list xs a b) = b - a"
  by (simp add: sub_list_def)

lemma sub_list_replicate [simp]: "b \<le> n \<Longrightarrow> sub_list (replicate n x) a b = replicate (b - a) x"
  by (simp add: sub_list_def)

lemma sub_list_splice_same [simp, slice_simps]:
  "a + length new \<le> length xs \<Longrightarrow> sub_list (splice_at xs a new) a (a + length new) = new"
  by (simp add: sub_list_def splice_at_def)

lemma sub_list_splice_before [slice_simps]:
  "b \<le> a \<Longrightarrow> a + length new \<le> length xs \<Longrightarrow> sub_list (splice_at xs a new) c b = sub_list xs c b"
  by (cases "c \<le> b") (simp_all add: sub_list_def splice_at_def take_drop min_def)

lemma sub_list_splice_after [slice_simps]:
  assumes "a + length new \<le> c" "a + length new \<le> length xs"
  shows "sub_list (splice_at xs a new) c b = sub_list xs c b"
proof -
  have "drop c (take a xs @ new @ drop (a + length new) xs) = drop c xs"
    using assms by (simp add: add.commute)
  then show ?thesis by (simp add: sub_list_def splice_at_def)
qed

lemma nth_splice_at:
  "a + length new \<le> length xs \<Longrightarrow> i < length xs \<Longrightarrow>
   splice_at xs a new ! i =
     (if i < a then xs ! i else if i < a + length new then new ! (i - a) else xs ! i)"
  by (auto simp: splice_at_def nth_append min_def)

text \<open>A field of a packed structure is a slice of the concatenated images.\<close>

lemma sub_list_append_skip [pod_simps]:
  "length xs \<le> a \<Longrightarrow> sub_list (xs @ ys) a b = sub_list ys (a - length xs) (b - length xs)"
  by (simp add: sub_list_def)

lemma sub_list_append_hit [pod_simps]:
  "b = length xs \<Longrightarrow> sub_list (xs @ ys) 0 b = xs"
  by (simp add: sub_list_def)

lemma sub_list_all [pod_simps]: "b = length xs \<Longrightarrow> sub_list xs 0 b = xs"
  by (simp add: sub_list_def)

lemma sub_list_join [pod_simps]:
  assumes "i \<le> j" "j \<le> k"
  shows "sub_list b i j @ sub_list b j k = sub_list b i k"
    and "sub_list b i j @ sub_list b j k @ rest = sub_list b i k @ rest"
proof -
  show "sub_list b i j @ sub_list b j k = sub_list b i k"
    using assms take_add [of "j - i" "k - j" "drop i b"] by (simp add: sub_list_def)
  then show "sub_list b i j @ sub_list b j k @ rest = sub_list b i k @ rest"
    by simp
qed

lemmas to_le_from_le_word =
  to_le_from_le [where 'a = 16, simplified] to_le_from_le [where 'a = 32, simplified]
  to_le_from_le [where 'a = 64, simplified]

section \<open>Bits of byte arrays\<close>

text \<open>Bit \<open>i\<close> of an array of bytes, least significant bit of each byte first.\<close>

definition bit_at :: "bytes \<Rightarrow> nat \<Rightarrow> bool" where
  "bit_at bs i = bit (bs ! (i div 8)) (i mod 8)"

definition set_bit_at :: "bytes \<Rightarrow> nat \<Rightarrow> bytes" where
  "set_bit_at bs i = bs[i div 8 := bs ! (i div 8) OR push_bit (i mod 8) 1]"

definition clear_bit_at :: "bytes \<Rightarrow> nat \<Rightarrow> bytes" where
  "clear_bit_at bs i = bs[i div 8 := bs ! (i div 8) AND NOT (push_bit (i mod 8) 1)]"

lemma length_set_bit_at [simp]: "length (set_bit_at bs i) = length bs"
  by (simp add: set_bit_at_def)

lemma length_clear_bit_at [simp]: "length (clear_bit_at bs i) = length bs"
  by (simp add: clear_bit_at_def)

lemma div_mod_8_eq: "(i::nat) div 8 = j div 8 \<Longrightarrow> i mod 8 = j mod 8 \<Longrightarrow> i = j"
  by (metis div_mult_mod_eq)

lemma bit_one_shift_u8: "n < 8 \<Longrightarrow> bit (2 ^ m :: u8) n \<longleftrightarrow> m = n"
  by (auto simp: bit_exp_iff)

lemma bit_at_set_bit_at:
  assumes "i < 8 * length bs" "j < 8 * length bs"
  shows "bit_at (set_bit_at bs i) j \<longleftrightarrow> j = i \<or> bit_at bs j"
proof (cases "i div 8 = j div 8")
  case True
  have "i div 8 < length bs" using assms by linarith
  with True show ?thesis
    by (auto simp: bit_at_def set_bit_at_def bit_or_iff bit_one_shift_u8 dest: div_mod_8_eq)
next
  case False
  then show ?thesis by (auto simp: bit_at_def set_bit_at_def)
qed

lemma bit_at_clear_bit_at:
  assumes "i < 8 * length bs" "j < 8 * length bs"
  shows "bit_at (clear_bit_at bs i) j \<longleftrightarrow> j \<noteq> i \<and> bit_at bs j"
proof (cases "i div 8 = j div 8")
  case True
  have "i div 8 < length bs" using assms by linarith
  with True show ?thesis
    by (auto simp: bit_at_def clear_bit_at_def bit_and_iff bit_not_iff bit_one_shift_u8
        dest: div_mod_8_eq)
next
  case False
  then show ?thesis by (auto simp: bit_at_def clear_bit_at_def)
qed

lemma byte_and_mask_eq_0_iff: "n < 8 \<Longrightarrow> (b :: u8) AND push_bit n 1 = 0 \<longleftrightarrow> \<not> bit b n"
proof -
  assume n: "n < 8"
  have "(b AND push_bit n 1 = 0) \<longleftrightarrow> (\<forall>k < 8. \<not> (bit b k \<and> n = k))"
    using n by (simp add: bit_eq_iff bit_and_iff bit_one_shift_u8 cong: conj_cong)
  with n show ?thesis by auto
qed

lemma nat_and_mask: "(n :: nat) AND (2 ^ k - 1) = n mod 2 ^ k"
  by (metis mask_eq_exp_minus_1 take_bit_eq_mask take_bit_eq_mod)

lemmas nat_and_low [simp] =
  nat_and_mask [where k = 4, simplified] nat_and_mask [where k = 6, simplified]
  nat_and_mask [where k = 7, simplified] nat_and_mask [where k = 8, simplified]
  nat_and_mask [where k = 16, simplified]

lemma unat_drop_bit: "unat (drop_bit n (w :: 'a::len word)) = unat w div 2 ^ n"
  unfolding unsigned_drop_bit_eq by (simp add: drop_bit_eq_div take_bit_nat_eq_self)

lemma less_unat_iff: "i < unat w \<longleftrightarrow> int i < uint w"
proof -
  have "uint w = int (unat w)" by simp
  then show ?thesis by (simp only: of_nat_less_iff)
qed

lemma unat_le_iff: "unat v \<le> unat w \<longleftrightarrow> uint v \<le> uint (w :: 'a::len word)"
proof -
  have "uint v = int (unat v)" "uint w = int (unat w)" by simp_all
  then show ?thesis by (simp only: of_nat_le_iff)
qed

lemma test_bit_at: "bits ! (i div 8) AND 2 ^ (i mod 8) = 0 \<longleftrightarrow> \<not> bit_at bits i"
  using byte_and_mask_eq_0_iff [of "i mod 8" "bits ! (i div 8)"] by (simp add: bit_at_def)

end
