(* ===== verification/Serialize.thy ===== *)
theory Serialize
  imports Prelude
begin

text \<open>
  The serialisation crate (\<^verbatim>\<open>src/dvida_serialize\<close>) and the code its derive
  macro generates (\<^verbatim>\<open>src/dvida_serialize_macros\<close>).  A serialiser gets the
  target slice and returns its outcome together with the slice as it leaves
  it; a deserialiser returns the value and the number of bytes it read.
  The interface is the locale \<open>wire_codec\<close>; integers and arrays are
  instances, and the structures derived from them in other theories too.
\<close>

section \<open>The traits\<close>

datatype endianness = Little | Big | NA

datatype DvSerErr = BufferTooSmall | BadStringLength nat nat

datatype DvDeErr = WrongBufferSize

type_synonym ser = "bytes \<Rightarrow> (DvSerErr, nat) res \<times> bytes"
type_synonym 'a de = "bytes \<Rightarrow> (DvDeErr, 'a \<times> nat) res"

section \<open>Integers\<close>

definition int_image :: "endianness \<Rightarrow> 'a::len word \<Rightarrow> bytes" where
  "int_image e w = (case e of Big \<Rightarrow> to_be w | _ \<Rightarrow> to_le w)"

definition serialize_int :: "endianness \<Rightarrow> 'a::len word \<Rightarrow> ser" where
  "serialize_int e w target =
    (let SIZE = LENGTH('a) div 8 in
     if length target < SIZE then (Err BufferTooSmall, target)
     else (Ok SIZE, int_image e w @ drop SIZE target))"

definition deserialize_int :: "endianness \<Rightarrow> 'a::len word de" where
  "deserialize_int e input =
    (let SIZE = LENGTH('a) div 8 in
     if length input < SIZE then Err WrongBufferSize
     else let bytes = take SIZE input in
       Ok (case e of Big \<Rightarrow> from_be bytes | _ \<Rightarrow> from_le bytes, SIZE))"

section \<open>Arrays\<close>

fun serialize_elems :: "endianness \<Rightarrow> 'a::len word list \<Rightarrow> nat \<Rightarrow> bytes \<Rightarrow>
    (DvSerErr, unit) res \<times> bytes" where
  "serialize_elems e [] i target = (Ok (), target)"
| "serialize_elems e (elem # elems) i target =
    (let ELEM_SIZE = LENGTH('a) div 8; offset = i * ELEM_SIZE in
     if offset + ELEM_SIZE \<le> length target then
       (case serialize_int e elem (sub_list target offset (offset + ELEM_SIZE)) of
         (Ok _, s) \<Rightarrow> serialize_elems e elems (Suc i) (splice_at target offset s)
       | (Err x, s) \<Rightarrow> (Err x, splice_at target offset s)
       | (Panic, s) \<Rightarrow> (Panic, splice_at target offset s)
       | (Diverge, s) \<Rightarrow> (Diverge, splice_at target offset s))
     else (Panic, target))"

definition serialize_array :: "endianness \<Rightarrow> 'a::len word list \<Rightarrow> ser" where
  "serialize_array e xs target =
    (let total_size = (LENGTH('a) div 8) * length xs in
     if length target < total_size then (Err BufferTooSmall, target)
     else case serialize_elems e xs 0 target of
        (Ok _, t) \<Rightarrow> (Ok total_size, t)
      | (Err x, t) \<Rightarrow> (Err x, t)
      | (Panic, t) \<Rightarrow> (Panic, t)
      | (Diverge, t) \<Rightarrow> (Diverge, t))"

fun deserialize_elems :: "endianness \<Rightarrow> bytes \<Rightarrow> nat list \<Rightarrow> (DvDeErr, 'a::len word list) res" where
  "deserialize_elems e input [] = Ok []"
| "deserialize_elems e input (i # is) =
    (let ELEM_SIZE = LENGTH('a) div 8; offset = i * ELEM_SIZE in
     bind_res (slice input offset (offset + ELEM_SIZE)) (\<lambda>s.
     bind_res (deserialize_int e s) (\<lambda>(elem, _).
     bind_res (deserialize_elems e input is) (\<lambda>rest. Ok (elem # rest)))))"

definition deserialize_array :: "nat \<Rightarrow> endianness \<Rightarrow> 'a::len word list de" where
  "deserialize_array N e input =
    (let total_size = (LENGTH('a) div 8) * N in
     if length input < total_size then Err WrongBufferSize
     else bind_res (deserialize_elems e input [0..<N]) (\<lambda>xs. Ok (xs, total_size)))"

definition array_image :: "endianness \<Rightarrow> 'a::len word list \<Rightarrow> bytes" where
  "array_image e xs = concat (map (int_image e) xs)"

section \<open>Derived structures\<close>

text \<open>
  The body the derive macro generates: the fields in order, each on the slice
  that starts where the previous one stopped.
\<close>

fun serialize_fields :: "ser list \<Rightarrow> nat \<Rightarrow> ser" where
  "serialize_fields [] acc target = (Ok acc, target)"
| "serialize_fields (f # fs) acc target =
    (if acc \<le> length target then
       (case f (drop acc target) of
         (Ok n, s) \<Rightarrow> serialize_fields fs (acc + n) (take acc target @ s)
       | (Err x, s) \<Rightarrow> (Err x, take acc target @ s)
       | (Panic, s) \<Rightarrow> (Panic, take acc target @ s)
       | (Diverge, s) \<Rightarrow> (Diverge, take acc target @ s))
     else (Panic, target))"

definition deserialize_field :: "'a de \<Rightarrow> nat \<Rightarrow> bytes \<Rightarrow> ('a \<Rightarrow> nat \<Rightarrow> (DvDeErr, 'b) res) \<Rightarrow>
    (DvDeErr, 'b) res" where
  "deserialize_field d acc input k =
    (if acc \<le> length input then
       bind_res (d (drop acc input)) (\<lambda>(x, written). k x (acc + written))
     else Panic)"

section \<open>The codec interface\<close>

locale wire_codec =
  fixes wf :: "'a \<Rightarrow> bool"
    and size_of :: nat
    and image :: "endianness \<Rightarrow> 'a \<Rightarrow> bytes"
    and serialize :: "endianness \<Rightarrow> 'a \<Rightarrow> ser"
    and deserialize :: "endianness \<Rightarrow> 'a de"
  assumes length_image: "wf x \<Longrightarrow> length (image e x) = size_of"
    and serialize_enough: "wf x \<Longrightarrow> size_of \<le> length target \<Longrightarrow>
      serialize e x target = (Ok size_of, image e x @ drop size_of target)"
    and deserialize_image: "wf x \<Longrightarrow> deserialize e (image e x @ rest) = Ok (x, size_of)"
begin

lemma serialize_frame:
  assumes "wf x" "size_of \<le> length target"
  shows "length (snd (serialize e x target)) = length target"
    and "drop size_of (snd (serialize e x target)) = drop size_of target"
  using assms by (simp_all add: serialize_enough length_image)

lemma deserialize_serialize:
  assumes "wf x" "size_of \<le> length target"
  shows "deserialize e (snd (serialize e x target)) = Ok (x, size_of)"
  using assms by (simp add: serialize_enough deserialize_image)

lemma image_inject:
  assumes "wf x" "wf y" "image e x = image e y"
  shows "x = y"
  using deserialize_image [of x e "[]"] deserialize_image [of y e "[]"] assms by simp

end

locale strict_codec = wire_codec +
  assumes serialize_short: "wf x \<Longrightarrow> length target < size_of \<Longrightarrow>
      serialize e x target = (Err BufferTooSmall, target)"
    and deserialize_short: "length input < size_of \<Longrightarrow> deserialize e input = Err WrongBufferSize"
begin

lemma serialize_total: "wf x \<Longrightarrow> fst (serialize e x target) \<noteq> Panic"
  by (cases "length target < size_of") (simp_all add: serialize_short serialize_enough)

lemma serialize_ok_iff: "wf x \<Longrightarrow> is_ok (fst (serialize e x target)) \<longleftrightarrow> size_of \<le> length target"
  by (cases "length target < size_of") (simp_all add: serialize_short serialize_enough)

end

section \<open>Integers and arrays are codecs\<close>

lemma length_int_image [simp, byte_simps]:
  "length (int_image e (w :: 'a::len word)) = LENGTH('a) div 8"
  by (cases e) (simp_all add: int_image_def)

lemma serialize_int_enough:
  "LENGTH('a::len) div 8 \<le> length target \<Longrightarrow>
   serialize_int e (w :: 'a word) target =
     (Ok (LENGTH('a) div 8), int_image e w @ drop (LENGTH('a) div 8) target)"
  by (simp add: serialize_int_def Let_def)

lemma deserialize_int_image:
  fixes w :: "'a::len word"
  assumes "8 dvd LENGTH('a)"
  shows "deserialize_int e (int_image e w @ rest) = Ok (w, LENGTH('a) div 8)"
  using assms
  by (cases e) (simp_all add: deserialize_int_def int_image_def from_le_to_le from_be_to_be)

lemma int_codec: "8 dvd LENGTH('a::len) \<Longrightarrow>
  strict_codec (\<lambda>_ :: 'a word. True) (LENGTH('a) div 8) int_image serialize_int deserialize_int"
  by unfold_locales
    (simp_all add: deserialize_int_image serialize_int_enough, simp_all add: serialize_int_def deserialize_int_def)

lemma length_array_image [simp, byte_simps]:
  "length (array_image e (xs :: 'a::len word list)) = (LENGTH('a) div 8) * length xs"
  by (induction xs) (simp_all add: array_image_def)

lemma array_image_Cons: "array_image e (x # xs) = int_image e x @ array_image e xs"
  by (simp add: array_image_def)

lemma serialize_elems_ok:
  fixes xs :: "'a::len word list"
  defines "s \<equiv> LENGTH('a) div 8"
  assumes "(i + length xs) * s \<le> length target"
  shows "serialize_elems e xs i target =
    (Ok (), take (i * s) target @ array_image e xs @ drop ((i + length xs) * s) target)"
  using assms(2)
proof (induction xs arbitrary: i target)
  case Nil
  then show ?case by (simp add: array_image_def)
next
  case (Cons x xs)
  let ?t = "splice_at target (i * s) (int_image e x)"
  have fits: "i * s + s + length xs * s \<le> length target"
    using Cons.prems by (simp add: algebra_simps)
  have len: "length (int_image e x) = s" by (simp add: s_def)
  have "serialize_int e x (sub_list target (i * s) (i * s + s)) = (Ok s, int_image e x)"
    using fits by (simp add: serialize_int_def s_def sub_list_def Let_def)
  then have "serialize_elems e (x # xs) i target = serialize_elems e xs (Suc i) ?t"
    using fits by (simp add: s_def Let_def)
  also have "\<dots> = (Ok (), take (Suc i * s) ?t @ array_image e xs @ drop ((Suc i + length xs) * s) ?t)"
    using fits len by (intro Cons.IH) (simp add: algebra_simps)
  also have "take (Suc i * s) ?t = take (i * s) target @ int_image e x"
    using fits len by (simp add: splice_at_def algebra_simps)
  also have "drop ((Suc i + length xs) * s) ?t = drop ((i + length (x # xs)) * s) target"
    using fits len by (simp add: splice_at_def algebra_simps)
  finally show ?case by (simp add: array_image_Cons)
qed

lemma deserialize_elems_ok:
  fixes xs :: "'a::len word list"
  defines "s \<equiv> LENGTH('a) div 8"
  assumes "8 dvd LENGTH('a)" "length pre = i * s"
  shows "deserialize_elems e (pre @ array_image e xs @ rest) [i..<i + length xs] = Ok xs"
  using assms(3)
proof (induction xs arbitrary: i pre)
  case Nil
  then show ?case by simp
next
  case (Cons x xs)
  have upt: "[i..<i + length (x # xs)] = i # [Suc i..<Suc i + length xs]"
    by (subst upt_conv_Cons) simp_all
  have "deserialize_elems e ((pre @ int_image e x) @ array_image e xs @ rest)
      [Suc i..<Suc i + length xs] = Ok xs"
    using Cons.prems by (intro Cons.IH) (simp add: s_def)
  moreover have "deserialize_int e (int_image e x) = Ok (x, s)"
    using deserialize_int_image [OF assms(2), of e x "[]"] by (simp add: s_def)
  ultimately show ?case
    using Cons.prems unfolding upt
    by (simp add: array_image_Cons slice_def sub_list_def Let_def s_def)
qed

lemma array_codec: "8 dvd LENGTH('a::len) \<Longrightarrow>
  strict_codec (\<lambda>xs :: 'a word list. length xs = N) ((LENGTH('a) div 8) * N)
    array_image serialize_array (deserialize_array N)"
proof (unfold_locales, goal_cases)
  case (1 x e)
  then show ?case by simp
next
  case (2 x target e)
  then show ?case
    using serialize_elems_ok [of 0 x target e] by (simp add: serialize_array_def mult.commute Let_def)
next
  case (3 x e rest)
  then show ?case
    using deserialize_elems_ok [of "[]" 0 e x rest] by (simp add: deserialize_array_def mult.commute Let_def)
next
  case (4 x target e)
  then show ?case by (simp add: serialize_array_def)
next
  case (5 input e)
  then show ?case by (simp add: deserialize_array_def)
qed

interpretation u8: strict_codec "\<lambda>_ :: u8. True" 1 int_image serialize_int deserialize_int
  using int_codec [where 'a = 8] by simp

interpretation u16: strict_codec "\<lambda>_ :: u16. True" 2 int_image serialize_int deserialize_int
  using int_codec [where 'a = 16] by simp

interpretation u32: strict_codec "\<lambda>_ :: u32. True" 4 int_image serialize_int deserialize_int
  using int_codec [where 'a = 32] by simp

interpretation u64: strict_codec "\<lambda>_ :: u64. True" 8 int_image serialize_int deserialize_int
  using int_codec [where 'a = 64] by simp

interpretation u128: strict_codec "\<lambda>_ :: u128. True" 16 int_image serialize_int deserialize_int
  using int_codec [where 'a = 128] by simp

interpretation u8_array: strict_codec "\<lambda>xs :: u8 list. length xs = N" N
    array_image serialize_array "deserialize_array N" for N
  using array_codec [where 'a = 8] by simp

interpretation u32_array: strict_codec "\<lambda>xs :: u32 list. length xs = N" "4 * N"
    array_image serialize_array "deserialize_array N" for N
  using array_codec [where 'a = 32] by simp

section \<open>Composition of fields\<close>

definition writes :: "ser \<Rightarrow> bytes \<Rightarrow> bool" where
  "writes f img \<longleftrightarrow> (\<forall>t. length img \<le> length t \<longrightarrow> f t = (Ok (length img), img @ drop (length img) t))"

lemma serialize_fields_writes:
  assumes "list_all2 writes fs imgs" "acc + length (concat imgs) \<le> length target"
  shows "serialize_fields fs acc target =
    (Ok (acc + length (concat imgs)),
     take acc target @ concat imgs @ drop (acc + length (concat imgs)) target)"
  using assms
proof (induction arbitrary: acc target rule: list_all2_induct)
  case Nil
  then show ?case by simp
next
  case (Cons f fs img imgs)
  let ?t = "take acc target @ img @ drop (length img) (drop acc target)"
  have "f (drop acc target) = (Ok (length img), img @ drop (length img) (drop acc target))"
    using Cons by (simp add: writes_def)
  then have "serialize_fields (f # fs) acc target = serialize_fields fs (acc + length img) ?t"
    using Cons.prems by simp
  also have "\<dots> = (Ok (acc + length img + length (concat imgs)),
      take (acc + length img) ?t @ concat imgs @ drop (acc + length img + length (concat imgs)) ?t)"
    using Cons.prems by (intro Cons.IH) simp
  finally show ?case
    using Cons.prems by (simp add: algebra_simps)
qed

lemma writes_int [intro]: "writes (serialize_int e (w :: 'a::len word)) (int_image e w)"
  by (simp add: writes_def serialize_int_enough)

lemma writes_u8_array [intro]: "writes (serialize_array e (xs :: u8 list)) (array_image e xs)"
  by (simp add: writes_def u8_array.serialize_enough [OF refl])

lemma writes_u32_array [intro]: "writes (serialize_array e (xs :: u32 list)) (array_image e xs)"
  by (simp add: writes_def u32_array.serialize_enough [OF refl])

lemma deserialize_field_step [byte_simps]:
  assumes "acc \<le> length input" "drop acc input = img @ rest" "d (img @ rest) = Ok (x, n)"
  shows "deserialize_field d acc input k = k x (acc + n)"
  using assms by (simp add: deserialize_field_def)

end
