(* ===== verification/Crc32.thy ===== *)
theory Crc32
  imports Prelude
begin

text \<open>
  The table-driven CRC-32 of \<^verbatim>\<open>src/kernel/src/crypto/crc32.rs\<close>, which guards
  the GPT header and partition table.  The table is compared with the bit-by-bit
  definition of the checksum, and the checksum is shown to detect every
  corruption confined to four consecutive bytes.
\<close>

section \<open>The code\<close>

definition I_TABLE :: "u32 list" where
  "I_TABLE = [
   0x00000000, 0x77073096, 0xee0e612c, 0x990951ba, 0x076dc419, 0x706af48f,
   0xe963a535, 0x9e6495a3, 0x0edb8832, 0x79dcb8a4, 0xe0d5e91e, 0x97d2d988,
   0x09b64c2b, 0x7eb17cbd, 0xe7b82d07, 0x90bf1d91, 0x1db71064, 0x6ab020f2,
   0xf3b97148, 0x84be41de, 0x1adad47d, 0x6ddde4eb, 0xf4d4b551, 0x83d385c7,
   0x136c9856, 0x646ba8c0, 0xfd62f97a, 0x8a65c9ec, 0x14015c4f, 0x63066cd9,
   0xfa0f3d63, 0x8d080df5, 0x3b6e20c8, 0x4c69105e, 0xd56041e4, 0xa2677172,
   0x3c03e4d1, 0x4b04d447, 0xd20d85fd, 0xa50ab56b, 0x35b5a8fa, 0x42b2986c,
   0xdbbbc9d6, 0xacbcf940, 0x32d86ce3, 0x45df5c75, 0xdcd60dcf, 0xabd13d59,
   0x26d930ac, 0x51de003a, 0xc8d75180, 0xbfd06116, 0x21b4f4b5, 0x56b3c423,
   0xcfba9599, 0xb8bda50f, 0x2802b89e, 0x5f058808, 0xc60cd9b2, 0xb10be924,
   0x2f6f7c87, 0x58684c11, 0xc1611dab, 0xb6662d3d, 0x76dc4190, 0x01db7106,
   0x98d220bc, 0xefd5102a, 0x71b18589, 0x06b6b51f, 0x9fbfe4a5, 0xe8b8d433,
   0x7807c9a2, 0x0f00f934, 0x9609a88e, 0xe10e9818, 0x7f6a0dbb, 0x086d3d2d,
   0x91646c97, 0xe6635c01, 0x6b6b51f4, 0x1c6c6162, 0x856530d8, 0xf262004e,
   0x6c0695ed, 0x1b01a57b, 0x8208f4c1, 0xf50fc457, 0x65b0d9c6, 0x12b7e950,
   0x8bbeb8ea, 0xfcb9887c, 0x62dd1ddf, 0x15da2d49, 0x8cd37cf3, 0xfbd44c65,
   0x4db26158, 0x3ab551ce, 0xa3bc0074, 0xd4bb30e2, 0x4adfa541, 0x3dd895d7,
   0xa4d1c46d, 0xd3d6f4fb, 0x4369e96a, 0x346ed9fc, 0xad678846, 0xda60b8d0,
   0x44042d73, 0x33031de5, 0xaa0a4c5f, 0xdd0d7cc9, 0x5005713c, 0x270241aa,
   0xbe0b1010, 0xc90c2086, 0x5768b525, 0x206f85b3, 0xb966d409, 0xce61e49f,
   0x5edef90e, 0x29d9c998, 0xb0d09822, 0xc7d7a8b4, 0x59b33d17, 0x2eb40d81,
   0xb7bd5c3b, 0xc0ba6cad, 0xedb88320, 0x9abfb3b6, 0x03b6e20c, 0x74b1d29a,
   0xead54739, 0x9dd277af, 0x04db2615, 0x73dc1683, 0xe3630b12, 0x94643b84,
   0x0d6d6a3e, 0x7a6a5aa8, 0xe40ecf0b, 0x9309ff9d, 0x0a00ae27, 0x7d079eb1,
   0xf00f9344, 0x8708a3d2, 0x1e01f268, 0x6906c2fe, 0xf762575d, 0x806567cb,
   0x196c3671, 0x6e6b06e7, 0xfed41b76, 0x89d32be0, 0x10da7a5a, 0x67dd4acc,
   0xf9b9df6f, 0x8ebeeff9, 0x17b7be43, 0x60b08ed5, 0xd6d6a3e8, 0xa1d1937e,
   0x38d8c2c4, 0x4fdff252, 0xd1bb67f1, 0xa6bc5767, 0x3fb506dd, 0x48b2364b,
   0xd80d2bda, 0xaf0a1b4c, 0x36034af6, 0x41047a60, 0xdf60efc3, 0xa867df55,
   0x316e8eef, 0x4669be79, 0xcb61b38c, 0xbc66831a, 0x256fd2a0, 0x5268e236,
   0xcc0c7795, 0xbb0b4703, 0x220216b9, 0x5505262f, 0xc5ba3bbe, 0xb2bd0b28,
   0x2bb45a92, 0x5cb36a04, 0xc2d7ffa7, 0xb5d0cf31, 0x2cd99e8b, 0x5bdeae1d,
   0x9b64c2b0, 0xec63f226, 0x756aa39c, 0x026d930a, 0x9c0906a9, 0xeb0e363f,
   0x72076785, 0x05005713, 0x95bf4a82, 0xe2b87a14, 0x7bb12bae, 0x0cb61b38,
   0x92d28e9b, 0xe5d5be0d, 0x7cdcefb7, 0x0bdbdf21, 0x86d3d2d4, 0xf1d4e242,
   0x68ddb3f8, 0x1fda836e, 0x81be16cd, 0xf6b9265b, 0x6fb077e1, 0x18b74777,
   0x88085ae6, 0xff0f6a70, 0x66063bca, 0x11010b5c, 0x8f659eff, 0xf862ae69,
   0x616bffd3, 0x166ccf45, 0xa00ae278, 0xd70dd2ee, 0x4e048354, 0x3903b3c2,
   0xa7672661, 0xd06016f7, 0x4969474d, 0x3e6e77db, 0xaed16a4a, 0xd9d65adc,
   0x40df0b66, 0x37d83bf0, 0xa9bcae53, 0xdebb9ec5, 0x47b2cf7f, 0x30b5ffe9,
   0xbdbdf21c, 0xcabac28a, 0x53b39330, 0x24b4a3a6, 0xbad03605, 0xcdd70693,
   0x54de5729, 0x23d967bf, 0xb3667a2e, 0xc4614ab8, 0x5d681b02, 0x2a6f2b94,
   0xb40bbe37, 0xc30c8ea1, 0x5a05df1b, 0x2d02ef8d]"

definition partial_crc :: "u32 \<Rightarrow> bytes \<Rightarrow> u32" where
  "partial_crc i_crc s_data =
    foldl (\<lambda>crc data. drop_bit 8 crc XOR I_TABLE ! unat ((crc AND 0xFF) XOR ucast data)) i_crc s_data"

definition full_crc :: "bytes \<Rightarrow> u32" where
  "full_crc s_data =
    foldl (\<lambda>crc data. drop_bit 8 crc XOR I_TABLE ! unat ((crc XOR ucast data) AND 0xFF))
      0xFFFFFFFF s_data XOR 0xFFFFFFFF"

definition is_verified_crc32 :: "bytes \<Rightarrow> u32 \<Rightarrow> bool" where
  "is_verified_crc32 arr crc32 = (if crc32 = full_crc arr then True else False)"

section \<open>The checksum bit by bit\<close>

text \<open>
  CRC-32 with the reflected polynomial 0xEDB88320: one bit of the register is
  shifted out at a time, and a byte is eight of them.
\<close>

definition crc_bit :: "u32 \<Rightarrow> u32" where
  "crc_bit c = drop_bit 1 c XOR (if bit c 0 then 0xEDB88320 else 0)"

definition crc_eight :: "u32 \<Rightarrow> u32" where
  "crc_eight c = (crc_bit ^^ 8) c"

definition crc_byte :: "u32 \<Rightarrow> u8 \<Rightarrow> u32" where
  "crc_byte c b = crc_eight (c XOR ucast b)"

definition reference_crc :: "bytes \<Rightarrow> u32" where
  "reference_crc bs = NOT (foldl crc_byte (NOT 0) bs)"

section \<open>The bitwise step is linear\<close>

lemma crc_bit_xor: "crc_bit (a XOR b) = crc_bit a XOR crc_bit b"
  by (auto simp: crc_bit_def drop_bit_xor bit_xor_iff xor.assoc xor.left_commute xor.commute)

lemma crc_eight_xor: "crc_eight (a XOR b) = crc_eight a XOR crc_eight b"
proof -
  have "(crc_bit ^^ n) (a XOR b) = (crc_bit ^^ n) a XOR (crc_bit ^^ n) b" for n
    by (induction n) (simp_all add: crc_bit_xor)
  then show ?thesis by (simp add: crc_eight_def)
qed

lemma crc_bits_shift: "take_bit n c = 0 \<Longrightarrow> (crc_bit ^^ n) c = drop_bit n c"
proof (induction n arbitrary: c)
  case (Suc n)
  have "\<not> bit c 0"
    using arg_cong [OF Suc.prems, of "\<lambda>w. bit w 0"] by (simp add: bit_take_bit_iff)
  then have step: "crc_bit c = drop_bit 1 c" by (simp add: crc_bit_def)
  have "take_bit n (drop_bit 1 c) = drop_bit 1 (take_bit (Suc n) c)"
    by (simp add: take_bit_drop_bit)
  then have "(crc_bit ^^ n) (drop_bit 1 c) = drop_bit n (drop_bit 1 c)"
    using Suc by simp
  then show ?case
    by (simp only: funpow_Suc_right comp_apply step drop_bit_drop_bit) simp
qed simp

lemma word_split_xor: "(c :: u32) = push_bit 8 (drop_bit 8 c) XOR take_bit 8 c"
  by (rule bit_eqI) (auto simp: bit_xor_iff bit_push_bit_iff bit_drop_bit_eq bit_take_bit_iff)

lemma crc_eight_split: "crc_eight c = drop_bit 8 c XOR crc_eight (take_bit 8 c)"
proof -
  have "take_bit 8 (push_bit 8 (drop_bit 8 c)) = 0"
    by (rule bit_eqI) (auto simp: bit_push_bit_iff bit_drop_bit_eq bit_take_bit_iff)
  then have "crc_eight (push_bit 8 (drop_bit 8 c)) = drop_bit 8 (push_bit 8 (drop_bit 8 c))"
    by (simp add: crc_eight_def crc_bits_shift)
  also have "\<dots> = drop_bit 8 c"
    by (rule bit_eqI) (auto simp: bit_push_bit_iff bit_drop_bit_eq dest: bit_imp_le_length)
  finally show ?thesis
    using crc_eight_xor [of "push_bit 8 (drop_bit 8 c)" "take_bit 8 c"]
    by (simp flip: word_split_xor)
qed

section \<open>The table\<close>

definition double_table :: "u32 \<Rightarrow> u32 list \<Rightarrow> u32 list" where
  "double_table c xs = xs @ map (\<lambda>x. c XOR x) xs"

lemma I_TABLE_doubled: "I_TABLE =
  double_table 0xedb88320 (double_table 0x76dc4190 (double_table 0x3b6e20c8 (double_table 0x1db71064
  (double_table 0x0edb8832 (double_table 0x076dc419 (double_table 0xee0e612c (double_table 0x77073096
  [0])))))))"
  by (simp add: I_TABLE_def double_table_def)

lemma crc_eight_unfold: "crc_eight c =
    crc_bit (crc_bit (crc_bit (crc_bit (crc_bit (crc_bit (crc_bit (crc_bit c)))))))"
  by (simp add: crc_eight_def numeral_eq_Suc)

lemma crc_eight_powers:
  "crc_eight 0 = 0"
  "crc_eight 1 = 0x77073096" "crc_eight 2 = 0xee0e612c" "crc_eight 4 = 0x076dc419"
  "crc_eight 8 = 0x0edb8832" "crc_eight 16 = 0x1db71064" "crc_eight 32 = 0x3b6e20c8"
  "crc_eight 64 = 0x76dc4190" "crc_eight 128 = 0xedb88320"
  by (simp_all add: crc_eight_unfold crc_bit_def)

definition table_of :: "nat \<Rightarrow> u32 list" where
  "table_of n = map (\<lambda>i. crc_eight (word_of_nat i)) [0..<n]"

lemma word_of_nat_add_xor:
  assumes "i < 2 ^ k"
  shows "(word_of_nat (2 ^ k + i) :: u32) = 2 ^ k XOR word_of_nat i"
proof -
  have "\<not> bit i k" using assms by (simp add: bit_iff_odd)
  then have "2 ^ k AND i = 0"
    by (intro bit_eqI) (auto simp: bit_and_iff bit_exp_iff)
  then have "2 ^ k + i = (2 ^ k XOR i)"
    by (rule disjunctive_add_eq_xor)
  then show ?thesis by (simp add: of_nat_xor_eq)
qed

lemma double_table_of:
  assumes "n = 2 ^ k"
  shows "double_table (crc_eight (2 ^ k)) (table_of n) = table_of (2 * n)"
proof -
  have "[0..<2 * n] = [0..<n] @ map ((+) n) [0..<n]"
    by (rule nth_equalityI) (auto simp: nth_append)
  moreover have "crc_eight (word_of_nat (n + i)) = crc_eight (2 ^ k) XOR crc_eight (word_of_nat i)"
    if "i < n" for i
    using word_of_nat_add_xor [of i k] assms that by (simp add: crc_eight_xor)
  ultimately show ?thesis
    by (simp add: table_of_def double_table_def)
qed

lemma I_TABLE_crc_eight: "I_TABLE = table_of 256"
proof -
  note d = double_table_of
  have "table_of 1 = [0]" by (simp add: table_of_def crc_eight_powers)
  then show ?thesis
    using d [of 1 0] d [of 2 1] d [of 4 2] d [of 8 3] d [of 16 4] d [of 32 5] d [of 64 6] d [of 128 7]
    by (simp add: I_TABLE_doubled crc_eight_powers)
qed

lemma length_I_TABLE: "length I_TABLE = 256"
  by (simp add: I_TABLE_crc_eight table_of_def)

lemma take_bit_8_less: "unat (take_bit 8 (c :: u32)) < 256"
  using take_bit_nat_less_exp [of 8 "unat c"] by (subst unsigned_take_bit_eq) simp

lemma I_TABLE_nth: "I_TABLE ! unat (take_bit 8 c) = crc_eight (take_bit 8 c)"
  using take_bit_8_less [of c] by (simp add: I_TABLE_crc_eight table_of_def)

lemma and_0xFF: "(c :: u32) AND 0xFF = take_bit 8 c"
  by (simp add: take_bit_eq_mask mask_eq_exp_minus_1)

lemma drop_8_ucast: "drop_bit 8 (ucast (b :: u8) :: u32) = 0"
  by (rule bit_eqI) (auto simp: bit_drop_bit_eq bit_unsigned_iff dest: bit_imp_le_length)

lemma take_8_ucast: "take_bit 8 (ucast (b :: u8) :: u32) = ucast b"
  by (rule bit_eqI) (auto simp: bit_take_bit_iff bit_unsigned_iff dest: bit_imp_le_length)

lemma full_crc_step:
  "drop_bit 8 crc XOR I_TABLE ! unat ((crc XOR ucast data) AND 0xFF) = crc_byte crc data"
  unfolding and_0xFF I_TABLE_nth crc_byte_def crc_eight_split [of "crc XOR ucast data"]
  by (simp add: drop_8_ucast)

lemma partial_crc_step:
  "drop_bit 8 crc XOR I_TABLE ! unat ((crc AND 0xFF) XOR ucast data) = crc_byte crc data"
  using full_crc_step [of crc data]
  by (simp add: and_0xFF take_8_ucast)

lemma full_crc_fold: "full_crc bs = NOT (foldl crc_byte (NOT 0) bs)"
proof -
  have ones: "(0xFFFFFFFF :: u32) = - 1" by simp
  show ?thesis
    unfolding full_crc_def full_crc_step ones bit.xor_one_right by simp
qed

lemma partial_crc_fold: "partial_crc c bs = foldl crc_byte c bs"
  by (simp add: partial_crc_def partial_crc_step)

section \<open>Error detection\<close>

lemma crc_bit_zero: "crc_bit c = 0 \<Longrightarrow> c = 0"
proof (rule ccontr)
  assume z: "crc_bit c = 0" and nz: "c \<noteq> 0"
  show False
  proof (cases "bit c 0")
    case True
    have "bit (crc_bit c) 31 \<longleftrightarrow> bit (drop_bit 1 c) 31 \<noteq> bit (0xEDB88320 :: u32) 31"
      using True by (simp add: crc_bit_def bit_xor_iff)
    moreover have "\<not> bit (drop_bit 1 c) 31" by (auto simp: bit_drop_bit_eq dest: bit_imp_le_length)
    moreover have "bit (0xEDB88320 :: u32) 31" by simp
    ultimately show False using z by simp
  next
    case False
    then have "drop_bit 1 c = 0" using z by (simp add: crc_bit_def)
    moreover have "bit c (Suc n) = bit (drop_bit 1 c) n" for n
      by (simp only: bit_drop_bit_eq comp_apply plus_1_eq_Suc)
    ultimately have "\<not> bit c (Suc n)" for n by simp
    with False have "\<not> bit c n" for n by (cases n) simp_all
    then have "c = 0" by (intro bit_eqI) simp
    with nz show False by simp
  qed
qed

lemma crc_eight_zero: "crc_eight c = 0 \<Longrightarrow> c = 0"
  unfolding crc_eight_unfold by (drule crc_bit_zero)+

lemma xor_eq_0_iff: "(a :: 'a::len word) XOR b = 0 \<longleftrightarrow> a = b"
proof
  assume "a XOR b = 0"
  then have "bit (a XOR b) n = False" for n by simp
  then show "a = b" by (intro bit_eqI) (simp add: bit_xor_iff)
qed simp

lemma crc_eight_inject: "crc_eight a = crc_eight b \<Longrightarrow> a = b"
  using crc_eight_xor [of a b] crc_eight_zero [of "a XOR b"] by (simp add: xor_eq_0_iff)

lemma xor_right_cancel: "(a :: 'a::len word) XOR b = c XOR b \<Longrightarrow> a = c"
proof -
  assume "a XOR b = c XOR b"
  then have "(a XOR b) XOR b = (c XOR b) XOR b" by simp
  then show ?thesis by (simp add: xor.assoc)
qed

lemma crc_byte_inject_state: "crc_byte a b = crc_byte c b \<Longrightarrow> a = c"
  unfolding crc_byte_def by (drule crc_eight_inject) (rule xor_right_cancel)

lemma crc_fold_inject_state: "foldl crc_byte a bs = foldl crc_byte c bs \<Longrightarrow> a = c"
  by (induction bs arbitrary: a c) (auto dest: crc_byte_inject_state)

text \<open>The register that a short message drives to zero is the message itself.\<close>

lemma crc_fold_from_le:
  "length w \<le> 4 \<Longrightarrow> foldl crc_byte (from_le w) w = 0"
proof (induction w)
  case Nil
  then show ?case by (simp add: from_le_def)
next
  case (Cons b w)
  let ?m = "from_le w :: u32"
  have "bytes_nat w < 256 ^ 3"
    using bytes_nat_bound [of w] Cons.prems power_increasing [of "length w" 3 "256 :: nat"] by simp
  then have small: "unat ?m < 2 ^ 24" by (simp add: from_le_def unat_of_nat)
  have "(from_le (b # w) :: u32) = ucast b + push_bit 8 ?m"
    by (simp add: from_le_def push_bit_eq_mult)
  also have "\<dots> = ucast b XOR push_bit 8 ?m"
  proof -
    have "ucast b AND push_bit 8 ?m = 0"
      by (rule bit_eqI) (auto simp: bit_and_iff bit_push_bit_iff bit_unsigned_iff dest: bit_imp_le_length)
    then show ?thesis by (rule disjunctive_add_eq_xor)
  qed
  finally have "crc_byte (from_le (b # w)) b = crc_eight (push_bit 8 ?m)"
    by (simp add: crc_byte_def xor.commute xor.left_commute)
  also have "\<dots> = drop_bit 8 (push_bit 8 ?m)"
    by (simp add: crc_eight_def crc_bits_shift take_bit_push_bit)
  also have "\<dots> = ?m"
  proof -
    have "take_bit 24 ?m = ?m"
      using small by (intro word_unat_eq_iff [THEN iffD2]) (simp add: unsigned_take_bit_eq take_bit_nat_eq_self)
    then have "bit ?m i \<Longrightarrow> i < 24" for i by (metis bit_take_bit_iff)
    then show ?thesis
      by (intro bit_eqI) (force simp: bit_push_bit_iff bit_drop_bit_eq)
  qed
  finally show ?case using Cons by simp
qed

lemma crc_fold_superpose:
  "length u = length v \<Longrightarrow>
   foldl crc_byte a u XOR foldl crc_byte b v = foldl crc_byte (a XOR b) (map2 (XOR) u v)"
proof (induction u v arbitrary: a b rule: list_induct2)
  case (Cons x xs y ys)
  have "crc_byte a x XOR crc_byte b y = crc_byte (a XOR b) (x XOR y)"
    by (simp add: crc_byte_def crc_eight_xor [symmetric] unsigned_xor_eq xor.assoc xor.left_commute)
  with Cons show ?case by simp
qed simp

lemma from_le_zero:
  assumes "length w \<le> 4" "(from_le w :: u32) = 0"
  shows "\<forall>b \<in> set w. b = 0"
proof -
  have "bytes_nat w < 256 ^ 4"
    using bytes_nat_bound [of w] assms(1) power_increasing [of "length w" 4 "256 :: nat"] by simp
  then have "unat (from_le w :: u32) = bytes_nat w" by (simp add: from_le_def unat_of_nat)
  with assms(2) have "bytes_nat w = 0" by simp
  moreover have "bytes_nat bs = 0 \<Longrightarrow> \<forall>b \<in> set bs. b = 0" for bs
    by (induction bs) (auto simp: unsigned_eq_0_iff)
  ultimately show ?thesis by blast
qed

lemma crc_burst:
  assumes len: "length u = length v" "length u \<le> 4" and eq: "foldl crc_byte a u = foldl crc_byte a v"
  shows "u = v"
proof -
  let ?w = "map2 (XOR) u v"
  have "foldl crc_byte 0 ?w = 0"
    using crc_fold_superpose [OF len(1), of a a] eq by simp
  moreover have l: "length ?w \<le> 4" using len by simp
  ultimately have "foldl crc_byte 0 ?w = foldl crc_byte (from_le ?w) ?w"
    by (simp only: crc_fold_from_le)
  then have "(0 :: u32) = from_le ?w" by (rule crc_fold_inject_state)
  then have "\<forall>b \<in> set ?w. b = 0" using from_le_zero [OF l] by simp
  then show ?thesis
    using len(1) by (intro nth_equalityI) (auto simp: set_conv_nth xor_eq_0_iff)
qed

lemma full_crc_burst:
  assumes "length good = length bad" "length good \<le> 4"
    and eq: "full_crc (pre @ good @ post) = full_crc (pre @ bad @ post)"
  shows "good = bad"
proof -
  from eq have "foldl crc_byte (foldl crc_byte (NOT 0) pre) good =
      foldl crc_byte (foldl crc_byte (NOT 0) pre) bad"
    by (simp add: full_crc_fold) (rule crc_fold_inject_state)
  with assms show ?thesis using crc_burst by blast
qed

section \<open>Properties\<close>

text \<open>C12. The table-driven checksum of a buffer is the CRC-32 of that buffer computed bit by
  bit with the reflected polynomial 0xEDB88320, and the incremental \<open>partial_crc\<close>
  advances the register by exactly the same bytewise step.\<close>

theorem full_crc_reference:
  "full_crc s_data = reference_crc s_data \<and> partial_crc i_crc s_data = foldl crc_byte i_crc s_data"
  by (simp add: full_crc_fold reference_crc_def partial_crc_fold)

text \<open>C26. A stored checksum rejects every corruption of the checked bytes that is confined to at
  most four consecutive bytes.\<close>

theorem is_verified_detects_burst:
  assumes "length good = length bad" "length good \<le> 4" "good \<noteq> bad"
  shows "\<not> is_verified_crc32 (pre @ bad @ post) (full_crc (pre @ good @ post))"
  using assms full_crc_burst by (auto simp: is_verified_crc32_def)

theorem is_verified_detects_burst_witness:
  "\<not> is_verified_crc32 ([0x45, 0x46] @ [0x49, 0x21] @ [0x20]) (full_crc ([0x45, 0x46] @ [0x49, 0x20] @ [0x20]))"
  by (rule is_verified_detects_burst) simp_all

end
