(* ===== verification/Ident.thy ===== *)
theory Ident
  imports Prelude
begin

text \<open>
  Identifiers of \<^verbatim>\<open>src/kernel/src/crypto\<close>: the GUID of partitions and drives
  (\<^verbatim>\<open>guid.rs\<close>), with its parser, its printer and its order, and the random
  UUID (\<^verbatim>\<open>uuid.rs\<close>) with its hyphenated rendering.
\<close>

section \<open>Hexadecimal text\<close>

definition hex_digit :: "nat \<Rightarrow> char" where
  "hex_digit d = char_of (if d < 10 then 48 + d else 87 + d)"

definition hex_val :: "char \<Rightarrow> nat option" where
  "hex_val c = (let n = of_char c :: nat in
     if 48 \<le> n \<and> n \<le> 57 then Some (n - 48)
     else if 97 \<le> n \<and> n \<le> 102 then Some (n - 87)
     else if 65 \<le> n \<and> n \<le> 70 then Some (n - 55)
     else None)"

text \<open>\<^verbatim>\<open>format!("{:0nx}", x)\<close> for an \<open>x\<close> of at most \<open>n\<close> digits.\<close>

fun hex_fixed :: "nat \<Rightarrow> nat \<Rightarrow> string" where
  "hex_fixed 0 x = []"
| "hex_fixed (Suc n) x = hex_fixed n (x div 16) @ [hex_digit (x mod 16)]"

text \<open>
  \<^verbatim>\<open>from_str_radix(s, 16)\<close> of an unsigned type with greatest value \<open>mx\<close>: one
  leading plus sign is accepted, an empty digit string and an overflow are not.
\<close>

fun parse_digits :: "nat \<Rightarrow> string \<Rightarrow> nat \<Rightarrow> nat option" where
  "parse_digits mx [] acc = Some acc"
| "parse_digits mx (c # cs) acc = (case hex_val c of
      None \<Rightarrow> None
    | Some d \<Rightarrow> if acc * 16 + d \<le> mx then parse_digits mx cs (acc * 16 + d) else None)"

definition from_str_radix16 :: "nat \<Rightarrow> string \<Rightarrow> nat option" where
  "from_str_radix16 mx s = (case s of
      [] \<Rightarrow> None
    | c # cs \<Rightarrow>
        if cs = [] \<and> (c = CHR ''+'' \<or> c = CHR ''-'') then None
        else if c = CHR ''+'' then parse_digits mx cs 0
        else parse_digits mx s 0)"

fun splitn :: "nat \<Rightarrow> char \<Rightarrow> string \<Rightarrow> string list" where
  "splitn 0 sep s = []"
| "splitn (Suc 0) sep s = [s]"
| "splitn (Suc (Suc n)) sep s = (case dropWhile (\<lambda>c. c \<noteq> sep) s of
      [] \<Rightarrow> [s]
    | _ # rest \<Rightarrow> takeWhile (\<lambda>c. c \<noteq> sep) s # splitn (Suc n) sep rest)"

section \<open>GUID\<close>

record Guid =
  whole :: u128
  data1 :: u32
  data2 :: u16
  data3 :: u16
  data4 :: bytes

definition guid_from_bytes :: "bytes \<Rightarrow> Guid" where
  "guid_from_bytes val = \<lparr>
     whole = from_le val,
     data1 = from_le [val ! 0, val ! 1, val ! 2, val ! 3],
     data2 = from_le [val ! 4, val ! 5],
     data3 = from_le [val ! 6, val ! 7],
     data4 = [val ! 8, val ! 9, val ! 10, val ! 11, val ! 12, val ! 13, val ! 14, val ! 15] \<rparr>"

definition guid_of_fields :: "u32 \<Rightarrow> u16 \<Rightarrow> u16 \<Rightarrow> bytes \<Rightarrow> Guid" where
  "guid_of_fields d1 d2 d3 d4 = \<lparr>
     whole = from_le (to_le d1 @ to_le d2 @ to_le d3 @ d4),
     data1 = d1, data2 = d2, data3 = d3, data4 = d4 \<rparr>"

definition guid_from_str :: "string \<Rightarrow> Guid option" where
  "guid_from_str val = (case splitn 5 CHR ''-'' val of
      [p1, p2, p3, p4, p5] \<Rightarrow>
        (case from_str_radix16 (2 ^ 32 - 1) p1 of None \<Rightarrow> None | Some d1 \<Rightarrow>
        (case from_str_radix16 (2 ^ 16 - 1) p2 of None \<Rightarrow> None | Some d2 \<Rightarrow>
        (case from_str_radix16 (2 ^ 16 - 1) p3 of None \<Rightarrow> None | Some d3 \<Rightarrow>
        (case from_str_radix16 (2 ^ 64 - 1) p4 of None \<Rightarrow> None | Some data4_first \<Rightarrow>
        (case from_str_radix16 (2 ^ 64 - 1) p5 of None \<Rightarrow> None | Some data4_second \<Rightarrow>
           let d4 = (push_bit 48 (word_of_nat data4_first) OR word_of_nat data4_second :: u64)
           in Some (guid_of_fields (word_of_nat d1) (word_of_nat d2) (word_of_nat d3) (to_be d4)))))))
    | _ \<Rightarrow> None)"

definition guid_to_string :: "Guid \<Rightarrow> string" where
  "guid_to_string g =
     hex_fixed 8 (unat (data1 g)) @ ''-'' @
     hex_fixed 4 (unat (data2 g)) @ ''-'' @
     hex_fixed 4 (unat (data3 g)) @ ''-'' @
     hex_fixed 2 (unat (data4 g ! 0)) @ hex_fixed 2 (unat (data4 g ! 1)) @ ''-'' @
     hex_fixed 2 (unat (data4 g ! 2)) @ hex_fixed 2 (unat (data4 g ! 3)) @
     hex_fixed 2 (unat (data4 g ! 4)) @ hex_fixed 2 (unat (data4 g ! 5)) @
     hex_fixed 2 (unat (data4 g ! 6)) @ hex_fixed 2 (unat (data4 g ! 7))"

text \<open>\<^verbatim>\<open>Ord for Guid\<close>: the order of the ordered maps keyed by a GUID.\<close>

datatype ordering = Less | Equal | Greater

definition guid_cmp :: "Guid \<Rightarrow> Guid \<Rightarrow> ordering" where
  "guid_cmp g h = (if whole g < whole h then Less else if whole g = whole h then Equal else Greater)"

text \<open>The fields agree with the whole.\<close>

definition guid_wf :: "Guid \<Rightarrow> bool" where
  "guid_wf g \<longleftrightarrow> length (data4 g) = 8 \<and> g = guid_of_fields (data1 g) (data2 g) (data3 g) (data4 g)"

section \<open>UUID\<close>

definition uuid_v4 :: "u32 \<Rightarrow> u32 \<Rightarrow> u32 \<Rightarrow> u32 \<Rightarrow> bytes" where
  "uuid_v4 r1 r2 r3 r4 =
    (let bytes = to_be r1 @ to_be r2 @ to_be r3 @ to_be r4;
         bytes = bytes[6 := (bytes ! 6 AND 0x0f) OR 0x40];
         bytes = bytes[8 := (bytes ! 8 AND 0x3f) OR 0x80]
     in bytes)"

definition put :: "'a list \<Rightarrow> nat \<Rightarrow> 'a \<Rightarrow> ('e, 'a list) res" where
  "put xs i v = (if i < length xs then Ok (xs[i := v]) else Panic)"

fun from_uuid_loop :: "bytes \<Rightarrow> nat \<Rightarrow> nat \<Rightarrow> string \<Rightarrow> (unit, string) res" where
  "from_uuid_loop [] idx i out = Ok out"
| "from_uuid_loop (byte # bs) idx i out =
    bind_res (put out i (hex_digit (unat (drop_bit 4 byte)))) (\<lambda>out.
    bind_res (put out (i + 1) (hex_digit (unat (byte AND 0x0f)))) (\<lambda>out.
    if idx = 3 \<or> idx = 5 \<or> idx = 7 \<or> idx = 9
    then bind_res (put out (i + 2) CHR ''-'') (\<lambda>out. from_uuid_loop bs (Suc idx) (i + 3) out)
    else from_uuid_loop bs (Suc idx) (i + 2) out))"

definition from_uuid :: "bytes \<Rightarrow> (unit, string) res" where
  "from_uuid uuid = from_uuid_loop uuid 0 0 (replicate 36 (CHR 0x00))"

section \<open>Reading back what was printed\<close>

lemma hex_val_digit [simp]: "d < 16 \<Longrightarrow> hex_val (hex_digit d) = Some d"
  by (auto simp: hex_val_def hex_digit_def Let_def)

lemma length_hex_fixed [simp]: "length (hex_fixed n x) = n"
  by (induction n arbitrary: x) simp_all

lemma hex_digit_chars: "d < 16 \<Longrightarrow> hex_digit d \<noteq> CHR ''-'' \<and> hex_digit d \<noteq> CHR ''+''"
proof -
  assume "d < 16"
  then have "hex_val (hex_digit d) = Some d" by simp
  moreover have "hex_val CHR ''-'' = None" "hex_val CHR ''+'' = None"
    by (simp_all add: hex_val_def)
  ultimately show ?thesis by (metis option.distinct(1))
qed

lemma hex_fixed_chars: "c \<in> set (hex_fixed n x) \<Longrightarrow> c \<noteq> CHR ''-'' \<and> c \<noteq> CHR ''+''"
  by (induction n arbitrary: x) (auto simp: hex_digit_chars)

lemma parse_digits_append:
  "parse_digits mx (s @ t) acc = Option.bind (parse_digits mx s acc) (parse_digits mx t)"
  by (induction s arbitrary: acc) (auto split: option.splits)

lemma parse_hex_fixed:
  "acc * 16 ^ n + x \<le> mx \<Longrightarrow> x < 16 ^ n \<Longrightarrow> parse_digits mx (hex_fixed n x) acc = Some (acc * 16 ^ n + x)"
proof (induction n arbitrary: x)
  case (Suc n)
  have q: "x div 16 < 16 ^ n" using Suc.prems(2) by (simp add: less_mult_imp_div_less mult.commute)
  have sum: "(acc * 16 ^ n + x div 16) * 16 + x mod 16 = acc * 16 ^ Suc n + x"
    by (simp add: algebra_simps)
  have "acc * 16 ^ n + x div 16 \<le> (acc * 16 ^ n + x div 16) * 16 + x mod 16" by simp
  also have "\<dots> \<le> mx" using Suc.prems(1) unfolding sum .
  finally have "acc * 16 ^ n + x div 16 \<le> mx" .
  then have "parse_digits mx (hex_fixed n (x div 16)) acc = Some (acc * 16 ^ n + x div 16)"
    using q by (rule Suc.IH)
  then show ?case
    using Suc.prems(1) sum by (simp add: parse_digits_append)
qed simp

definition hex_bytes :: "bytes \<Rightarrow> string" where
  "hex_bytes bs = concat (map (\<lambda>b. hex_fixed 2 (unat b)) bs)"

lemma bytes_nat_append: "bytes_nat (xs @ ys) = bytes_nat xs + 256 ^ length xs * bytes_nat ys"
  by (induction xs) (simp_all add: algebra_simps)

lemma unat_u8_less: "unat (b :: u8) < 256"
  using unsigned_less [of b, where ?'a = nat] by simp

lemma parse_hex_bytes:
  "acc * 256 ^ length bs + bytes_nat (rev bs) \<le> mx \<Longrightarrow>
   parse_digits mx (hex_bytes bs) acc = Some (acc * 256 ^ length bs + bytes_nat (rev bs))"
proof (induction bs arbitrary: acc)
  case (Cons b bs)
  let ?a = "acc * 256 + unat b"
  have sum: "?a * 256 ^ length bs + bytes_nat (rev bs) =
      acc * 256 ^ length (b # bs) + bytes_nat (rev (b # bs))"
    by (simp add: bytes_nat_append algebra_simps)
  have "?a \<le> ?a * 256 ^ length bs + bytes_nat (rev bs)"
    by (simp add: trans_le_add1)
  then have "?a \<le> mx" using Cons.prems sum by linarith
  then have "parse_digits mx (hex_fixed 2 (unat b)) acc = Some ?a"
    using parse_hex_fixed [of acc 2 "unat b" mx] unat_u8_less [of b] by simp
  then show ?case
    using Cons.IH [of ?a] Cons.prems sum by (simp add: hex_bytes_def parse_digits_append)
qed (simp add: hex_bytes_def)

lemma from_str_radix16_parse:
  assumes "parse_digits mx xs 0 = Some v" "xs \<noteq> []" "\<And>c. c \<in> set xs \<Longrightarrow> c \<noteq> CHR ''-'' \<and> c \<noteq> CHR ''+''"
  shows "from_str_radix16 mx xs = Some v"
  using assms by (cases xs) (auto simp: from_str_radix16_def)

lemma hex_fixed_not_Nil [simp]: "hex_fixed n x = [] \<longleftrightarrow> n = 0"
  using length_hex_fixed [of n x] by (metis length_0_conv)

lemma from_str_radix16_hex_fixed:
  "x < 16 ^ n \<Longrightarrow> x \<le> mx \<Longrightarrow> 0 < n \<Longrightarrow> from_str_radix16 mx (hex_fixed n x) = Some x"
  using parse_hex_fixed [of 0 n x mx] by (intro from_str_radix16_parse hex_fixed_chars) auto

lemma hex_bytes_chars: "c \<in> set (hex_bytes bs) \<Longrightarrow> c \<noteq> CHR ''-'' \<and> c \<noteq> CHR ''+''"
  by (auto simp: hex_bytes_def dest: hex_fixed_chars)

lemma from_str_radix16_hex_bytes:
  assumes "bytes_nat (rev bs) \<le> mx" "bs \<noteq> []"
  shows "from_str_radix16 mx (hex_bytes bs) = Some (bytes_nat (rev bs))"
proof (rule from_str_radix16_parse)
  show "parse_digits mx (hex_bytes bs) 0 = Some (bytes_nat (rev bs))"
    using parse_hex_bytes [of 0 bs mx] assms by simp
  show "hex_bytes bs \<noteq> []" using assms(2) by (cases bs) (simp_all add: hex_bytes_def)
qed (rule hex_bytes_chars)

lemma splitn_piece:
  assumes "sep \<notin> set s"
  shows "splitn (Suc (Suc n)) sep (s @ sep # rest) = s # splitn (Suc n) sep rest"
proof -
  have "dropWhile (\<lambda>c. c \<noteq> sep) (s @ sep # rest) = sep # rest"
    "takeWhile (\<lambda>c. c \<noteq> sep) (s @ sep # rest) = s"
    using assms by (induction s) auto
  then show ?thesis by simp
qed

lemma splitn_guid:
  assumes "\<And>c s. s \<in> {a, b, c', d} \<Longrightarrow> c \<in> set s \<Longrightarrow> c \<noteq> CHR ''-''"
  shows "splitn 5 CHR ''-'' (a @ ''-'' @ b @ ''-'' @ c' @ ''-'' @ d @ ''-'' @ e) = [a, b, c', d, e]"
proof -
  have "CHR ''-'' \<notin> set a" "CHR ''-'' \<notin> set b" "CHR ''-'' \<notin> set c'" "CHR ''-'' \<notin> set d"
    using assms by blast+
  then show ?thesis by (simp add: numeral_eq_Suc splitn_piece del: splitn.simps(3))
qed

lemma length8_conv: "length xs = 8 \<Longrightarrow>
  xs = [xs ! 0, xs ! 1, xs ! 2, xs ! 3, xs ! 4, xs ! 5, xs ! 6, xs ! 7]"
  by (intro nth_equalityI) (auto simp: less_Suc_eq numeral_eq_Suc)

lemma data4_join:
  assumes "length xs = 2" "length ys = 6"
  shows "to_be (push_bit 48 (word_of_nat (bytes_nat (rev xs))) OR word_of_nat (bytes_nat (rev ys)) :: u64)
    = xs @ ys"
proof -
  let ?f = "bytes_nat (rev xs)" and ?s = "bytes_nat (rev ys)"
  have s: "?s < 2 ^ 48" using bytes_nat_bound [of "rev ys"] assms by simp
  then have "take_bit 48 ?s = ?s" by (simp add: take_bit_nat_eq_self)
  then have "bit ?s n \<Longrightarrow> n < 48" for n by (metis bit_take_bit_iff)
  then have "push_bit 48 (word_of_nat ?f) AND (word_of_nat ?s) = (0 :: u64)"
    by (intro bit_eqI) (force simp: bit_and_iff bit_push_bit_iff bit_of_nat_iff)
  then have "(push_bit 48 (word_of_nat ?f) OR word_of_nat ?s :: u64) =
      push_bit 48 (word_of_nat ?f) + word_of_nat ?s"
    by (rule disjunctive_add_eq_or [symmetric])
  also have "\<dots> = word_of_nat (bytes_nat (rev ys @ rev xs))"
    using assms by (simp add: bytes_nat_append push_bit_eq_mult algebra_simps)
  also have "\<dots> = from_le (rev (xs @ ys))" by (simp add: from_le_def)
  finally have "(push_bit 48 (word_of_nat ?f) OR word_of_nat ?s :: u64) = from_le (rev (xs @ ys))" .
  then show ?thesis
    using to_le_from_le [of "rev (xs @ ys)", where 'a = 64] assms by (simp add: to_be_def)
qed

section \<open>Well-formed GUIDs\<close>

lemma length16_conv: "length xs = 16 \<Longrightarrow>
  xs = [xs ! 0, xs ! 1, xs ! 2, xs ! 3] @ [xs ! 4, xs ! 5] @ [xs ! 6, xs ! 7] @
    [xs ! 8, xs ! 9, xs ! 10, xs ! 11, xs ! 12, xs ! 13, xs ! 14, xs ! 15]"
  by (intro nth_equalityI) (auto simp: less_Suc_eq numeral_eq_Suc)

lemma guid_from_bytes_wf: "length val = 16 \<Longrightarrow> guid_wf (guid_from_bytes val)"
  using length16_conv [of val]
  by (simp add: guid_wf_def guid_from_bytes_def guid_of_fields_def to_le_from_le)

lemma guid_of_fields_wf: "length d4 = 8 \<Longrightarrow> guid_wf (guid_of_fields d1 d2 d3 d4)"
  by (simp add: guid_wf_def guid_of_fields_def)

lemma guid_from_str_wf: "guid_from_str s = Some g \<Longrightarrow> guid_wf g"
  by (auto simp: guid_from_str_def Let_def guid_of_fields_wf split: list.splits option.splits)

lemma guid_whole: "guid_wf g \<Longrightarrow>
    whole g = from_le (to_le (data1 g) @ to_le (data2 g) @ to_le (data3 g) @ data4 g)"
  unfolding guid_wf_def guid_of_fields_def by (metis Guid.select_convs(1))

lemma guid_whole_inject:
  assumes "guid_wf g" "guid_wf h" "whole g = whole h"
  shows "g = h"
proof -
  have "to_le (data1 g) @ to_le (data2 g) @ to_le (data3 g) @ data4 g =
      to_le (data1 h) @ to_le (data2 h) @ to_le (data3 h) @ data4 h"
  proof (rule from_le_inject [where 'a = 128])
    show "(from_le (to_le (data1 g) @ to_le (data2 g) @ to_le (data3 g) @ data4 g) :: u128) =
        from_le (to_le (data1 h) @ to_le (data2 h) @ to_le (data3 h) @ data4 h)"
      using assms by (metis guid_whole)
  qed (use assms in \<open>simp_all add: guid_wf_def\<close>)
  then have "to_le (data1 g) = to_le (data1 h)" "to_le (data2 g) = to_le (data2 h)"
    "to_le (data3 g) = to_le (data3 h)" "data4 g = data4 h" by simp_all
  then have "data1 g = data1 h" "data2 g = data2 h" "data3 g = data3 h" "data4 g = data4 h"
    using from_to_le_word by metis+
  with assms show ?thesis by (simp add: guid_wf_def)
qed

section \<open>Hexadecimal images of words\<close>

lemma hex_fixed_split:
  "hex_fixed (n + m) x = hex_fixed n (x div 16 ^ m) @ hex_fixed m (x mod 16 ^ m)"
proof (induction m arbitrary: x)
  case (Suc m)
  have "x mod 16 ^ Suc m div 16 = x div 16 mod 16 ^ m" "x mod 16 ^ Suc m mod 16 = x mod 16"
    by (simp_all add: mod_mult2_eq [of x 16 "16 ^ m"])
  then show ?case using Suc [of "x div 16"] by (simp add: div_mult2_eq)
qed simp

lemma hex_bytes_be: "hex_bytes (rev (nat_bytes n x)) = hex_fixed (2 * n) (x mod 256 ^ n)"
proof (induction n arbitrary: x)
  case 0
  then show ?case by (simp add: hex_bytes_def)
next
  case (Suc n)
  have "x mod 256 ^ Suc n div 256 = x div 256 mod 256 ^ n" "x mod 256 ^ Suc n mod 256 = x mod 256"
    by (simp_all add: mod_mult2_eq [of x 256 "256 ^ n"])
  then have "hex_fixed (2 * n + 2) (x mod 256 ^ Suc n) =
      hex_fixed (2 * n) (x div 256 mod 256 ^ n) @ hex_fixed 2 (x mod 256)"
    by (subst hex_fixed_split) simp
  then show ?case
    using Suc [of "x div 256"] by (simp add: hex_bytes_def unat_byte_of_nat)
qed

lemma nat_bytes_4: "nat_bytes 4 x =
  [word_of_nat x, word_of_nat (x div 256), word_of_nat (x div 65536), word_of_nat (x div 16777216)]"
proof -
  have "(4 :: nat) = Suc (Suc (Suc (Suc 0)))" by simp
  then show ?thesis
    by (simp only: nat_bytes.simps div_mult2_eq [symmetric]) simp
qed

lemma to_be_u32: "to_be (r :: u32) =
  [word_of_nat (unat r div 16777216), word_of_nat (unat r div 65536),
   word_of_nat (unat r div 256), word_of_nat (unat r)]"
  by (simp add: to_be_def to_le_def nat_bytes_4)

lemma unat_version_byte: "unat ((b AND 0x0f) OR 0x40 :: u8) = 64 + unat b mod 16"
proof -
  have "(b AND 0x0f) AND (0x40 :: u8) = 0" by (simp add: and.assoc)
  then have "(b AND 0x0f) OR (0x40 :: u8) = (b AND 0x0f) + 0x40"
    by (rule disjunctive_add_eq_or [symmetric])
  moreover have "unat (b AND 0x0f) = unat b mod 16" by (simp add: unsigned_and_eq)
  moreover have "unat b mod 16 < 16" by simp
  ultimately show ?thesis by (simp add: unat_word_ariths)
qed

lemma unat_variant_byte: "unat ((b AND 0x3f) OR 0x80 :: u8) = 128 + unat b mod 64"
proof -
  have "(b AND 0x3f) AND (0x80 :: u8) = 0" by (simp add: and.assoc)
  then have "(b AND 0x3f) OR (0x80 :: u8) = (b AND 0x3f) + 0x80"
    by (rule disjunctive_add_eq_or [symmetric])
  moreover have "unat (b AND 0x3f) = unat b mod 64" by (simp add: unsigned_and_eq)
  moreover have "unat b mod 64 < 64" by simp
  ultimately show ?thesis by (simp add: unat_word_ariths)
qed

fun uuid_text :: "nat \<Rightarrow> bytes \<Rightarrow> string" where
  "uuid_text idx [] = []"
| "uuid_text idx (b # bs) = hex_fixed 2 (unat b) @
    (if idx = 3 \<or> idx = 5 \<or> idx = 7 \<or> idx = 9 then ''-'' else []) @ uuid_text (Suc idx) bs"

lemma hex_fixed_2: "hex_fixed 2 x = [hex_digit (x div 16 mod 16), hex_digit (x mod 16)]"
proof -
  have "(2 :: nat) = Suc (Suc 0)" by simp
  then show ?thesis by (simp only: hex_fixed.simps) simp
qed

lemma hex_fixed_byte: "hex_fixed 2 (unat (b :: u8)) = [hex_digit (unat (drop_bit 4 b)), hex_digit (unat (b AND 0x0f))]"
  using unat_u8_less [of b]
  by (simp only: unat_drop_bit hex_fixed_2) (simp add: unsigned_and_eq)

lemma put_next [simp]: "put (d @ x # r) (length d) v = Ok (d @ v # r)"
  by (simp add: put_def)

lemma from_uuid_loop_text:
  "length (uuid_text idx bs) \<le> k \<Longrightarrow>
   from_uuid_loop bs idx (length d) (d @ replicate k z) =
     Ok (d @ uuid_text idx bs @ replicate (k - length (uuid_text idx bs)) z)"
proof (induction bs arbitrary: idx k d)
  case (Cons b bs)
  let ?h = "[hex_digit (unat (drop_bit 4 b)), hex_digit (unat (b AND 0x0f))]"
  have "2 \<le> k" using Cons.prems by simp
  then obtain m where k: "k = Suc (Suc m)" by (metis add_2_eq_Suc le_Suc_ex)
  have p1: "put (d @ z # z # r) (length d) v = Ok (d @ v # z # r)" for r v by (simp add: put_def)
  have p2: "put (d @ a # z # r) (length d + 1) v = Ok (d @ a # v # r)" for a r v
    by (simp add: put_def list_update_append)
  have p3: "put (d @ a # c # z # r) (length d + 2) v = Ok (d @ a # c # v # r)" for a c r v
    by (simp add: put_def list_update_append)
  show ?case
  proof (cases "idx = 3 \<or> idx = 5 \<or> idx = 7 \<or> idx = 9")
    case True
    with Cons.prems k obtain n where m: "m = Suc n"
      by (cases m) (auto simp: hex_fixed_byte)
    have "from_uuid_loop bs (Suc idx) (length (d @ ?h @ ''-'')) ((d @ ?h @ ''-'') @ replicate n z) =
        Ok ((d @ ?h @ ''-'') @ uuid_text (Suc idx) bs @ replicate (n - length (uuid_text (Suc idx) bs)) z)"
      using Cons.prems True k m by (intro Cons.IH) (simp add: hex_fixed_byte)
    moreover have "from_uuid_loop (b # bs) idx (length d) (d @ replicate k z) =
        from_uuid_loop bs (Suc idx) (length (d @ ?h @ ''-'')) ((d @ ?h @ ''-'') @ replicate n z)"
      unfolding from_uuid_loop.simps k m replicate.simps p1 p2 p3 bind_res.simps if_P [OF True]
      by (simp add: numeral_3_eq_3)
    ultimately show ?thesis using True k m by (simp add: hex_fixed_byte)
  next
    case False
    have "from_uuid_loop bs (Suc idx) (length (d @ ?h)) ((d @ ?h) @ replicate m z) =
        Ok ((d @ ?h) @ uuid_text (Suc idx) bs @ replicate (m - length (uuid_text (Suc idx) bs)) z)"
      using Cons.prems False k by (intro Cons.IH) (simp add: hex_fixed_byte)
    moreover have "from_uuid_loop (b # bs) idx (length d) (d @ replicate k z) =
        from_uuid_loop bs (Suc idx) (length (d @ ?h)) ((d @ ?h) @ replicate m z)"
      unfolding from_uuid_loop.simps k replicate.simps p1 p2 bind_res.simps if_not_P [OF False]
      by simp
    ultimately show ?thesis using False k by (simp add: hex_fixed_byte)
  qed
qed simp

lemma from_uuid_groups:
  "from_uuid [b0, b1, b2, b3, b4, b5, b6, b7, b8, b9, b10, b11, b12, b13, b14, b15] =
   Ok (hex_bytes [b0, b1, b2, b3] @ ''-'' @ hex_bytes [b4, b5] @ ''-'' @ hex_bytes [b6, b7] @ ''-'' @
       hex_bytes [b8, b9] @ ''-'' @ hex_bytes [b10, b11, b12, b13, b14, b15])"
proof -
  let ?bs = "[b0, b1, b2, b3, b4, b5, b6, b7, b8, b9, b10, b11, b12, b13, b14, b15]"
  have "length (uuid_text 0 ?bs) = 36" by simp
  then have "from_uuid ?bs = Ok (uuid_text 0 ?bs)"
    using from_uuid_loop_text [of 0 ?bs 36 "[]" "CHR 0x00"] by (simp add: from_uuid_def)
  then show ?thesis by (simp add: hex_bytes_def)
qed

lemma guid_to_string_groups:
  assumes "length (data4 g) = 8"
  shows "guid_to_string g =
    hex_fixed 8 (unat (data1 g)) @ ''-'' @ hex_fixed 4 (unat (data2 g)) @ ''-'' @
    hex_fixed 4 (unat (data3 g)) @ ''-'' @ hex_bytes (take 2 (data4 g)) @ ''-'' @
    hex_bytes (drop 2 (data4 g))"
proof -
  obtain x0 x1 x2 x3 x4 x5 x6 x7 where d: "data4 g = [x0, x1, x2, x3, x4, x5, x6, x7]"
    using length8_conv [OF assms] by blast
  show ?thesis unfolding guid_to_string_def hex_bytes_def d by simp
qed

lemma unat_less_16_pow: "unat (w :: u16) < 16 ^ 4" "unat (v :: u32) < 16 ^ 8"
  using unsigned_less [of w, where ?'a = nat] unsigned_less [of v, where ?'a = nat] by simp_all

lemma uuid_bytes: "uuid_v4 r1 r2 r3 r4 =
  [word_of_nat (unat r1 div 16777216), word_of_nat (unat r1 div 65536),
   word_of_nat (unat r1 div 256), word_of_nat (unat r1),
   word_of_nat (unat r2 div 16777216), word_of_nat (unat r2 div 65536),
   (word_of_nat (unat r2 div 256) AND 0x0f) OR 0x40, word_of_nat (unat r2),
   (word_of_nat (unat r3 div 16777216) AND 0x3f) OR 0x80, word_of_nat (unat r3 div 65536),
   word_of_nat (unat r3 div 256), word_of_nat (unat r3),
   word_of_nat (unat r4 div 16777216), word_of_nat (unat r4 div 65536),
   word_of_nat (unat r4 div 256), word_of_nat (unat r4)]"
  by (simp add: uuid_v4_def to_be_u32 Let_def)

lemma nat_bytes_2: "nat_bytes 2 x = [word_of_nat x, word_of_nat (x div 256)]"
proof -
  have "(2 :: nat) = Suc (Suc 0)" by simp
  then show ?thesis by (simp only: nat_bytes.simps)
qed

lemma hex_bytes_word: "hex_bytes [word_of_nat (unat (r :: u32) div 16777216), word_of_nat (unat r div 65536),
    word_of_nat (unat r div 256), word_of_nat (unat r)] = hex_fixed 8 (unat r)"
  using hex_bytes_be [of 4 "unat r"] unat_less_16_pow(2) [of r] by (simp add: nat_bytes_4)

lemma hex_bytes_pair: "hex_bytes [word_of_nat (x div 256), word_of_nat x] = hex_fixed 4 (x mod 65536)"
  using hex_bytes_be [of 2 x] by (simp add: nat_bytes_2)

lemma hex_bytes_high: "hex_bytes [word_of_nat (unat (r :: u32) div 16777216), word_of_nat (unat r div 65536)]
    = hex_fixed 4 (unat r div 65536)"
  using hex_bytes_pair [of "unat r div 65536"] unat_less_16_pow(2) [of r]
  by (simp add: div_mult2_eq [symmetric])

lemma hex_fixed_3: "hex_fixed 3 x = hex_digit (x div 256 mod 16) # hex_fixed 2 (x mod 256)"
proof -
  have "hex_fixed (1 + 2) x = hex_fixed 1 (x div 16 ^ 2) @ hex_fixed 2 (x mod 16 ^ 2)"
    by (rule hex_fixed_split)
  moreover have "hex_fixed 1 y = [hex_digit (y mod 16)]" for y by simp
  ultimately show ?thesis by (simp add: numeral_3_eq_3 del: hex_fixed.simps)
qed

lemma mod_4096: "(x :: nat) mod 4096 div 256 mod 16 = x div 256 mod 16" "(x :: nat) mod 4096 mod 256 = x mod 256"
  using mod_mult2_eq [of x 256 16] by simp_all

lemma mod_256_cancel: "(y :: nat) mod 256 mod 16 = y mod 16" "(y :: nat) mod 256 mod 64 = y mod 64"
  by (simp_all add: mod_mod_cancel)

lemma version_group: "hex_bytes [(word_of_nat (x div 256) AND 0x0f) OR 0x40, word_of_nat x] =
    hex_digit 4 # hex_fixed 3 (x mod 4096)"
proof -
  have "(64 + y mod 16) div 16 mod 16 = 4" "(64 + y mod 16) mod 16 = y mod 16" for y :: nat
    using mod_mult_self3 [of 4 16 "y mod 16"] by simp_all
  then show ?thesis
    by (simp only: hex_bytes_def list.map concat.simps unat_version_byte unat_byte_of_nat hex_fixed_3
        hex_fixed_2 [of "64 + y" for y] append_Cons append_Nil append_Nil2 mod_4096 mod_256_cancel)
qed

lemma variant_digits: "(128 + y mod 64) div 16 mod 16 = 8 + y div 16 mod 4"
    "(128 + y mod 64) mod 16 = y mod 16" for y :: nat
proof -
  have y: "y mod 64 = 16 * (y div 16 mod 4) + y mod 16"
    using mod_mult2_eq [of y 16 4] by simp
  have "y div 16 mod 4 < 4" by simp
  then have "8 + y div 16 mod 4 < 16" by linarith
  moreover have "(128 + y mod 64) div 16 = 8 + y div 16 mod 4" unfolding y by simp
  ultimately show "(128 + y mod 64) div 16 mod 16 = 8 + y div 16 mod 4" by simp
  show "(128 + y mod 64) mod 16 = y mod 16" unfolding y by (simp add: mod_add_eq [symmetric])
qed

lemma variant_group: "hex_bytes [(word_of_nat (x div 16777216) AND 0x3f) OR 0x80, word_of_nat (x div 65536)] =
    hex_digit (8 + x div 2 ^ 28 mod 4) # hex_fixed 3 (x div 65536 mod 4096)"
proof -
  have "x div 65536 div 256 = x div 16777216" "x div 16777216 div 16 = x div 2 ^ 28"
    by (simp_all add: div_mult2_eq [symmetric])
  then show ?thesis
    by (simp only: hex_bytes_def list.map concat.simps unat_variant_byte unat_byte_of_nat hex_fixed_3
        hex_fixed_2 [of "128 + y" for y] append_Cons append_Nil append_Nil2 mod_4096 mod_256_cancel
        variant_digits)
qed

lemma hex_bytes_append: "hex_bytes (xs @ ys) = hex_bytes xs @ hex_bytes ys"
  by (simp add: hex_bytes_def)

lemma hex_bytes_tail: "hex_bytes [word_of_nat (unat (q :: u32) div 256), word_of_nat (unat q),
    word_of_nat (unat (r :: u32) div 16777216), word_of_nat (unat r div 65536),
    word_of_nat (unat r div 256), word_of_nat (unat r)] =
    hex_fixed 4 (unat q mod 65536) @ hex_fixed 8 (unat r)"
  using hex_bytes_append [of "[word_of_nat (unat q div 256), word_of_nat (unat q)]"
      "[word_of_nat (unat r div 16777216), word_of_nat (unat r div 65536),
        word_of_nat (unat r div 256), word_of_nat (unat r)]"]
  by (simp only: append_Cons append_Nil hex_bytes_pair hex_bytes_word)

section \<open>Properties\<close>

text \<open>C30. Printing a GUID and parsing the text again gives the same GUID, for every GUID whose
  fields agree with its 128-bit image (every GUID made by \<open>guid_from_bytes\<close> or \<open>guid_from_str\<close>).\<close>

theorem guid_string_roundtrip:
  assumes "guid_wf g"
  shows "guid_from_str (guid_to_string g) = Some g"
proof -
  let ?d = "data4 g"
  have len: "length ?d = 8" using assms by (simp add: guid_wf_def)
  have "splitn 5 CHR ''-'' (guid_to_string g) =
     [hex_fixed 8 (unat (data1 g)), hex_fixed 4 (unat (data2 g)), hex_fixed 4 (unat (data3 g)),
      hex_bytes (take 2 ?d), hex_bytes (drop 2 ?d)]"
    unfolding guid_to_string_groups [OF len]
    by (rule splitn_guid) (auto dest: hex_fixed_chars hex_bytes_chars)
  moreover have "bytes_nat (rev (take 2 ?d)) < 2 ^ 16" "bytes_nat (rev (drop 2 ?d)) < 2 ^ 48"
    using bytes_nat_bound [of "rev (take 2 ?d)"] bytes_nat_bound [of "rev (drop 2 ?d)"] len by simp_all
  moreover have "take 2 ?d \<noteq> []" "drop 2 ?d \<noteq> []" using len by auto
  moreover have "to_be (push_bit 48 (word_of_nat (bytes_nat (rev (take 2 ?d)))) OR
      word_of_nat (bytes_nat (rev (drop 2 ?d))) :: u64) = ?d"
    using len by (subst data4_join) simp_all
  moreover have "unat (data1 g) \<le> 2 ^ 32 - 1" "unat (data2 g) \<le> 2 ^ 16 - 1" "unat (data3 g) \<le> 2 ^ 16 - 1"
    using unat_less_16_pow(1) [of "data2 g"] unat_less_16_pow(1) [of "data3 g"]
      unat_less_16_pow(2) [of "data1 g"] by simp_all
  ultimately show ?thesis
    using assms unat_less_16_pow
    by (simp add: guid_from_str_def from_str_radix16_hex_fixed from_str_radix16_hex_bytes guid_wf_def)
qed

theorem guid_string_roundtrip_witness:
  "guid_from_str (guid_to_string (guid_of_fields 0xC12A7328 0xF81F 0x11D2 [0xBA, 0x4B, 0, 0xA0, 0xC9, 0x3E, 0xC9, 0x3B]))
    = Some (guid_of_fields 0xC12A7328 0xF81F 0x11D2 [0xBA, 0x4B, 0, 0xA0, 0xC9, 0x3E, 0xC9, 0x3B])"
  by (rule guid_string_roundtrip) (simp add: guid_of_fields_wf)

text \<open>The order used by the maps keyed by GUID compares equal exactly on equal GUIDs, and
  swapping the arguments swaps the answer.\<close>

theorem guid_cmp_consistent:
  assumes "guid_wf g" "guid_wf h"
  shows "(guid_cmp g h = Equal \<longleftrightarrow> g = h) \<and> (guid_cmp g h = Less \<longleftrightarrow> guid_cmp h g = Greater)"
  using guid_whole_inject [OF assms] by (auto simp: guid_cmp_def)

theorem guid_cmp_consistent_witness:
  "(guid_cmp (guid_from_bytes (replicate 16 1)) (guid_from_bytes (replicate 16 2)) = Equal \<longleftrightarrow>
     guid_from_bytes (replicate 16 1) = guid_from_bytes (replicate 16 2)) \<and>
   (guid_cmp (guid_from_bytes (replicate 16 1)) (guid_from_bytes (replicate 16 2)) = Less \<longleftrightarrow>
     guid_cmp (guid_from_bytes (replicate 16 2)) (guid_from_bytes (replicate 16 1)) = Greater)"
  by (rule guid_cmp_consistent) (simp_all add: guid_from_bytes_wf)

text \<open>A random UUID prints as the 36 characters of RFC 4122: the four random words in
  hexadecimal, cut into groups of 8, 4, 4, 4 and 12 digits, with the version digit 4 leading the
  third group and a variant digit between 8 and b leading the fourth.\<close>

theorem uuid_v4_text:
  "from_uuid (uuid_v4 r1 r2 r3 r4) = Ok (
     hex_fixed 8 (unat r1) @ ''-'' @
     hex_fixed 4 (unat r2 div 65536) @ ''-'' @
     hex_digit 4 # hex_fixed 3 (unat r2 mod 4096) @ ''-'' @
     hex_digit (8 + unat r3 div 2 ^ 28 mod 4) # hex_fixed 3 (unat r3 div 65536 mod 4096) @ ''-'' @
     hex_fixed 4 (unat r3 mod 65536) @ hex_fixed 8 (unat r4))"
  unfolding uuid_bytes from_uuid_groups hex_bytes_word hex_bytes_high version_group variant_group hex_bytes_tail
  by simp

end
