(* ===== verification/Bits.thy ===== *)
theory Bits
  imports Prelude
begin

text \<open>
  The bit iterator the block allocator and the inode search walk a bitmap
  with (\<^verbatim>\<open>src/kernel/src/crypto/iterators.rs\<close>), and the two arithmetic helpers
  of \<^verbatim>\<open>src/kernel/src/crypto/mod.rs\<close>.
\<close>

datatype Bit = Zero | One

record 'a BitIterator =
  it_num :: "'a list"
  it_idx :: nat
  it_bit_idx :: nat

definition bit_iterator_new :: "'a list \<Rightarrow> 'a BitIterator" where
  "bit_iterator_new xs = \<lparr> it_num = xs, it_idx = 0, it_bit_idx = 0 \<rparr>"

definition bit_iterator_next ::
    "'a::len word BitIterator \<Rightarrow> Bit option \<times> 'a word BitIterator" where
  "bit_iterator_next it =
    (if length (it_num it) \<le> it_idx it then (None, it)
     else
       let mask = push_bit (it_bit_idx it) 1;
           r = it_num it ! it_idx it AND mask;
           b = (if r = 0 then Zero else One);
           it = it\<lparr> it_bit_idx := it_bit_idx it + 1 \<rparr>;
           bits_per_element = (LENGTH('a) div 8) * 8;
           it = (if bits_per_element \<le> it_bit_idx it then it\<lparr> it_bit_idx := 0, it_idx := it_idx it + 1 \<rparr> else it)
       in (Some b, it))"

definition binary_test :: "u64 \<Rightarrow> u64 \<Rightarrow> bool" where
  "binary_test target n =
    (let m = push_bit (unat n mod 64) 1 in target AND m = m)"

definition lba_to_chs :: "u16 \<Rightarrow> u64 \<Rightarrow> (unit, u64 \<times> u64 \<times> u64) res" where
  "lba_to_chs sectors_per_track lba =
    (let spt = ucast sectors_per_track :: u64 in
     if spt = 0 then Panic
     else
       let cylinder = lba div (spt * 2);
           head = (lba mod (spt * 2)) div spt;
           sector = (lba mod spt) + 1
       in Ok (cylinder, head, sector))"

section \<open>Iterating to the end\<close>

text \<open>The items a \<^verbatim>\<open>for\<close> loop over the iterator sees, in order.\<close>

function bit_collect :: "'a::len word BitIterator \<Rightarrow> Bit list" where
  "bit_collect it = (case bit_iterator_next it of
      (None, _) \<Rightarrow> []
    | (Some b, it') \<Rightarrow> b # bit_collect it')"
  by pat_completeness auto
termination
  by (relation "measures [\<lambda>it. length (it_num it) - it_idx it, \<lambda>it. LENGTH('a) - it_bit_idx it]")
    (auto simp: bit_iterator_next_def Let_def split: if_splits)

declare bit_collect.simps [simp del]

definition bit_of :: "bool \<Rightarrow> Bit" where
  "bit_of b = (if b then One else Zero)"

definition word_bits :: "'a::len word \<Rightarrow> Bit list" where
  "word_bits w = map (\<lambda>i. bit_of (bit w i)) [0..<LENGTH('a)]"

lemma length_word_bits [simp]: "length (word_bits (w :: 'a::len word)) = LENGTH('a)"
  by (simp add: word_bits_def)

lemma and_single_bit_eq_0: "n < LENGTH('a::len) \<Longrightarrow> (w :: 'a word) AND push_bit n 1 = 0 \<longleftrightarrow> \<not> bit w n"
proof -
  assume n: "n < LENGTH('a)"
  have b: "bit (w AND push_bit n 1) k \<longleftrightarrow> bit w n \<and> k = n" for k
    using n by (auto simp: bit_and_iff bit_exp_iff)
  show ?thesis
  proof
    assume "w AND push_bit n 1 = 0"
    with b [of n] show "\<not> bit w n" by simp
  next
    assume "\<not> bit w n"
    with b show "w AND push_bit n 1 = 0" by (intro bit_eqI) simp
  qed
qed

lemma bit_iterator_next_in:
  assumes "it_idx it < length (it_num (it :: 'a::len word BitIterator))" "it_bit_idx it < LENGTH('a)"
    "8 dvd LENGTH('a)"
  shows "bit_iterator_next it = (Some (bit_of (bit (it_num it ! it_idx it) (it_bit_idx it))),
    if it_bit_idx it + 1 < LENGTH('a) then it\<lparr> it_bit_idx := it_bit_idx it + 1 \<rparr>
    else it\<lparr> it_bit_idx := 0, it_idx := it_idx it + 1 \<rparr>)"
  using assms and_single_bit_eq_0 [of "it_bit_idx it" "it_num it ! it_idx it"]
  by (auto simp: bit_iterator_next_def Let_def bit_of_def)

lemma bit_collect_word:
  assumes "k < LENGTH('a::len)" "8 dvd LENGTH('a)" "i < length xs"
  shows "bit_collect \<lparr> it_num = (xs :: 'a word list), it_idx = i, it_bit_idx = k \<rparr> =
    drop k (word_bits (xs ! i)) @ bit_collect \<lparr> it_num = xs, it_idx = Suc i, it_bit_idx = 0 \<rparr>"
  using assms(1)
proof (induction "LENGTH('a) - k" arbitrary: k)
  case (Suc m)
  have d: "drop k (word_bits (xs ! i)) = bit_of (bit (xs ! i) k) # drop (Suc k) (word_bits (xs ! i))"
    using Suc.prems by (subst Cons_nth_drop_Suc [symmetric]) (simp_all add: word_bits_def)
  have n: "bit_iterator_next \<lparr> it_num = xs, it_idx = i, it_bit_idx = k \<rparr> = (Some (bit_of (bit (xs ! i) k)),
      if k + 1 < LENGTH('a) then \<lparr> it_num = xs, it_idx = i, it_bit_idx = k + 1 \<rparr>
      else \<lparr> it_num = xs, it_idx = Suc i, it_bit_idx = 0 \<rparr>)"
    using assms Suc.prems by (subst bit_iterator_next_in) auto
  show ?case
  proof (cases "k + 1 < LENGTH('a)")
    case True
    then have "bit_collect \<lparr> it_num = xs, it_idx = i, it_bit_idx = k + 1 \<rparr> =
        drop (k + 1) (word_bits (xs ! i)) @ bit_collect \<lparr> it_num = xs, it_idx = Suc i, it_bit_idx = 0 \<rparr>"
      using Suc.hyps by (intro Suc.hyps(1)) auto
    with True show ?thesis by (subst bit_collect.simps) (simp add: n d)
  next
    case False
    then have "drop (Suc k) (word_bits (xs ! i)) = []" by simp
    with False show ?thesis by (subst bit_collect.simps) (simp add: n d)
  qed
qed simp

lemma bit_collect_from:
  assumes "8 dvd LENGTH('a::len)"
  shows "bit_collect \<lparr> it_num = (xs :: 'a word list), it_idx = i, it_bit_idx = 0 \<rparr> = concat (map word_bits (drop i xs))"
proof (induction "length xs - i" arbitrary: i)
  case 0
  then show ?case by (subst bit_collect.simps) (simp add: bit_iterator_next_def)
next
  case (Suc m)
  then have i: "i < length xs" by simp
  have "bit_collect \<lparr> it_num = xs, it_idx = i, it_bit_idx = 0 \<rparr> =
      word_bits (xs ! i) @ bit_collect \<lparr> it_num = xs, it_idx = Suc i, it_bit_idx = 0 \<rparr>"
    using bit_collect_word [OF _ assms i, of 0] by simp
  also have "bit_collect \<lparr> it_num = xs, it_idx = Suc i, it_bit_idx = 0 \<rparr> = concat (map word_bits (drop (Suc i) xs))"
    using Suc by simp
  finally show ?case using i by (simp add: Cons_nth_drop_Suc [symmetric])
qed

lemma nth_concat_word_bits:
  "i < LENGTH('a::len) * length xs \<Longrightarrow>
   concat (map word_bits (xs :: 'a word list)) ! i = bit_of (bit (xs ! (i div LENGTH('a))) (i mod LENGTH('a)))"
proof (induction xs arbitrary: i)
  case (Cons x xs)
  show ?case
  proof (cases "i < LENGTH('a)")
    case True
    then show ?thesis by (simp add: nth_append word_bits_def)
  next
    case False
    then have "i div LENGTH('a) = Suc ((i - LENGTH('a)) div LENGTH('a))"
      "i mod LENGTH('a) = (i - LENGTH('a)) mod LENGTH('a)"
      by (simp_all add: le_div_geq le_mod_geq)
    then show ?thesis using False Cons by (simp add: nth_append)
  qed
qed simp

lemma length_concat_word_bits:
  "length (concat (map word_bits (xs :: 'a::len word list))) = LENGTH('a) * length xs"
  by (induction xs) simp_all

text \<open>Walking a byte array yields its bits in the order the on-disk bitmaps number them.\<close>

lemma bit_collect_bytes:
  fixes bs :: bytes
  shows "bit_collect (bit_iterator_new bs) = map (\<lambda>i. bit_of (bit_at bs i)) [0..<8 * length bs]"
proof (rule nth_equalityI)
  have c: "bit_collect (bit_iterator_new bs) = concat (map word_bits bs)"
    using bit_collect_from [of bs 0] by (simp add: bit_iterator_new_def)
  show "length (bit_collect (bit_iterator_new bs)) =
      length (map (\<lambda>i. bit_of (bit_at bs i)) [0..<8 * length bs])"
    by (simp add: c length_concat_word_bits)
  fix i assume "i < length (bit_collect (bit_iterator_new bs))"
  then have "i < 8 * length bs" by (simp add: c length_concat_word_bits)
  then show "bit_collect (bit_iterator_new bs) ! i = map (\<lambda>i. bit_of (bit_at bs i)) [0..<8 * length bs] ! i"
    by (simp add: c nth_concat_word_bits bit_at_def)
qed

section \<open>Properties\<close>

text \<open>A \<open>for\<close> loop over the bit iterator of a byte array sees every bit exactly once, in the order
  of the bitmap: byte by byte, least significant bit first, then stops.\<close>

theorem bit_iterator_yields_bitmap:
  "bit_collect (bit_iterator_new bs) = map (\<lambda>i. bit_of (bit_at bs i)) [0..<8 * length bs]"
  by (rule bit_collect_bytes)

text \<open>The cylinder/head/sector triple of a sector number denotes that sector on a disk with two
  heads: the head is 0 or 1, sectors count from 1, and the triple recombines to the number.\<close>

theorem lba_to_chs_recombines:
  assumes "lba_to_chs spt lba = Ok (c, h, s)"
  shows "unat lba = (unat c * 2 + unat h) * unat spt + (unat s - 1) \<and> unat h < 2 \<and>
    1 \<le> unat s \<and> unat s \<le> unat spt"
proof -
  let ?p = "unat spt" and ?l = "unat lba"
  have spt: "spt \<noteq> 0" using assms by (auto simp: lba_to_chs_def Let_def split: if_splits)
  then have pos: "0 < ?p" by (simp add: unat_gt_0)
  have small: "?p < 2 ^ 16" using unsigned_less [of spt, where ?'a = nat] by simp
  have p: "unat (ucast spt :: u64) = ?p" using small by (simp add: unsigned_ucast_eq take_bit_nat_eq_self)
  have p2: "unat (ucast spt * 2 :: u64) = ?p * 2" using small by (simp add: unat_word_ariths p)
  have "c = lba div (ucast spt * 2)" "h = (lba mod (ucast spt * 2)) div ucast spt"
    "s = (lba mod ucast spt) + 1"
    using assms spt by (auto simp: lba_to_chs_def Let_def split: if_splits)
  moreover have "?l mod ?p < ?p" using pos by simp
  ultimately have c: "unat c = ?l div (?p * 2)" and h: "unat h = ?l mod (?p * 2) div ?p"
    and s: "unat s = ?l mod ?p + 1"
    using small by (simp_all add: unat_div unat_mod p p2 unat_word_ariths)
  have hl: "?l mod (?p * 2) div ?p = ?l div ?p mod 2"
    using pos mod_mult2_eq [of ?l ?p 2] by simp
  have "?l div (?p * 2) = ?l div ?p div 2" by (rule div_mult2_eq)
  then have "unat c * 2 + unat h = ?l div ?p" by (simp add: c h hl)
  then show ?thesis using pos by (simp add: s h hl Suc_le_eq)
qed

theorem lba_to_chs_recombines_witness:
  "\<exists>c h s. lba_to_chs 18 2879 = Ok (c, h, s) \<and> (2879 :: nat) = (unat c * 2 + unat h) * 18 + (unat s - 1)"
proof -
  have "lba_to_chs 18 2879 = Ok (79, 1, 18)" by (simp add: lba_to_chs_def Let_def)
  with lba_to_chs_recombines [OF this] show ?thesis by auto
qed

end
