(* ===== verification/Paths.thy ===== *)
theory Paths
  imports Prelude
begin

text \<open>
  Absolute Unix paths (\<^verbatim>\<open>src/kernel/src/hal/path.rs\<close>): the double-ended
  iterator over components, and \<^verbatim>\<open>parent\<close>, \<^verbatim>\<open>file_name\<close>, \<^verbatim>\<open>extension\<close>,
  \<^verbatim>\<open>normalize\<close> and \<^verbatim>\<open>join\<close> on top of it.  The iterator is specified by the
  locale \<open>double_ended\<close>: it hands out the non-empty pieces between slashes,
  each once, from either end.
\<close>

section \<open>String searching\<close>

fun find_char :: "char \<Rightarrow> string \<Rightarrow> nat option" where
  "find_char c [] = None"
| "find_char c (x # xs) = (if x = c then Some 0 else map_option Suc (find_char c xs))"

fun rfind_char :: "char \<Rightarrow> string \<Rightarrow> nat option" where
  "rfind_char c [] = None"
| "rfind_char c (x # xs) = (case rfind_char c xs of
      Some n \<Rightarrow> Some (Suc n)
    | None \<Rightarrow> if x = c then Some 0 else None)"

definition starts_with :: "char \<Rightarrow> string \<Rightarrow> bool" where
  "starts_with c s = (case s of [] \<Rightarrow> False | x # _ \<Rightarrow> x = c)"

definition ends_with :: "char \<Rightarrow> string \<Rightarrow> bool" where
  "ends_with c s = (s \<noteq> [] \<and> last s = c)"

definition trim_end_matches :: "char \<Rightarrow> string \<Rightarrow> string" where
  "trim_end_matches c s = rev (dropWhile (\<lambda>x. x = c) (rev s))"

section \<open>Paths and their components\<close>

record Path =
  raw :: string

record Components =
  path :: string
  front :: nat
  rear :: nat

definition path_new :: "string \<Rightarrow> Path option" where
  "path_new p = (if starts_with CHR ''/'' p then Some \<lparr> raw = p \<rparr> else None)"

definition new_appended :: "string \<Rightarrow> Path" where
  "new_appended p = (if starts_with CHR ''/'' p then \<lparr> raw = p \<rparr> else \<lparr> raw = ''/'' @ p \<rparr>)"

definition components :: "Path \<Rightarrow> Components" where
  "components p = \<lparr> path = raw p, front = 1, rear = length (raw p) \<rparr>"

lemma find_char_less: "find_char c s = Some n \<Longrightarrow> n < length s"
  by (induction s arbitrary: n) (auto split: if_splits)

lemma rfind_char_less: "rfind_char c s = Some n \<Longrightarrow> n < length s"
  by (induction s arbitrary: n) (auto split: if_splits option.splits)

function components_next :: "Components \<Rightarrow> string option \<times> Components" where
  "components_next it =
    (if front it < rear it then
       let remaining = sub_list (path it) (front it) (rear it) in
       case find_char CHR ''/'' remaining of
         Some pos \<Rightarrow>
           let component = take pos remaining; it' = it\<lparr> front := front it + pos + 1 \<rparr> in
           if component \<noteq> [] then (Some component, it') else components_next it'
       | None \<Rightarrow>
           let it' = it\<lparr> front := rear it \<rparr> in
           if remaining \<noteq> [] then (Some remaining, it') else (None, it')
     else (None, it))"
  by pat_completeness auto
termination
  by (relation "measure (\<lambda>it. rear it - front it)") auto

function components_next_back :: "Components \<Rightarrow> string option \<times> Components" where
  "components_next_back it =
    (if front it < rear it then
       let remaining = sub_list (path it) (front it) (rear it) in
       case rfind_char CHR ''/'' remaining of
         Some pos \<Rightarrow>
           let component = drop (pos + 1) remaining; it' = it\<lparr> rear := front it + pos \<rparr> in
           if component \<noteq> [] then (Some component, it') else components_next_back it'
       | None \<Rightarrow>
           let it' = it\<lparr> rear := front it \<rparr> in
           if remaining \<noteq> [] then (Some remaining, it') else (None, it')
     else (None, it))"
  by pat_completeness auto
termination
  by (relation "measure (\<lambda>it. rear it - front it)")
    (auto dest!: rfind_char_less simp: sub_list_def)

declare components_next.simps [simp del] components_next_back.simps [simp del]

text \<open>What a \<^verbatim>\<open>for\<close> loop over the remaining components sees.\<close>

lemma components_next_shrinks:
  "components_next it = (Some c, it') \<Longrightarrow> rear it' = rear it \<and> rear it' - front it' < rear it - front it"
proof (induction it rule: components_next.induct)
  case (1 it)
  show ?case
  proof (cases "front it < rear it")
    case False
    then show ?thesis using "1.prems" by (simp add: components_next.simps)
  next
    case True
    let ?r = "sub_list (path it) (front it) (rear it)"
    show ?thesis
    proof (cases "find_char CHR ''/'' ?r")
      case None
      then show ?thesis using "1.prems" True
        by (subst (asm) components_next.simps) (auto simp: Let_def split: if_splits)
    next
      case (Some pos)
      let ?it = "it\<lparr> front := front it + pos + 1 \<rparr>"
      show ?thesis
      proof (cases "take pos ?r = []")
        case False
        then show ?thesis using "1.prems" True Some
          by (subst (asm) components_next.simps) (auto simp: Let_def split: if_splits)
      next
        case empty: True
        have "components_next ?it = (Some c, it')"
          using "1.prems" True Some empty by (subst (asm) components_next.simps) (simp add: Let_def)
        then show ?thesis using "1.IH" [OF True refl Some refl refl] empty by auto
      qed
    qed
  qed
qed

function components_list :: "Components \<Rightarrow> string list" where
  "components_list it = (case components_next it of
      (None, _) \<Rightarrow> []
    | (Some c, it') \<Rightarrow> c # components_list it')"
  by pat_completeness auto
termination
  by (relation "measure (\<lambda>it. rear it - front it)") (auto dest: sym [THEN components_next_shrinks])

declare components_list.simps [simp del]

section \<open>Operations\<close>

definition file_name :: "Path \<Rightarrow> string option" where
  "file_name p = fst (components_next_back (components p))"

definition parent :: "Path \<Rightarrow> Path option" where
  "parent p =
    (if raw p = ''/'' then None
     else case rfind_char CHR ''/'' (trim_end_matches CHR ''/'' (raw p)) of
         Some pos \<Rightarrow> if pos = 0 then Some \<lparr> raw = ''/'' \<rparr> else Some \<lparr> raw = take pos (raw p) \<rparr>
       | None \<Rightarrow> Some \<lparr> raw = ''/'' \<rparr>)"

definition extension :: "Path \<Rightarrow> string option" where
  "extension p = (case file_name p of None \<Rightarrow> None | Some name \<Rightarrow>
     (case rfind_char CHR ''.'' name of None \<Rightarrow> None | Some pos \<Rightarrow>
        if pos = 0 \<or> ends_with CHR ''/'' (take pos name) then None
        else Some (drop (pos + 1) name)))"

definition normalize_step :: "string list \<Rightarrow> string \<Rightarrow> string list" where
  "normalize_step stack component =
    (if component = ''.'' then stack
     else if component = ''..'' then butlast stack
     else stack @ [component])"

definition push_component :: "nat \<Rightarrow> string \<Rightarrow> string \<Rightarrow> string" where
  "push_component i component result = (if 0 < i then result @ ''/'' else result) @ component"

fun push_components :: "nat \<Rightarrow> string list \<Rightarrow> string \<Rightarrow> string" where
  "push_components i [] result = result"
| "push_components i (c # cs) result = push_components (Suc i) cs (push_component i c result)"

definition normalize :: "Path \<Rightarrow> Path" where
  "normalize p =
    (let stack = foldl normalize_step [] (components_list (components p))
     in \<lparr> raw = push_components 0 stack ''/'' \<rparr>)"

definition join :: "Path \<Rightarrow> string \<Rightarrow> Path" where
  "join p other =
    (if starts_with CHR ''/'' other then \<lparr> raw = other \<rparr>
     else
       let result = raw p;
           result = (if \<not> ends_with CHR ''/'' result then result @ ''/'' else result)
       in \<lparr> raw = result @ other \<rparr>)"

section \<open>The pieces between slashes\<close>

fun split_on :: "char \<Rightarrow> string \<Rightarrow> string list" where
  "split_on c [] = [[]]"
| "split_on c (x # xs) = (if x = c then [] # split_on c xs
     else (case split_on c xs of [] \<Rightarrow> [[x]] | y # ys \<Rightarrow> (x # y) # ys))"

definition parts :: "string \<Rightarrow> string list" where
  "parts s = filter (\<lambda>p. p \<noteq> []) (split_on CHR ''/'' s)"

definition path_parts :: "Path \<Rightarrow> string list" where
  "path_parts p = parts (drop 1 (raw p))"

lemma split_on_not_Nil [simp]: "split_on c s \<noteq> []"
  by (induction s) (auto split: list.splits)

lemma split_on_append: "split_on c (a @ c # b) = split_on c a @ split_on c b"
  by (induction a) (auto split: list.splits)

lemma split_on_none: "c \<notin> set s \<Longrightarrow> split_on c s = [s]"
  by (induction s) auto

lemma split_on_piece: "p \<in> set (split_on c s) \<Longrightarrow> c \<notin> set p"
  by (induction s arbitrary: p) (auto split: list.splits if_splits)

lemma parts_Nil [simp]: "parts [] = []"
  by (simp add: parts_def)

lemma parts_append: "parts (a @ CHR ''/'' # b) = parts a @ parts b"
  by (simp add: parts_def split_on_append)

lemma parts_slash [simp]: "parts (CHR ''/'' # b) = parts b"
  using parts_append [of "[]" b] by simp

lemma parts_none: "CHR ''/'' \<notin> set s \<Longrightarrow> parts s = (if s = [] then [] else [s])"
  by (simp add: parts_def split_on_none)

lemma parts_piece: "p \<in> set (parts s) \<Longrightarrow> p \<noteq> [] \<and> CHR ''/'' \<notin> set p"
  by (auto simp: parts_def dest: split_on_piece)

lemma find_char_Some:
  "find_char c s = Some n \<Longrightarrow> s = take n s @ c # drop (Suc n) s \<and> c \<notin> set (take n s)"
  by (induction s arbitrary: n) (auto split: if_splits)

lemma find_char_None: "find_char c s = None \<longleftrightarrow> c \<notin> set s"
  by (induction s) auto

lemma rfind_char_None: "rfind_char c s = None \<longleftrightarrow> c \<notin> set s"
  by (induction s) (auto split: option.splits)

lemma rfind_char_Some:
  "rfind_char c s = Some n \<Longrightarrow> s = take n s @ c # drop (Suc n) s \<and> c \<notin> set (drop (Suc n) s)"
  by (induction s arbitrary: n) (auto split: if_splits option.splits simp: rfind_char_None)

section \<open>The iterator is a deque of pieces\<close>

locale double_ended =
  fixes inv :: "'s \<Rightarrow> bool"
    and rest :: "'s \<Rightarrow> 'a list"
    and pop_front :: "'s \<Rightarrow> 'a option \<times> 's"
    and pop_back :: "'s \<Rightarrow> 'a option \<times> 's"
  assumes pop_front_None: "inv s \<Longrightarrow> rest s = [] \<Longrightarrow> fst (pop_front s) = None"
    and pop_front_Some: "inv s \<Longrightarrow> rest s = x # xs \<Longrightarrow> \<exists>s'. pop_front s = (Some x, s') \<and> inv s' \<and> rest s' = xs"
    and pop_back_None: "inv s \<Longrightarrow> rest s = [] \<Longrightarrow> fst (pop_back s) = None"
    and pop_back_Some: "inv s \<Longrightarrow> rest s = xs @ [x] \<Longrightarrow>
      \<exists>s'. pop_back s = (Some x, s') \<and> inv s' \<and> rest s' = xs"
begin

lemma pop_front_hd: "inv s \<Longrightarrow> fst (pop_front s) = (case rest s of [] \<Rightarrow> None | x # _ \<Rightarrow> Some x)"
  using pop_front_None pop_front_Some by (fastforce split: list.splits)

lemma pop_back_last: "inv s \<Longrightarrow> fst (pop_back s) = (if rest s = [] then None else Some (last (rest s)))"
  using pop_back_None pop_back_Some [of s "butlast (rest s)" "last (rest s)"]
  by (auto simp: append_butlast_last_id)

end

definition components_inv :: "Components \<Rightarrow> bool" where
  "components_inv it \<longleftrightarrow> rear it \<le> length (path it)"

definition components_rest :: "Components \<Rightarrow> string list" where
  "components_rest it = parts (sub_list (path it) (front it) (rear it))"

lemma sub_list_tail: "f + k \<le> b \<Longrightarrow> sub_list s (f + k) b = drop k (sub_list s f b)"
  by (simp add: sub_list_def drop_take add.commute)

lemma sub_list_head: "k \<le> b - f \<Longrightarrow> sub_list s f (f + k) = take k (sub_list s f b)"
  by (simp add: sub_list_def min_def)

lemma components_next_spec:
  assumes "components_inv it"
  shows "case components_rest it of
      [] \<Rightarrow> fst (components_next it) = None
    | x # xs \<Rightarrow> \<exists>it'. components_next it = (Some x, it') \<and> components_inv it' \<and> components_rest it' = xs"
  using assms
proof (induction it rule: components_next.induct)
  case (1 it)
  let ?r = "sub_list (path it) (front it) (rear it)"
  show ?case
  proof (cases "front it < rear it")
    case False
    then show ?thesis by (simp add: components_next.simps components_rest_def sub_list_def)
  next
    case True
    show ?thesis
    proof (cases "find_char CHR ''/'' ?r")
      case None
      then have "?r \<noteq> []" using True "1.prems" by (auto simp: components_inv_def sub_list_def)
      then have "components_next it = (Some ?r, it\<lparr> front := rear it \<rparr>)"
        using None True by (subst components_next.simps) (simp add: Let_def)
      moreover have "components_rest it = [?r]" "components_rest (it\<lparr> front := rear it \<rparr>) = []"
        using None \<open>?r \<noteq> []\<close> by (simp_all add: components_rest_def find_char_None parts_none sub_list_def)
      ultimately show ?thesis using "1.prems" True by (simp add: components_inv_def)
    next
      case (Some pos)
      let ?it = "it\<lparr> front := front it + pos + 1 \<rparr>"
      have r: "?r = take pos ?r @ CHR ''/'' # drop (Suc pos) ?r" "CHR ''/'' \<notin> set (take pos ?r)"
        using find_char_Some [OF Some] by simp_all
      have "pos < rear it - front it"
        using find_char_less [OF Some] "1.prems" by (simp add: components_inv_def sub_list_def)
      then have rest: "components_rest ?it = parts (drop (Suc pos) ?r)"
        using sub_list_tail [of "front it" "Suc pos" "rear it" "path it"] by (simp add: components_rest_def)
      have inv: "components_inv ?it" using "1.prems" by (simp add: components_inv_def)
      have "parts ?r = parts (take pos ?r) @ parts (drop (Suc pos) ?r)"
        using parts_append r(1) by metis
      then have split: "components_rest it = (if take pos ?r = [] then [] else [take pos ?r]) @ components_rest ?it"
        by (simp only: components_rest_def [of it] rest parts_none [OF r(2)])
      show ?thesis
      proof (cases "take pos ?r = []")
        case empty: True
        then have next_eq: "components_next it = components_next ?it"
          using True Some by (subst components_next.simps) (simp add: Let_def)
        have rest_eq: "components_rest it = components_rest ?it" using split empty by simp
        show ?thesis
          unfolding next_eq rest_eq using "1.IH" [OF True refl Some refl refl] empty inv by blast
      next
        case False
        then have "components_next it = (Some (take pos ?r), ?it)"
          using True Some by (subst components_next.simps) (simp add: Let_def)
        then show ?thesis using False inv split by simp
      qed
    qed
  qed
qed

lemma components_next_back_spec:
  assumes "components_inv it"
  shows "if components_rest it = [] then fst (components_next_back it) = None
    else \<exists>it'. components_next_back it = (Some (last (components_rest it)), it') \<and> components_inv it' \<and>
      components_rest it' = butlast (components_rest it)"
  using assms
proof (induction it rule: components_next_back.induct)
  case (1 it)
  let ?r = "sub_list (path it) (front it) (rear it)"
  show ?case
  proof (cases "front it < rear it")
    case False
    then show ?thesis by (simp add: components_next_back.simps components_rest_def sub_list_def)
  next
    case True
    show ?thesis
    proof (cases "rfind_char CHR ''/'' ?r")
      case None
      then have "?r \<noteq> []" using True "1.prems" by (auto simp: components_inv_def sub_list_def)
      then have "components_next_back it = (Some ?r, it\<lparr> rear := front it \<rparr>)"
        using None True by (subst components_next_back.simps) (simp add: Let_def)
      moreover have "components_rest it = [?r]" "components_rest (it\<lparr> rear := front it \<rparr>) = []"
        using None \<open>?r \<noteq> []\<close> by (simp_all add: components_rest_def rfind_char_None parts_none sub_list_def)
      ultimately show ?thesis using "1.prems" True by (simp add: components_inv_def)
    next
      case (Some pos)
      let ?it = "it\<lparr> rear := front it + pos \<rparr>"
      have r: "?r = take pos ?r @ CHR ''/'' # drop (Suc pos) ?r" "CHR ''/'' \<notin> set (drop (Suc pos) ?r)"
        using rfind_char_Some [OF Some] by simp_all
      have pos: "pos < rear it - front it"
        using rfind_char_less [OF Some] "1.prems" by (simp add: components_inv_def sub_list_def)
      then have rest: "components_rest ?it = parts (take pos ?r)"
        using sub_list_head [of pos "rear it" "front it" "path it"] by (simp add: components_rest_def)
      have inv: "components_inv ?it" using "1.prems" pos by (simp add: components_inv_def)
      have "parts ?r = parts (take pos ?r) @ parts (drop (Suc pos) ?r)"
        using parts_append r(1) by metis
      then have split: "components_rest it = components_rest ?it @
          (if drop (Suc pos) ?r = [] then [] else [drop (Suc pos) ?r])"
        by (simp only: components_rest_def [of it] rest parts_none [OF r(2)])
      show ?thesis
      proof (cases "drop (Suc pos) ?r = []")
        case empty: True
        then have next_eq: "components_next_back it = components_next_back ?it"
          using True Some by (subst components_next_back.simps) (simp add: Let_def)
        have rest_eq: "components_rest it = components_rest ?it" using split empty by simp
        show ?thesis
          unfolding next_eq rest_eq using "1.IH" [OF True refl Some refl refl] empty inv by simp
      next
        case False
        then have "components_next_back it = (Some (drop (Suc pos) ?r), ?it)"
          using True Some by (subst components_next_back.simps) (simp add: Let_def)
        then show ?thesis using False inv split by simp
      qed
    qed
  qed
qed

interpretation comps: double_ended components_inv components_rest components_next components_next_back
proof (standard, goal_cases)
  case (1 s)
  then show ?case using components_next_spec [of s] by simp
next
  case (2 s x xs)
  then show ?case using components_next_spec [of s] by simp
next
  case (3 s)
  then show ?case using components_next_back_spec [of s] by simp
next
  case (4 s xs x)
  then show ?case using components_next_back_spec [of s] by simp
qed

lemma components_list_rest: "components_inv it \<Longrightarrow> components_list it = components_rest it"
proof (induction it rule: components_list.induct)
  case (1 it)
  show ?case
  proof (cases "components_rest it")
    case Nil
    with comps.pop_front_None [OF "1.prems"] obtain it' where "components_next it = (None, it')"
      by (metis prod.collapse)
    with Nil show ?thesis by (subst components_list.simps) simp
  next
    case (Cons x xs)
    with comps.pop_front_Some [OF "1.prems"] obtain it'
      where n: "components_next it = (Some x, it')" "components_inv it'" "components_rest it' = xs" by blast
    from "1.IH" [OF n(1) [symmetric] refl n(2)] n Cons show ?thesis
      by (subst components_list.simps) simp
  qed
qed

lemma components_inv_components [simp]: "components_inv (components p)"
  by (simp add: components_inv_def components_def)

lemma components_rest_components [simp]: "components_rest (components p) = path_parts p"
  by (simp add: components_rest_def components_def path_parts_def sub_list_def)

lemma components_list_parts: "components_list (components p) = path_parts p"
  by (simp add: components_list_rest)

lemma file_name_last: "file_name p = (if path_parts p = [] then None else Some (last (path_parts p)))"
  by (simp add: file_name_def comps.pop_back_last)

section \<open>Parent and join\<close>

definition is_absolute_raw :: "Path \<Rightarrow> bool" where
  "is_absolute_raw p = starts_with CHR ''/'' (raw p)"

lemma absolute_cases:
  assumes "is_absolute_raw p"
  obtains s where "raw p = CHR ''/'' # s" "path_parts p = parts s"
  using assms by (cases "raw p") (auto simp: is_absolute_raw_def starts_with_def path_parts_def)

lemma path_parts_raw: "is_absolute_raw p \<Longrightarrow> path_parts p = parts (raw p)"
  by (erule absolute_cases) simp

lemma trim_end_append:
  obtains n where "s = trim_end_matches c s @ replicate n c" "\<not> ends_with c (trim_end_matches c s)"
proof
  let ?t = "takeWhile (\<lambda>x. x = c) (rev s)"
  have "?t = replicate (length ?t) c"
    by (rule replicate_eqI) (auto dest: set_takeWhileD)
  then have "rev ?t = replicate (length ?t) c" by (metis rev_replicate)
  moreover have "s = trim_end_matches c s @ rev ?t"
    unfolding trim_end_matches_def by (metis rev_append rev_rev_ident takeWhile_dropWhile_id)
  ultimately show "s = trim_end_matches c s @ replicate (length ?t) c" by metis
  show "\<not> ends_with c (trim_end_matches c s)"
    using hd_dropWhile [of "\<lambda>x. x = c" "rev s"]
    unfolding ends_with_def trim_end_matches_def by (metis last_rev rev_is_Nil_conv)
qed

lemma parts_replicate [simp]: "parts (s @ replicate n CHR ''/'') = parts s"
proof (induction n)
  case (Suc n)
  have "s @ replicate (Suc n) CHR ''/'' = (s @ replicate n CHR ''/'') @ CHR ''/'' # []"
    by (simp add: replicate_append_same)
  then show ?case using Suc by (simp only: parts_append) simp
qed simp

lemma parent_spec:
  assumes abs: "is_absolute_raw p" and "raw p \<noteq> ''/''"
  shows "\<exists>q. parent p = Some q \<and> is_absolute_raw q \<and> path_parts q = butlast (path_parts p)"
proof -
  let ?t = "trim_end_matches CHR ''/'' (raw p)"
  obtain n where t: "raw p = ?t @ replicate n CHR ''/''" "\<not> ends_with CHR ''/'' ?t"
    by (rule trim_end_append)
  then have pp: "path_parts p = parts ?t" using path_parts_raw [OF abs] parts_replicate by metis
  show ?thesis
  proof (cases "rfind_char CHR ''/'' ?t")
    case None
    then have "CHR ''/'' \<notin> set ?t" by (simp add: rfind_char_None)
    moreover have "?t \<noteq> [] \<Longrightarrow> CHR ''/'' \<in> set ?t"
      using abs t(1) by (cases ?t) (auto simp: is_absolute_raw_def starts_with_def split: list.splits)
    ultimately have "?t = []" by blast
    with None pp show ?thesis using assms(2)
      by (simp add: parent_def is_absolute_raw_def starts_with_def path_parts_def)
  next
    case (Some pos)
    note r = rfind_char_Some [OF Some]
    have "drop (Suc pos) ?t \<noteq> []"
      using r t(2) by (metis ends_with_def last_snoc snoc_eq_iff_butlast)
    then have last: "parts (drop (Suc pos) ?t) = [drop (Suc pos) ?t]" using r by (simp add: parts_none)
    have "parts ?t = parts (take pos ?t) @ [drop (Suc pos) ?t]"
      using parts_append r last by metis
    then have but: "butlast (path_parts p) = parts (take pos ?t)" using pp by simp
    have take: "take pos (raw p) = take pos ?t"
      using rfind_char_less [OF Some] t(1) by (metis (no_types) less_imp_le_nat take_append take_0 append_Nil2 diff_is_0_eq')
    show ?thesis
    proof (cases "pos = 0")
      case True
      with Some but assms(2) show ?thesis
        by (simp add: parent_def is_absolute_raw_def starts_with_def path_parts_def)
    next
      case False
      then have "is_absolute_raw \<lparr> raw = take pos (raw p) \<rparr>"
        using abs by (cases "raw p"; cases pos) (auto simp: is_absolute_raw_def starts_with_def)
      with False Some but assms(2) show ?thesis
        by (simp add: parent_def take path_parts_raw)
    qed
  qed
qed

lemma join_parts:
  assumes "is_absolute_raw p"
  shows "path_parts (join p other) = (if starts_with CHR ''/'' other then parts other else path_parts p @ parts other)"
    and "is_absolute_raw (join p other)"
proof -
  obtain s where s: "raw p = CHR ''/'' # s" "path_parts p = parts s"
    using assms by (rule absolute_cases)
  show "is_absolute_raw (join p other)"
    using s by (cases other) (auto simp: join_def is_absolute_raw_def starts_with_def Let_def)
  show "path_parts (join p other) = (if starts_with CHR ''/'' other then parts other else path_parts p @ parts other)"
  proof (cases "starts_with CHR ''/'' other")
    case True
    then show ?thesis by (cases other) (auto simp: join_def path_parts_def starts_with_def)
  next
    case False
    show ?thesis
    proof (cases "ends_with CHR ''/'' (raw p)")
      case True
      then obtain a where a: "raw p = a @ [CHR ''/'']"
        by (metis append_butlast_last_id ends_with_def)
      then have "parts (raw p @ other) = parts (raw p) @ parts other"
        using parts_append [of a other] parts_append [of a "[]"] by simp
      with True False s show ?thesis by (simp add: join_def path_parts_def)
    next
      case slash: False
      with False s show ?thesis by (simp add: join_def path_parts_def parts_append)
    qed
  qed
qed

section \<open>Normalisation\<close>

text \<open>The components left after \<open>.\<close> is dropped and \<open>..\<close> removes its predecessor.\<close>

fun resolve :: "string list \<Rightarrow> string list \<Rightarrow> string list" where
  "resolve acc [] = acc"
| "resolve acc (c # cs) =
    (if c = ''.'' then resolve acc cs
     else if c = ''..'' then resolve (butlast acc) cs
     else resolve (acc @ [c]) cs)"

lemma foldl_normalize_step: "foldl normalize_step acc cs = resolve acc cs"
  by (induction cs arbitrary: acc) (auto simp: normalize_step_def)

lemma resolve_set: "set (resolve acc cs) \<subseteq> set acc \<union> (set cs - {''.'', ''..''})"
proof (induction cs arbitrary: acc)
  case (Cons c cs)
  have "set (butlast acc) \<subseteq> set acc" by (auto dest: in_set_butlastD)
  then show ?case using Cons [of acc] Cons [of "butlast acc"] Cons [of "acc @ [c]"] by auto
qed simp

lemma resolve_plain: "set cs \<inter> {''.'', ''..''} = {} \<Longrightarrow> resolve acc cs = acc @ cs"
  by (induction cs arbitrary: acc) auto

lemma parts_push_components:
  assumes "\<And>c. c \<in> set cs \<Longrightarrow> c \<noteq> [] \<and> CHR ''/'' \<notin> set c" "0 < i"
  shows "parts (push_components i cs s) = parts s @ cs"
  using assms
proof (induction cs arbitrary: i s)
  case (Cons c cs)
  have c: "c \<noteq> []" "CHR ''/'' \<notin> set c" using Cons.prems(1) by auto
  have "parts (push_component i c s) = parts s @ [c]"
    using Cons.prems(2) c by (simp add: push_component_def parts_append parts_none)
  moreover have "parts (push_components (Suc i) cs (push_component i c s)) =
      parts (push_component i c s) @ cs"
    using Cons.prems by (intro Cons.IH) auto
  ultimately show ?case by simp
qed simp

lemma push_components_slash: "\<exists>s. push_components i cs (CHR ''/'' # r) = CHR ''/'' # s"
  by (induction cs arbitrary: i r) (auto simp: push_component_def)

lemma normalize_parts: "path_parts (normalize p) = resolve [] (path_parts p)"
  and normalize_absolute: "is_absolute_raw (normalize p)"
proof -
  let ?cs = "resolve [] (path_parts p)"
  have n: "normalize p = \<lparr> raw = push_components 0 ?cs ''/'' \<rparr>"
    by (simp add: normalize_def components_list_parts foldl_normalize_step)
  show abs: "is_absolute_raw (normalize p)"
    using push_components_slash [of 0 ?cs "[]"] by (auto simp: n is_absolute_raw_def starts_with_def)
  have pieces: "c \<noteq> [] \<and> CHR ''/'' \<notin> set c" if "c \<in> set ?cs" for c
    using that resolve_set [of "[]" "path_parts p"] parts_piece [of c "drop 1 (raw p)"]
    by (auto simp: path_parts_def)
  have "parts (push_components 0 ?cs ''/'') = ?cs"
  proof (cases ?cs)
    case (Cons c cs)
    have "push_components 0 (c # cs) ''/'' = push_components 1 cs (CHR ''/'' # c)"
      by (simp add: push_component_def)
    then show ?thesis
      using parts_push_components [of cs 1 "CHR ''/'' # c"] pieces Cons by (simp add: parts_none)
  qed simp
  then show "path_parts (normalize p) = ?cs"
    using path_parts_raw [OF abs] by (simp add: n)
qed

lemma normalize_raw: "raw (normalize p) = push_components 0 (path_parts (normalize p)) ''/''"
  unfolding normalize_parts by (simp add: normalize_def components_list_parts foldl_normalize_step)

lemma normalize_clean: "set (path_parts (normalize p)) \<inter> {''.'', ''..''} = {}"
  using resolve_set [of "[]" "path_parts p"] by (auto simp: normalize_parts)

lemma normalize_idem: "normalize (normalize p) = normalize p"
proof -
  have "path_parts (normalize (normalize p)) = path_parts (normalize p)"
    using resolve_plain [OF normalize_clean, of "[]" p] by (simp add: normalize_parts [of "normalize p"])
  then show ?thesis using normalize_raw [of p] normalize_raw [of "normalize p"] by simp
qed

section \<open>Properties\<close>

text \<open>C27. The component iterator is a deque of the non-empty pieces between slashes: taking from the
  front or from the rear, in any interleaving, yields the first or the last piece not yet taken, and
  only an exhausted iterator answers \<open>None\<close>.\<close>

theorem components_double_ended:
  assumes "rear it \<le> length (path it)"
  shows "(case components_rest it of
       [] \<Rightarrow> fst (components_next it) = None \<and> fst (components_next_back it) = None
     | x # xs \<Rightarrow>
         (\<exists>f. components_next it = (Some x, f) \<and> rear f \<le> length (path f) \<and> components_rest f = xs) \<and>
         (\<exists>b. components_next_back it = (Some (last (x # xs)), b) \<and> rear b \<le> length (path b) \<and>
            components_rest b = butlast (x # xs)))"
  using assms comps.pop_front_None [of it] comps.pop_front_Some [of it]
    comps.pop_back_None [of it] comps.pop_back_Some [of it "butlast (components_rest it)" "last (components_rest it)"]
  unfolding components_inv_def by (cases "components_rest it") auto

theorem components_double_ended_witness:
  "\<exists>f. components_next \<lparr> path = ''/usr//bin'', front = 1, rear = 9 \<rparr> = (Some ''usr'', f) \<and>
     components_rest f = [''bin'']"
proof -
  have "components_rest \<lparr> path = ''/usr//bin'', front = 1, rear = 9 \<rparr> = [''usr'', ''bin'']"
    by (simp add: components_rest_def sub_list_def parts_def)
  then show ?thesis
    using components_double_ended [of "\<lparr> path = ''/usr//bin'', front = 1, rear = 9 \<rparr>"] by auto
qed

text \<open>Every absolute path other than the bare root splits into its parent and its file name: the
  parent is absolute and has all components but the last, and joining the two names the same components.\<close>

theorem parent_file_name_join:
  assumes "starts_with CHR ''/'' (raw p)" "components_list (components p) \<noteq> []"
  shows "\<exists>q n. parent p = Some q \<and> file_name p = Some n \<and> starts_with CHR ''/'' (raw q) \<and>
    components_list (components q) = butlast (components_list (components p)) \<and>
    components_list (components (join q n)) = components_list (components p)"
proof -
  have pp: "path_parts p \<noteq> []" using assms(2) by (simp add: components_list_parts)
  have "raw p \<noteq> ''/''"
  proof
    assume "raw p = ''/''"
    then have "path_parts p = []" by (simp add: path_parts_def)
    with pp show False by simp
  qed
  then obtain q where q: "parent p = Some q" "is_absolute_raw q" "path_parts q = butlast (path_parts p)"
    using parent_spec assms(1) by (auto simp: is_absolute_raw_def)
  let ?n = "last (path_parts p)"
  have n: "?n \<noteq> []" "CHR ''/'' \<notin> set ?n"
    using parts_piece [of ?n "drop 1 (raw p)"] pp by (auto simp: path_parts_def)
  then have "path_parts (join q ?n) = path_parts q @ [?n]"
    using join_parts(1) [OF q(2), of ?n]
    by (auto simp: parts_none starts_with_def split: list.splits)
  with q pp show ?thesis
    by (auto simp: components_list_parts file_name_last is_absolute_raw_def)
qed

theorem parent_file_name_join_witness:
  "\<exists>q n. parent \<lparr> raw = ''/etc//passwd/'' \<rparr> = Some q \<and> file_name \<lparr> raw = ''/etc//passwd/'' \<rparr> = Some n \<and>
    components_list (components (join q n)) = components_list (components \<lparr> raw = ''/etc//passwd/'' \<rparr>)"
proof -
  have "starts_with CHR ''/'' (raw \<lparr> raw = ''/etc//passwd/'' \<rparr>)" by (simp add: starts_with_def)
  moreover have "components_list (components \<lparr> raw = ''/etc//passwd/'' \<rparr>) \<noteq> []"
    by (simp add: components_list_parts path_parts_def parts_def)
  ultimately show ?thesis using parent_file_name_join by blast
qed

text \<open>C28. Normalising resolves \<open>.\<close> and \<open>..\<close>: the result is absolute, its components are those of
  the original with \<open>.\<close> dropped and \<open>..\<close> removing its predecessor (at the root, nothing), none of them
  is \<open>.\<close> or \<open>..\<close>, and normalising again changes nothing.\<close>

theorem normalize_resolves:
  "starts_with CHR ''/'' (raw (normalize p)) \<and>
   components_list (components (normalize p)) = resolve [] (components_list (components p)) \<and>
   ''.'' \<notin> set (components_list (components (normalize p))) \<and>
   ''..'' \<notin> set (components_list (components (normalize p))) \<and>
   normalize (normalize p) = normalize p"
  using normalize_clean [of p] normalize_absolute [of p]
  by (auto simp: components_list_parts normalize_parts normalize_idem is_absolute_raw_def)

end
