(* ===== verification/RtcTime.thy ===== *)
theory RtcTime
  imports Prelude
begin

text \<open>
  The real-time clock (\<^verbatim>\<open>src/kernel/src/time\<close>): decoding the CMOS registers,
  the conversions between calendar dates and Unix timestamps in both
  directions, the weekday, and the timestamp the file system stamps inodes
  with (\<^verbatim>\<open>formats.rs\<close>).  The clock chip is a parameter: a function from the
  number of port reads done so far to the register contents.  Signed
  quantities are integers; a 16-bit year keeps all of them inside the range
  of the source's types.
\<close>

section \<open>The register file\<close>

record RtcDateTime =
  second :: u8
  minute :: u8
  hour :: u8
  day :: u8
  month :: u8
  year :: u16
  weekday :: u8

type_synonym cmos = "nat \<Rightarrow> u8 \<Rightarrow> u8"

definition read_register :: "cmos \<Rightarrow> u8 \<Rightarrow> nat \<Rightarrow> u8 \<times> nat" where
  "read_register dev reg t = (dev t reg, Suc t)"

definition is_update_in_progress :: "cmos \<Rightarrow> nat \<Rightarrow> bool \<times> nat" where
  "is_update_in_progress dev t =
    (case read_register dev 0x0A t of (v, t) \<Rightarrow> (v AND 0x80 \<noteq> 0, t))"

definition bcd_to_binary :: "u8 \<Rightarrow> u8" where
  "bcd_to_binary bcd = (drop_bit 4 bcd * 10) + (bcd AND 0x0F)"

text \<open>The wait for the update to finish spins for as long as the chip says so.\<close>

partial_function (option) wait_update :: "cmos \<Rightarrow> nat \<Rightarrow> nat option" where
  "wait_update dev t =
    (case is_update_in_progress dev t of (uip, t') \<Rightarrow> if uip then wait_update dev t' else Some t')"

definition decode_hour :: "bool \<Rightarrow> bool \<Rightarrow> u8 \<Rightarrow> u8" where
  "decode_hour is_binary is_24hour hr =
    (let hr = (if is_binary then hr else bcd_to_binary (hr AND 0x7F)) in
     if \<not> is_24hour then
       let pm = (hr AND 0x80 \<noteq> 0); hr = hr AND 0x7F in
       if pm \<and> hr \<noteq> 12 then hr + 12
       else if \<not> pm \<and> hr = 12 then 0
       else hr
     else hr)"

definition full_year :: "u8 \<Rightarrow> u8 \<Rightarrow> u16" where
  "full_year century yr =
    (if 0 < century \<and> century < 99 then ucast century * 100 + ucast yr
     else if yr < 80 then 2000 + ucast yr
     else 1900 + ucast yr)"

definition read_datetime :: "cmos \<Rightarrow> nat \<Rightarrow> (RtcDateTime option \<times> nat) option" where
  "read_datetime dev t = (case wait_update dev t of None \<Rightarrow> None | Some t \<Rightarrow>
     (case read_register dev 0x00 t of (sec, t) \<Rightarrow>
      case read_register dev 0x02 t of (mnt, t) \<Rightarrow>
      case read_register dev 0x04 t of (hr, t) \<Rightarrow>
      case read_register dev 0x07 t of (dy, t) \<Rightarrow>
      case read_register dev 0x08 t of (mo, t) \<Rightarrow>
      case read_register dev 0x09 t of (yr, t) \<Rightarrow>
      case read_register dev 0x06 t of (wd, t) \<Rightarrow>
      case read_register dev 0x32 t of (century, t) \<Rightarrow>
      case is_update_in_progress dev t of (uip, t) \<Rightarrow>
      if uip then Some (None, t)
      else case read_register dev 0x0B t of (status_b, t) \<Rightarrow>
        let is_binary = (status_b AND 0x04 \<noteq> 0);
            is_24hour = (status_b AND 0x02 \<noteq> 0);
            conv = (\<lambda>v. if is_binary then v else bcd_to_binary v)
        in Some (Some \<lparr> second = conv sec, minute = conv mnt,
             hour = decode_hour is_binary is_24hour hr,
             day = conv dy, month = conv mo,
             year = full_year (conv century) (conv yr), weekday = wd \<rparr>, t)))"

fun read_attempts :: "nat \<Rightarrow> cmos \<Rightarrow> nat \<Rightarrow> (unit, RtcDateTime) res option" where
  "read_attempts 0 dev t = Some Panic"
| "read_attempts (Suc n) dev t = (case read_datetime dev t of
      None \<Rightarrow> None
    | Some (Some dt, t') \<Rightarrow> Some (Ok dt)
    | Some (None, t') \<Rightarrow> read_attempts n dev t')"

definition read_datetime_reliable :: "cmos \<Rightarrow> nat \<Rightarrow> (unit, RtcDateTime) res option" where
  "read_datetime_reliable dev t = read_attempts 5 dev t"

section \<open>Calendar arithmetic\<close>

definition is_leap_year :: "u16 \<Rightarrow> bool" where
  "is_leap_year y \<longleftrightarrow> (y mod 4 = 0 \<and> y mod 100 \<noteq> 0) \<or> y mod 400 = 0"

text \<open>The source has this table twice, in both directions of the conversion.\<close>

definition DAYS_IN_MONTH :: "int list" where
  "DAYS_IN_MONTH = [31, 28, 31, 30, 31, 30, 31, 31, 30, 31, 30, 31]"

fun add_years :: "nat list \<Rightarrow> int \<Rightarrow> int" where
  "add_years [] days = days"
| "add_years (y # ys) days = add_years ys (days + (if is_leap_year (word_of_nat y) then 366 else 365))"

fun add_months :: "nat list \<Rightarrow> u16 \<Rightarrow> int \<Rightarrow> (unit, int) res" where
  "add_months [] yr days = Ok days"
| "add_months (m # ms) yr days =
    (if m - 1 < length DAYS_IN_MONTH then
       let days = days + DAYS_IN_MONTH ! (m - 1);
           days = (if m = 2 \<and> is_leap_year yr then days + 1 else days)
       in add_months ms yr days
     else Panic)"

definition datetime_to_unix_timestamp :: "RtcDateTime \<Rightarrow> (unit, int) res" where
  "datetime_to_unix_timestamp dt =
    bind_res (add_months [1..<unat (month dt)] (year dt) (add_years [1970..<unat (year dt)] 0)) (\<lambda>days.
    let days = days + (uint (day dt) - 1) in
    Ok (days * 86400 + uint (hour dt) * 3600 + uint (minute dt) * 60 + uint (second dt)))"

definition calculate_weekday :: "u16 \<Rightarrow> u8 \<Rightarrow> u8 \<Rightarrow> u8" where
  "calculate_weekday yr mo dy =
    (let y = uint yr; m = uint mo;
         (m, y) = (if m < 3 then (m + 12, y - 1) else (m, y));
         k = rmd y 100;
         j = quot y 100;
         h = rmd (uint dy + quot (13 * (m + 1)) 5 + k + quot k 4 + quot j 4 - 2 * j) 7
     in word_of_int (rmd (h + 6) 7))"

function year_loop :: "int \<Rightarrow> u16 \<Rightarrow> int \<times> u16" where
  "year_loop days y =
    (let days_in_year = (if is_leap_year y then 366 else 365) in
     if days < days_in_year then (days, y)
     else year_loop (days - days_in_year) (y + 1))"
  by pat_completeness auto
termination
  by (relation "measure (\<lambda>(d, y). nat d)") (auto split: if_splits)

declare year_loop.simps [simp del]

fun month_loop :: "nat list \<Rightarrow> u16 \<Rightarrow> int \<Rightarrow> u8 \<Rightarrow> int \<times> u8" where
  "month_loop [] y days mo = (days, mo)"
| "month_loop (m # ms) y days mo =
    (let days_in_month = DAYS_IN_MONTH ! m;
         days_in_month = (if m = 1 \<and> is_leap_year y then days_in_month + 1 else days_in_month)
     in if days < days_in_month then (days, mo)
        else month_loop ms y (days - days_in_month) (mo + 1))"

definition unix_timestamp_to_datetime :: "int \<Rightarrow> RtcDateTime" where
  "unix_timestamp_to_datetime timestamp =
    (let days = quot timestamp 86400;
         remaining = rmd timestamp 86400;
         hr = word_of_int (quot remaining 3600);
         remaining = rmd remaining 3600;
         mnt = word_of_int (quot remaining 60);
         sec = word_of_int (rmd remaining 60);
         (days, yr) = year_loop days 1970;
         (days, mo) = month_loop [0..<12] yr days 1;
         dy = word_of_int (days + 1)
     in \<lparr> second = sec, minute = mnt, hour = hr, day = dy, month = mo, year = yr,
          weekday = calculate_weekday yr mo dy \<rparr>)"

definition rtc_to_posix :: "RtcDateTime \<Rightarrow> u32" where
  "rtc_to_posix rtc =
    (let y = uint (year rtc); m = uint (month rtc);
         (y, m) = (if m \<le> 2 then (y - 1, m + 12) else (y, m));
         days = 365 * y + quot y 4 - quot y 100 + quot y 400 + quot (153 * m - 457) 5
                + uint (day rtc) - 719528
     in word_of_int days * 86400 + ucast (hour rtc) * 3600 + ucast (minute rtc) * 60
        + ucast (second rtc))"

section \<open>The calendar\<close>

definition leap :: "nat \<Rightarrow> bool" where
  "leap y \<longleftrightarrow> (4 dvd y \<and> \<not> 100 dvd y) \<or> 400 dvd y"

definition year_length :: "nat \<Rightarrow> int" where
  "year_length y = (if leap y then 366 else 365)"

definition month_length :: "bool \<Rightarrow> nat \<Rightarrow> int" where
  "month_length l m = DAYS_IN_MONTH ! m + (if m = 1 \<and> l then 1 else 0)"

text \<open>Days from 1970-01-01 to the first of the year, and from there to the first of month \<open>m + 1\<close>.\<close>

definition days_to_year :: "nat \<Rightarrow> int" where
  "days_to_year y = sum_list (map year_length [1970..<y])"

definition days_to_month :: "bool \<Rightarrow> nat \<Rightarrow> int" where
  "days_to_month l m = sum_list (map (month_length l) [0..<m])"

definition valid_datetime :: "RtcDateTime \<Rightarrow> bool" where
  "valid_datetime dt \<longleftrightarrow> 1970 \<le> unat (year dt) \<and> 1 \<le> unat (month dt) \<and> unat (month dt) \<le> 12 \<and>
     1 \<le> uint (day dt) \<and> uint (day dt) \<le> month_length (is_leap_year (year dt)) (unat (month dt) - 1) \<and>
     uint (hour dt) < 24 \<and> uint (minute dt) < 60 \<and> uint (second dt) < 60"

definition day_number :: "RtcDateTime \<Rightarrow> int" where
  "day_number dt = days_to_year (unat (year dt)) +
     days_to_month (is_leap_year (year dt)) (unat (month dt) - 1) + (uint (day dt) - 1)"

lemma is_leap_year_unat: "is_leap_year y = leap (unat y)"
  by (simp add: is_leap_year_def leap_def word_unat_eq_iff unat_mod dvd_eq_mod_eq_0)

lemma is_leap_year_of_nat: "y < 65536 \<Longrightarrow> is_leap_year (word_of_nat y) = leap y"
  by (simp add: is_leap_year_unat unat_of_nat)

lemma add_years_sum: "\<forall>y \<in> set ys. y < 65536 \<Longrightarrow> add_years ys d = d + sum_list (map year_length ys)"
  by (induction ys arbitrary: d) (simp_all add: is_leap_year_of_nat year_length_def)

lemma add_months_append: "add_months (xs @ ys) yr d = bind_res (add_months xs yr d) (add_months ys yr)"
  by (induction xs arbitrary: d) (simp_all add: Let_def)

lemma add_months_sum: "m \<le> 12 \<Longrightarrow> add_months [1..<Suc m] yr d = Ok (d + days_to_month (is_leap_year yr) m)"
proof (induction m)
  case (Suc m)
  then have "m < length DAYS_IN_MONTH" by (simp add: DAYS_IN_MONTH_def)
  with Suc show ?case
    by (simp add: add_months_append days_to_month_def month_length_def Let_def)
qed (simp add: days_to_month_def)

lemma datetime_to_unix_ok:
  assumes "valid_datetime dt"
  shows "datetime_to_unix_timestamp dt =
    Ok (day_number dt * 86400 + uint (hour dt) * 3600 + uint (minute dt) * 60 + uint (second dt))"
proof -
  obtain m where m: "unat (month dt) = Suc m" "m \<le> 12"
    using assms by (cases "unat (month dt)") (auto simp: valid_datetime_def)
  have "unat (year dt) < 65536" using unsigned_less [of "year dt", where ?'a = nat] by simp
  then have "add_years [1970..<unat (year dt)] 0 = days_to_year (unat (year dt))"
    by (subst add_years_sum) (auto simp: days_to_year_def)
  then show ?thesis
    using add_months_sum [OF m(2)] m
    by (simp add: datetime_to_unix_timestamp_def day_number_def algebra_simps)
qed

section \<open>Counting back\<close>

lemma days_to_year_Suc: "1970 \<le> y \<Longrightarrow> days_to_year (Suc y) = days_to_year y + year_length y"
  by (simp add: days_to_year_def)

lemma days_to_year_mono: "y \<le> z \<Longrightarrow> 1970 \<le> y \<Longrightarrow> days_to_year y \<le> days_to_year z"
proof (induction rule: dec_induct)
  case (step z)
  then show ?case by (simp add: days_to_year_Suc year_length_def)
qed simp

lemma year_loop_spec:
  assumes "1970 \<le> y" "y \<le> Y" "Y < 65536" "d < year_length Y" "0 \<le> d"
  shows "year_loop (days_to_year Y - days_to_year y + d) (word_of_nat y) = (d, word_of_nat Y)"
  using assms
proof (induction "Y - y" arbitrary: y)
  case 0
  then show ?case by (subst year_loop.simps) (simp add: is_leap_year_of_nat year_length_def)
next
  case (Suc n)
  then have y: "y < Y" by simp
  have step: "days_to_year (Suc y) = days_to_year y + year_length y"
    using Suc.prems by (simp add: days_to_year_Suc)
  have "days_to_year (Suc y) \<le> days_to_year Y" using Suc.prems y by (intro days_to_year_mono) auto
  then have "\<not> days_to_year Y - days_to_year y + d < year_length y" using step Suc.prems by linarith
  moreover have "year_loop (days_to_year Y - days_to_year (Suc y) + d) (word_of_nat (Suc y)) = (d, word_of_nat Y)"
    using Suc y by (intro Suc.hyps) auto
  ultimately show ?case
    using Suc.prems y step
    by (subst year_loop.simps) (simp add: is_leap_year_of_nat year_length_def Let_def algebra_simps)
qed

lemma days_to_month_Suc: "days_to_month l (Suc m) = days_to_month l m + month_length l m"
  by (simp add: days_to_month_def)

lemma month_length_pos: "m < 12 \<Longrightarrow> 0 < month_length l m"
proof -
  assume "m < 12"
  moreover have "list_all (\<lambda>n. 0 < n) DAYS_IN_MONTH" "length DAYS_IN_MONTH = 12"
    by (simp_all add: DAYS_IN_MONTH_def)
  ultimately have "0 < DAYS_IN_MONTH ! m" by (simp add: list_all_length)
  then show ?thesis by (auto simp: month_length_def)
qed

lemma days_to_month_mono: "m \<le> n \<Longrightarrow> n \<le> 12 \<Longrightarrow> days_to_month l m \<le> days_to_month l n"
proof (induction rule: dec_induct)
  case (step n)
  then show ?case using month_length_pos [of n l] by (simp add: days_to_month_Suc)
qed simp

lemma month_loop_Cons: "month_loop (m # ms) y days mo =
    (if days < month_length (is_leap_year y) m then (days, mo)
     else month_loop ms y (days - month_length (is_leap_year y) m) (mo + 1))"
  by (simp add: month_length_def Let_def)

declare month_loop.simps(2) [simp del]

lemma month_loop_spec:
  assumes "m \<le> M" "M < 12" "d < month_length (is_leap_year y) M" "0 \<le> d"
  shows "month_loop [m..<12] y (days_to_month (is_leap_year y) M - days_to_month (is_leap_year y) m + d) (word_of_nat (Suc m)) =
    (d, word_of_nat (Suc M))"
  using assms
proof (induction "M - m" arbitrary: m)
  case 0
  then have "[m..<12] = m # [Suc m..<12]" by (simp add: upt_conv_Cons)
  with 0 show ?case by (simp add: month_loop_Cons)
next
  case (Suc n)
  let ?l = "is_leap_year y"
  have m: "m < M" using Suc.hyps by simp
  then have u: "[m..<12] = m # [Suc m..<12]" using Suc.prems by (simp add: upt_conv_Cons)
  have "days_to_month ?l (Suc m) \<le> days_to_month ?l M" using Suc.prems m by (intro days_to_month_mono) auto
  then have "\<not> days_to_month ?l M - days_to_month ?l m + d < month_length ?l m"
    using Suc.prems by (simp add: days_to_month_Suc)
  moreover have "month_loop [Suc m..<12] y (days_to_month ?l M - days_to_month ?l (Suc m) + d) (word_of_nat (Suc (Suc m))) =
      (d, word_of_nat (Suc M))"
    using Suc m by (intro Suc.hyps) auto
  ultimately show ?case
    unfolding u month_loop_Cons by (simp add: days_to_month_Suc algebra_simps)
qed

lemma month_loop_start:
  assumes "M < 12" "d < month_length (is_leap_year y) M" "0 \<le> d"
  shows "month_loop [0..<12] y (days_to_month (is_leap_year y) M + d) 1 = (d, word_of_nat (Suc M))"
  using month_loop_spec [of 0 M d y] assms by (simp add: days_to_month_def)

section \<open>Round trip\<close>

lemma time_of_day:
  fixes h m s :: int
  assumes "0 \<le> D" "0 \<le> h" "h < 24" "0 \<le> m" "m < 60" "0 \<le> s" "s < 60"
  defines "t \<equiv> D * 86400 + h * 3600 + m * 60 + s"
  shows "quot t 86400 = D" "quot (rmd t 86400) 3600 = h"
    "quot (rmd (rmd t 86400) 3600) 60 = m" "rmd (rmd (rmd t 86400) 3600) 60 = s"
proof -
  have t: "t = 86400 * D + (3600 * h + (60 * m + s))" by (simp add: t_def)
  note a = assms(1-7)
  have b: "0 \<le> 60 * m + s" "60 * m + s < 3600" "0 \<le> 3600 * h + (60 * m + s)" "3600 * h + (60 * m + s) < 86400"
    using a by linarith+
  have "0 \<le> t" using a b by (simp add: t)
  then have q: "quot t 86400 = D" and r: "rmd t 86400 = 3600 * h + (60 * m + s)"
    using b unfolding t by simp_all
  show "quot t 86400 = D" by (rule q)
  show "quot (rmd t 86400) 3600 = h" unfolding r using b a by simp
  have r2: "rmd (rmd t 86400) 3600 = 60 * m + s" unfolding r using b a by simp
  show "quot (rmd (rmd t 86400) 3600) 60 = m" "rmd (rmd (rmd t 86400) 3600) 60 = s"
    unfolding r2 using a by simp_all
qed

lemma upt_12: "[0..<12] = [0, 1, 2, 3, 4, 5, 6, 7, 8, 9, 10, 11 :: nat]"
  by code_simp

lemma month_sum_bound: "M < 12 \<Longrightarrow> d < month_length l M \<Longrightarrow> days_to_month l M + d < (if l then 366 else 365)"
proof -
  assume "M < 12" "d < month_length l M"
  then have "days_to_month l M + d < days_to_month l (Suc M)" by (simp add: days_to_month_Suc)
  also have "\<dots> \<le> days_to_month l 12" using \<open>M < 12\<close> by (intro days_to_month_mono) auto
  also have "\<dots> = (if l then 366 else 365)"
    by (simp add: days_to_month_def upt_12 month_length_def DAYS_IN_MONTH_def)
  finally show ?thesis .
qed

lemma days_to_month_nonneg: "M \<le> 12 \<Longrightarrow> 0 \<le> days_to_month l M"
  using days_to_month_mono [of 0 M l] by (simp add: days_to_month_def)

lemma calendar_of_days:
  assumes "1970 \<le> Y" "Y < 65536" "M < 12" "0 \<le> d" "d < month_length (leap Y) M"
  shows "year_loop (days_to_year Y + days_to_month (leap Y) M + d) 1970 =
      (days_to_month (leap Y) M + d, word_of_nat Y)"
    and "month_loop [0..<12] (word_of_nat Y) (days_to_month (leap Y) M + d) 1 = (d, word_of_nat (Suc M))"
proof -
  have "days_to_month (leap Y) M + d < year_length Y"
    using month_sum_bound [of M d "leap Y"] assms by (simp add: year_length_def)
  moreover have "0 \<le> days_to_month (leap Y) M + d" using days_to_month_nonneg [of M "leap Y"] assms by simp
  ultimately show "year_loop (days_to_year Y + days_to_month (leap Y) M + d) 1970 =
      (days_to_month (leap Y) M + d, word_of_nat Y)"
    using year_loop_spec [of 1970 Y "days_to_month (leap Y) M + d"] assms
    by (simp add: days_to_year_def add.assoc)
  show "month_loop [0..<12] (word_of_nat Y) (days_to_month (leap Y) M + d) 1 = (d, word_of_nat (Suc M))"
    using month_loop_start [of M d "word_of_nat Y"] assms by (simp add: is_leap_year_of_nat)
qed

lemma day_number_nonneg:
  assumes "valid_datetime dt"
  shows "0 \<le> day_number dt"
proof -
  have "0 \<le> days_to_year (unat (year dt))"
    using days_to_year_mono [of 1970 "unat (year dt)"] assms by (simp add: valid_datetime_def days_to_year_def)
  moreover have "0 \<le> days_to_month (is_leap_year (year dt)) (unat (month dt) - 1)"
    using assms by (intro days_to_month_nonneg) (auto simp: valid_datetime_def)
  ultimately show ?thesis using assms unfolding day_number_def valid_datetime_def by linarith
qed

lemma unix_of_datetime:
  assumes v: "valid_datetime dt"
  shows "unix_timestamp_to_datetime
      (day_number dt * 86400 + uint (hour dt) * 3600 + uint (minute dt) * 60 + uint (second dt)) =
    dt\<lparr> weekday := calculate_weekday (year dt) (month dt) (day dt) \<rparr>"
proof -
  let ?Y = "unat (year dt)" and ?d = "uint (day dt) - 1"
  obtain M where M: "unat (month dt) = Suc M" "M < 12"
    using v by (cases "unat (month dt)") (auto simp: valid_datetime_def)
  have "?Y < 65536" using unsigned_less [of "year dt", where ?'a = nat] by simp
  moreover have "1970 \<le> ?Y" "0 \<le> ?d" "?d < month_length (leap ?Y) M"
    using v M by (auto simp: valid_datetime_def is_leap_year_unat)
  moreover have "word_of_nat (Suc M) = month dt" unfolding M(1) [symmetric] by simp
  ultimately have yl: "year_loop (day_number dt) 1970 = (days_to_month (leap ?Y) M + ?d, year dt)"
    and ml: "month_loop [0..<12] (year dt) (days_to_month (leap ?Y) M + ?d) 1 = (?d, month dt)"
    using calendar_of_days [of ?Y M ?d] M
    by (simp_all add: day_number_def is_leap_year_unat)
  have "uint (hour dt) < 24" "uint (minute dt) < 60" "uint (second dt) < 60"
    using v by (simp_all add: valid_datetime_def)
  note tod = time_of_day [OF day_number_nonneg [OF v] uint_nonnegative this(1) uint_nonnegative this(2)
      uint_nonnegative this(3)]
  show ?thesis
    unfolding unix_timestamp_to_datetime_def Let_def tod yl ml prod.case
    by (rule RtcDateTime.equality) simp_all
qed

lemma bucket:
  fixes f :: "nat \<Rightarrow> int"
  assumes "a \<le> b" "f a \<le> x" "x < f b"
  shows "\<exists>k. a \<le> k \<and> k < b \<and> f k \<le> x \<and> x < f (Suc k)"
  using assms
proof (induction b rule: dec_induct)
  case (step b)
  then show ?case by (cases "x < f b") (auto intro: less_SucI)
qed simp

lemma month_length_le_31: "m < 12 \<Longrightarrow> month_length l m \<le> 31"
proof -
  assume "m < 12"
  moreover have "list_all (\<lambda>n. n \<le> 31) DAYS_IN_MONTH" "length DAYS_IN_MONTH = 12" "DAYS_IN_MONTH ! 1 = 28"
    by (simp_all add: DAYS_IN_MONTH_def)
  ultimately show ?thesis by (auto simp: month_length_def list_all_length)
qed

lemma days_to_year_1970: "days_to_year 1970 = 0"
  by (simp add: days_to_year_def)

lemma calendar_exists:
  assumes "0 \<le> D" "D < days_to_year 65536"
  shows "\<exists>Y M d. 1970 \<le> Y \<and> Y < 65536 \<and> M < 12 \<and> 0 \<le> d \<and> d < month_length (leap Y) M \<and>
    D = days_to_year Y + days_to_month (leap Y) M + d"
proof -
  obtain Y where Y: "1970 \<le> Y" "Y < 65536" "days_to_year Y \<le> D" "D < days_to_year (Suc Y)"
    using bucket [of 1970 65536 days_to_year D] assms by (auto simp: days_to_year_1970)
  have "days_to_month (leap Y) 12 = year_length Y"
    by (simp add: days_to_month_def upt_12 month_length_def DAYS_IN_MONTH_def year_length_def)
  then have "D - days_to_year Y < days_to_month (leap Y) 12" using Y by (simp add: days_to_year_Suc)
  then obtain M where M: "M < 12" "days_to_month (leap Y) M \<le> D - days_to_year Y"
      "D - days_to_year Y < days_to_month (leap Y) (Suc M)"
    using bucket [of 0 12 "days_to_month (leap Y)" "D - days_to_year Y"] Y by (auto simp: days_to_month_def)
  let ?d = "D - days_to_year Y - days_to_month (leap Y) M"
  have "0 \<le> ?d" "?d < month_length (leap Y) M" using M by (simp_all add: days_to_month_Suc)
  with Y(1,2) M(1) show ?thesis by (intro exI [of _ Y] exI [of _ M] exI [of _ ?d]) simp
qed

lemma int_div_less: "(a :: int) < b * c \<Longrightarrow> 0 < c \<Longrightarrow> a div c < b"
proof -
  assume "a < b * c" "0 < c"
  moreover have "a div c * c \<le> a" using pos_mod_sign [OF \<open>0 < c\<close>, of a] div_mult_mod_eq [of a c] by linarith
  ultimately show ?thesis by (meson le_less_trans mult_less_cancel_right_pos)
qed

lemma split_time:
  assumes "0 \<le> (t :: int)"
  shows "\<exists>h m s. t = t div 86400 * 86400 + h * 3600 + m * 60 + s \<and>
    0 \<le> h \<and> h < 24 \<and> 0 \<le> m \<and> m < 60 \<and> 0 \<le> s \<and> s < 60"
proof (intro exI conjI)
  let ?r = "t mod 86400"
  let ?h = "?r div 3600" and ?q = "?r mod 3600"
  let ?m = "?q div 60" and ?s = "?q mod 60"
  have "t = t div 86400 * 86400 + ?r" "?r = ?h * 3600 + ?q" "?q = ?m * 60 + ?s"
    by (simp_all only: div_mult_mod_eq)
  then show "t = t div 86400 * 86400 + ?h * 3600 + ?m * 60 + ?s" by linarith
  show "?h < 24" by (rule int_div_less) simp_all
  show "?m < 60" by (rule int_div_less) simp_all
qed simp_all

lemma timestamp_exists:
  assumes "0 \<le> t" "t < days_to_year 65536 * 86400"
  shows "\<exists>dt. valid_datetime dt \<and>
    t = day_number dt * 86400 + uint (hour dt) * 3600 + uint (minute dt) * 60 + uint (second dt)"
proof -
  obtain h m s where t: "t = t div 86400 * 86400 + h * 3600 + m * 60 + s"
    and b: "0 \<le> h" "h < 24" "0 \<le> m" "m < 60" "0 \<le> s" "s < 60"
    using split_time [OF assms(1)] by blast
  have "0 \<le> t div 86400" "t div 86400 < days_to_year 65536" using assms by (simp_all add: int_div_less)
  then obtain Y M d where c: "1970 \<le> Y" "Y < 65536" "M < 12" "0 \<le> d" "d < month_length (leap Y) M"
      and td: "t div 86400 = days_to_year Y + days_to_month (leap Y) M + d"
    using calendar_exists by blast
  define dt where "dt = \<lparr> second = word_of_int s, minute = word_of_int m, hour = word_of_int h,
    day = word_of_int (d + 1), month = word_of_nat (Suc M), year = word_of_nat Y, weekday = 0 \<rparr>"
  have d: "d + 1 \<le> 31" using c month_length_le_31 [of M "leap Y"] by simp
  have f: "uint (hour dt) = h" "uint (minute dt) = m" "uint (second dt) = s"
    "uint (day dt) = d + 1" "unat (month dt) = Suc M" "unat (year dt) = Y"
    using b d c by (simp_all add: dt_def uint_word_of_int unat_of_nat del: of_int_add of_nat_Suc)
  have "valid_datetime dt"
    using c b unfolding valid_datetime_def f is_leap_year_unat by simp
  moreover have "day_number dt = t div 86400"
    unfolding day_number_def f is_leap_year_unat td by simp
  ultimately show ?thesis using t by (intro exI [of _ dt]) (simp only: f)
qed

section \<open>Closed forms\<close>

definition leaps :: "int \<Rightarrow> int" where
  "leaps y = y div 4 - y div 100 + y div 400"

lemma int_div_Suc: "0 < k \<Longrightarrow> int (Suc n) div int k = int n div int k + (if k dvd Suc n then 1 else 0)"
proof -
  assume k: "0 < k"
  have "Suc n div k = n div k + (if k dvd Suc n then 1 else 0)"
    using k by (simp add: div_Suc dvd_eq_mod_eq_0)
  then have "int (Suc n div k) = int (n div k) + (if k dvd Suc n then 1 else 0)" by simp
  then show ?thesis by (simp only: zdiv_int)
qed

lemma int_div_numeral_Suc:
  "int (Suc n) div numeral k = int n div numeral k + (if numeral k dvd Suc n then 1 else 0)"
  using int_div_Suc [of "numeral k" n] by (simp only: of_nat_numeral zero_less_numeral simp_thms)

lemma leaps_Suc: "leaps (int (Suc n)) = leaps (int n) + (if leap (Suc n) then 1 else 0)"
proof -
  have d: "400 dvd Suc n \<Longrightarrow> 100 dvd Suc n" "100 dvd Suc n \<Longrightarrow> 4 dvd Suc n"
    using dvd_trans [of 100 400 "Suc n"] dvd_trans [of 4 100 "Suc n"] by simp_all
  have "leaps (int (Suc n)) = leaps (int n) + ((if 4 dvd Suc n then 1 else 0)
      - (if 100 dvd Suc n then 1 else 0) + (if 400 dvd Suc n then 1 else 0))"
    unfolding leaps_def int_div_numeral_Suc by (simp only: algebra_simps)
  also have "(if 4 dvd Suc n then 1 else 0) - (if 100 dvd Suc n then 1 else 0)
      + (if 400 dvd Suc n then 1 else 0) = (if leap (Suc n) then 1 else 0 :: int)"
    using d unfolding leap_def
    by (cases "400 dvd Suc n"; cases "100 dvd Suc n"; cases "4 dvd Suc n") simp_all
  finally show ?thesis .
qed

lemma days_to_year_closed:
  "1970 \<le> y \<Longrightarrow> days_to_year y = 365 * (int y - 1970) + leaps (int y - 1) - 477"
proof (induction y rule: dec_induct)
  case base
  then show ?case by (simp add: days_to_year_def leaps_def)
next
  case (step y)
  obtain n where n: "y = Suc n" using step.hyps by (cases y) auto
  have "days_to_year (Suc y) = days_to_year y + year_length y" using step by (simp add: days_to_year_Suc)
  also have "\<dots> = 365 * (int (Suc y) - 1970) + leaps (int (Suc n)) - 477"
    using step leaps_Suc [of n] by (simp add: n year_length_def)
  finally show ?case by (simp add: n)
qed

text \<open>The year and month counted from March, as both \<open>calculate_weekday\<close> and \<open>rtc_to_posix\<close> do.\<close>

definition march_year :: "RtcDateTime \<Rightarrow> int" where
  "march_year dt = (if uint (month dt) \<le> 2 then uint (year dt) - 1 else uint (year dt))"

definition march_month :: "RtcDateTime \<Rightarrow> int" where
  "march_month dt = (if uint (month dt) \<le> 2 then uint (month dt) + 12 else uint (month dt))"

lemma twelve_cases: "k < 12 \<Longrightarrow> (k :: nat) \<in> {0, 1, 2, 3, 4, 5, 6, 7, 8, 9, 10, 11}"
proof -
  assume "k < 12"
  then have "k \<in> set [0..<12]" by simp
  then show ?thesis unfolding upt_12 by simp
qed

lemma days_to_month_take: "k \<le> 12 \<Longrightarrow> days_to_month l k = sum_list (take k (map (month_length l) [0..<12]))"
  by (simp add: days_to_month_def take_map)

lemma days_to_month_march:
  "k < 12 \<Longrightarrow> days_to_month l k =
    (if k < 2 then (153 * (int k + 13) - 457) div 5 - 306
     else (153 * (int k + 1) - 457) div 5 + 59 + (if l then 1 else 0))"
  by (drule twelve_cases) (auto simp: days_to_month_take upt_12 month_length_def DAYS_IN_MONTH_def)

lemma uint_unat: "uint (w :: 'a::len word) = int (unat w)"
  by simp

lemma day_number_march:
  assumes "valid_datetime dt"
  shows "day_number dt = 365 * march_year dt + leaps (march_year dt) +
    (153 * march_month dt - 457) div 5 + uint (day dt) - 719469"
proof -
  obtain k where k: "unat (month dt) = Suc k" "k < 12"
    using assms by (cases "unat (month dt)") (auto simp: valid_datetime_def)
  have m: "uint (month dt) = int k + 1" unfolding uint_unat k(1) by simp
  obtain y where y: "unat (year dt) = Suc y" "1970 \<le> Suc y"
    using assms by (cases "unat (year dt)") (auto simp: valid_datetime_def)
  have yr: "uint (year dt) = int y + 1" unfolding uint_unat y(1) by simp
  have dy: "days_to_year (Suc y) = 365 * (int y + 1 - 1970) + leaps (int y) - 477"
    using days_to_year_closed [OF y(2)] by simp
  have lp: "leaps (int y + 1) = leaps (int y) + (if leap (Suc y) then 1 else 0)"
    using leaps_Suc [of y] by (simp add: add.commute)
  show ?thesis
  proof (cases "k < 2")
    case True
    then show ?thesis
      using days_to_month_march [OF k(2), of "leap (Suc y)"]
      by (simp add: day_number_def march_year_def march_month_def m yr k y dy is_leap_year_unat)
  next
    case False
    then show ?thesis
      using days_to_month_march [OF k(2), of "leap (Suc y)"] lp
      by (simp add: day_number_def march_year_def march_month_def m yr k y dy is_leap_year_unat)
  qed
qed

lemma rmd_mod: "0 < b \<Longrightarrow> rmd a b mod b = a mod b"
  unfolding rmd_def by (metis diff_conv_add_uminus mod_mult_self2 mult_minus_right)

lemma rmd_lower: "0 < b \<Longrightarrow> - b < rmd a b"
proof (cases "0 \<le> a")
  case False
  assume b: "0 < b"
  then have "rmd a b = - (- a mod b)"
    using False by (simp add: rmd_def quot_def minus_mult_div_eq_mod [symmetric])
  moreover have "- a mod b < b" using b by simp
  ultimately show ?thesis by simp
next
  case True
  assume b: "0 < b"
  have "0 \<le> a mod b" using b by simp
  then show ?thesis using True b by (simp only: rmd_nonneg)
qed

lemma uint_u8_small: "0 \<le> x \<Longrightarrow> x < 7 \<Longrightarrow> uint (word_of_int x :: u8) = x"
  by (simp add: uint_word_of_int)

lemma zeller_shift: "rmd (rmd h 7 + 6) 7 = (h + 6) mod 7"
proof -
  have "0 \<le> rmd h 7 + 6" using rmd_lower [of 7 h] by simp
  then have "rmd (rmd h 7 + 6) 7 = (rmd h 7 + 6) mod 7" by (rule rmd_nonneg) simp
  also have "\<dots> = (h + 6) mod 7" by (rule mod_add_cong [OF rmd_mod]) simp_all
  finally show ?thesis .
qed

lemma zeller_month:
  assumes "3 \<le> m" "m \<le> (14 :: int)"
  shows "7 dvd (153 * m - 457) div 5 - (13 * (m + 1)) div 5 - 4"
proof -
  define k where "k = nat (m - 3)"
  have m: "m = int k + 3" and "k < 12" using assms by (simp_all add: k_def)
  from twelve_cases [OF this(2)] show ?thesis unfolding m by (elim insertE emptyE) simp_all
qed

lemma zeller_year:
  fixes y :: int
  shows "365 * y + leaps y = 36524 * (y div 100) + 365 * (y mod 100) + (y mod 100) div 4 + (y div 100) div 4"
proof -
  have "y div 400 = y div 100 div 4" using zdiv_zmult2_eq [of 4 y 100] by simp
  moreover have "y div 4 = 25 * (y div 100) + (y mod 100) div 4"
  proof -
    have *: "(k + 4 * (25 * j)) div 4 = 25 * j + k div 4" for j k :: int
      by (rule div_mult_self2) simp
    have **: "y mod 100 + 4 * (25 * (y div 100)) = y" by simp
    show ?thesis using * [of "y mod 100" "y div 100"] unfolding ** .
  qed
  moreover have "y = 100 * (y div 100) + y mod 100" by simp
  ultimately show ?thesis unfolding leaps_def by linarith
qed

lemma weekday_of_day_number:
  assumes v: "valid_datetime dt"
  shows "uint (calculate_weekday (year dt) (month dt) (day dt)) = (day_number dt + 4) mod 7"
proof -
  let ?y = "march_year dt" and ?m = "march_month dt" and ?d = "uint (day dt)"
  let ?k = "?y mod 100" and ?j = "?y div 100"
  let ?h = "?d + (13 * (?m + 1)) div 5 + ?k + ?k div 4 + ?j div 4 - 2 * ?j"
  have "1970 \<le> uint (year dt)" "1 \<le> uint (month dt)" "uint (month dt) \<le> 12"
    using v unfolding valid_datetime_def uint_unat by linarith+
  then have y: "0 \<le> ?y" and m: "3 \<le> ?m" "?m \<le> 14" by (auto simp: march_year_def march_month_def)
  obtain c where c: "(153 * ?m - 457) div 5 = (13 * (?m + 1)) div 5 + 7 * c + 4"
    using zeller_month [OF m] by (auto elim!: dvdE simp: algebra_simps)
  have "day_number dt + 4 = ?h + 6 + 7 * (5218 * ?j + 52 * ?k + c - 102781)"
    unfolding day_number_march [OF v] zeller_year c by simp
  then have dn: "(day_number dt + 4) mod 7 = (?h + 6) mod 7" by (simp only: mod_mult_self2)
  have "(if uint (month dt) < 3 then (uint (month dt) + 12, uint (year dt) - 1)
      else (uint (month dt), uint (year dt))) = (?m, ?y)"
    by (simp add: march_year_def march_month_def)
  moreover have "rmd ?y 100 = ?k" "quot ?y 100 = ?j" "quot ?k 4 = ?k div 4" "quot ?j 4 = ?j div 4"
    "quot (13 * (?m + 1)) 5 = (13 * (?m + 1)) div 5"
    using y m by (simp_all add: pos_imp_zdiv_nonneg_iff)
  ultimately have "calculate_weekday (year dt) (month dt) (day dt) = word_of_int ((?h + 6) mod 7)"
    by (simp only: calculate_weekday_def Let_def prod.case zeller_shift)
  moreover have "0 \<le> (?h + 6) mod 7" "(?h + 6) mod 7 < 7" by (rule pos_mod_sign, simp, rule pos_mod_bound, simp)
  ultimately show ?thesis unfolding dn by (simp only: uint_u8_small)
qed

lemma rtc_to_posix_days:
  assumes v: "valid_datetime dt"
  shows "rtc_to_posix dt = word_of_int (day_number dt - 59) * 86400 + ucast (hour dt) * 3600 +
    ucast (minute dt) * 60 + ucast (second dt)"
proof -
  let ?y = "march_year dt" and ?m = "march_month dt"
  have "1970 \<le> uint (year dt)" "1 \<le> uint (month dt)" "uint (month dt) \<le> 12"
    using v unfolding valid_datetime_def uint_unat by linarith+
  then have y: "0 \<le> ?y" and m: "3 \<le> ?m" by (auto simp: march_year_def march_month_def)
  have "(if uint (month dt) \<le> 2 then (uint (year dt) - 1, uint (month dt) + 12)
      else (uint (year dt), uint (month dt))) = (?y, ?m)"
    by (simp add: march_year_def march_month_def)
  moreover have "365 * ?y + quot ?y 4 - quot ?y 100 + quot ?y 400 + quot (153 * ?m - 457) 5 + uint (day dt) - 719528 =
      day_number dt - 59"
    unfolding day_number_march [OF v] leaps_def using y m by simp
  ultimately show ?thesis by (simp only: rtc_to_posix_def Let_def prod.case)
qed

section \<open>Reading the clock\<close>

definition bcd :: "nat \<Rightarrow> u8" where
  "bcd n = word_of_nat (16 * (n div 10) + n mod 10)"

text \<open>A register file that holds \<open>dt\<close> in binary-coded decimal.\<close>

definition rtc_registers :: "RtcDateTime \<Rightarrow> u8 \<Rightarrow> u8 \<Rightarrow> u8 \<Rightarrow> u8" where
  "rtc_registers dt status_a status_b reg =
    (if reg = 0x00 then bcd (unat (second dt))
     else if reg = 0x02 then bcd (unat (minute dt))
     else if reg = 0x04 then bcd (unat (hour dt))
     else if reg = 0x06 then weekday dt
     else if reg = 0x07 then bcd (unat (day dt))
     else if reg = 0x08 then bcd (unat (month dt))
     else if reg = 0x09 then bcd (unat (year dt) mod 100)
     else if reg = 0x32 then bcd (unat (year dt) div 100)
     else if reg = 0x0A then status_a
     else if reg = 0x0B then status_b
     else 0)"

lemma unat_bcd: "n < 100 \<Longrightarrow> unat (bcd n) = 16 * (n div 10) + n mod 10"
proof -
  assume n: "n < 100"
  have "n div 10 < 10" using n by simp
  moreover have "n mod 10 < 10" by simp
  ultimately have "16 * (n div 10) + n mod 10 < 256" by linarith
  then show ?thesis unfolding bcd_def unat_of_nat by simp
qed

lemma bcd_to_binary_bcd: "n < 100 \<Longrightarrow> bcd_to_binary (bcd n) = word_of_nat n"
proof -
  assume n: "n < 100"
  have "n mod 10 < 16" by (rule less_trans [of _ 10]) simp_all
  then have hi: "drop_bit 4 (bcd n) = word_of_nat (n div 10)" and lo: "bcd n AND 0x0F = word_of_nat (n mod 10)"
    using n by (simp_all only: word_unat_eq_iff unat_drop_bit unsigned_and_eq unat_bcd)
      (simp_all add: unat_of_nat)
  show ?thesis unfolding bcd_to_binary_def hi lo
    by (metis (no_types) div_mult_mod_eq of_nat_add of_nat_mult of_nat_numeral)
qed

lemma bcd_and_7F: "n < 80 \<Longrightarrow> bcd n AND 0x7F = bcd n"
proof -
  assume n: "n < 80"
  have "n div 10 < 8" using n by simp
  moreover have "n mod 10 < 10" by simp
  ultimately have "16 * (n div 10) + n mod 10 < 128" by linarith
  then show ?thesis using n by (simp add: word_unat_eq_iff unsigned_and_eq unat_bcd)
qed

lemma full_year_split:
  assumes "100 \<le> Y" "Y < 9900"
  shows "full_year (word_of_nat (Y div 100)) (word_of_nat (Y mod 100)) = word_of_nat Y"
proof -
  have "Y div 100 < 99" "0 < Y div 100" using assms by (simp_all add: div_greater_zero_iff)
  then have "0 < (word_of_nat (Y div 100) :: u8) \<and> (word_of_nat (Y div 100) :: u8) < 99"
    by (simp add: word_less_nat_alt unat_of_nat)
  moreover have "ucast (word_of_nat n :: u8) = (word_of_nat n :: u16)" if "n < 256" for n
    using that by (intro word_unat_eq_iff [THEN iffD2]) (simp add: unsigned_ucast_eq unat_of_nat take_bit_nat_eq_self)
  ultimately have "full_year (word_of_nat (Y div 100)) (word_of_nat (Y mod 100)) =
      word_of_nat (Y div 100) * 100 + word_of_nat (Y mod 100)"
    using \<open>Y div 100 < 99\<close> by (simp add: full_year_def)
  also have "\<dots> = word_of_nat (Y div 100 * 100 + Y mod 100)"
    by (simp only: of_nat_add of_nat_mult of_nat_numeral)
  finally show ?thesis by (simp only: div_mult_mod_eq)
qed

lemma wait_update_done: "dev t 0x0A AND 0x80 = 0 \<Longrightarrow> wait_update dev t = Some (Suc t)"
  by (subst wait_update.simps) (simp add: is_update_in_progress_def read_register_def)

section \<open>Properties\<close>

text \<open>C29. Every valid date from 1970 on converts to a Unix timestamp, and converting that timestamp
  back gives the same date and time (with the weekday computed for that date).\<close>

theorem unix_timestamp_roundtrip:
  assumes "valid_datetime dt"
  shows "\<exists>t. datetime_to_unix_timestamp dt = Ok t \<and>
    unix_timestamp_to_datetime t = dt\<lparr> weekday := calculate_weekday (year dt) (month dt) (day dt) \<rparr>"
  using datetime_to_unix_ok [OF assms] unix_of_datetime [OF assms] by blast

definition leap_day_2024 :: RtcDateTime where
  "leap_day_2024 = \<lparr> second = 56, minute = 34, hour = 12, day = 29, month = 2, year = 2024, weekday = 0 \<rparr>"

lemma valid_leap_day_2024: "valid_datetime leap_day_2024"
  by (simp add: leap_day_2024_def valid_datetime_def month_length_def DAYS_IN_MONTH_def is_leap_year_def)

theorem unix_timestamp_roundtrip_witness:
  "\<exists>t. datetime_to_unix_timestamp leap_day_2024 = Ok t \<and>
    unix_timestamp_to_datetime t = leap_day_2024\<lparr> weekday := calculate_weekday 2024 2 29 \<rparr>"
  using unix_timestamp_roundtrip [OF valid_leap_day_2024] by (simp add: leap_day_2024_def)

text \<open>Every non-negative timestamp whose year fits 16 bits is the timestamp of the date it
  converts to, and that date carries the right weekday, counted from Sunday (the epoch was a Thursday).\<close>

theorem datetime_of_timestamp:
  assumes "0 \<le> t" "t < days_to_year 65536 * 86400"
  shows "datetime_to_unix_timestamp (unix_timestamp_to_datetime t) = Ok t \<and>
    uint (weekday (unix_timestamp_to_datetime t)) = (t div 86400 + 4) mod 7"
proof -
  obtain dt where v: "valid_datetime dt"
    and t: "t = day_number dt * 86400 + uint (hour dt) * 3600 + uint (minute dt) * 60 + uint (second dt)"
    using timestamp_exists [OF assms] by blast
  let ?w = "dt\<lparr> weekday := calculate_weekday (year dt) (month dt) (day dt) \<rparr>"
  have u: "unix_timestamp_to_datetime t = ?w" unfolding t by (rule unix_of_datetime [OF v])
  have "valid_datetime ?w" "day_number ?w = day_number dt"
    using v by (simp_all add: valid_datetime_def day_number_def)
  then have "datetime_to_unix_timestamp ?w = Ok t" using datetime_to_unix_ok [of ?w] t by simp
  moreover have "uint (hour dt) < 24" "uint (minute dt) < 60" "uint (second dt) < 60"
    using v by (simp_all add: valid_datetime_def)
  note tod = time_of_day [OF day_number_nonneg [OF v] uint_nonnegative this(1) uint_nonnegative this(2)
      uint_nonnegative this(3), folded t]
  have "t div 86400 = day_number dt" using tod(1) assms(1) by simp
  ultimately show ?thesis using weekday_of_day_number [OF v] by (simp add: u)
qed

theorem datetime_of_timestamp_witness:
  "datetime_to_unix_timestamp (unix_timestamp_to_datetime 1709210096) = Ok 1709210096 \<and>
    uint (weekday (unix_timestamp_to_datetime 1709210096)) = 4"
proof -
  have "days_to_year 65536 = 23217004"
    using days_to_year_closed [of 65536] by (simp add: leaps_def)
  then show ?thesis using datetime_of_timestamp [of 1709210096] by simp
qed

text \<open>A clock chip whose registers hold a date in binary-coded decimal and 24-hour form, with no
  update in progress, is read on the first attempt as exactly that date.\<close>

theorem read_datetime_bcd:
  assumes "valid_datetime dt" "unat (year dt) < 9900"
    and "status_a AND 0x80 = 0" "status_b AND 0x04 = 0" "status_b AND 0x02 \<noteq> 0"
  shows "read_datetime_reliable (\<lambda>_. rtc_registers dt status_a status_b) t = Some (Ok dt)"
proof -
  let ?dev = "\<lambda>_ :: nat. rtc_registers dt status_a status_b"
  have "month_length (is_leap_year (year dt)) (unat (month dt) - 1) \<le> 31"
    using assms(1) by (intro month_length_le_31) (auto simp: valid_datetime_def)
  then have "unat (day dt) < 100" "unat (month dt) < 100" "unat (hour dt) < 80"
    "unat (minute dt) < 100" "unat (second dt) < 100" "100 \<le> unat (year dt)"
    using assms(1) unfolding valid_datetime_def uint_unat by linarith+
  moreover have "unat (year dt) div 100 < 100" using assms(2) by simp
  ultimately have conv: "bcd_to_binary (bcd (unat (second dt))) = second dt"
      "bcd_to_binary (bcd (unat (minute dt))) = minute dt" "bcd_to_binary (bcd (unat (day dt))) = day dt"
      "bcd_to_binary (bcd (unat (month dt))) = month dt"
      "decode_hour False True (bcd (unat (hour dt))) = hour dt"
      "full_year (bcd_to_binary (bcd (unat (year dt) div 100))) (bcd_to_binary (bcd (unat (year dt) mod 100))) = year dt"
    using full_year_split [of "unat (year dt)"] assms(2)
    by (simp_all add: bcd_to_binary_bcd decode_hour_def bcd_and_7F)
  have "wait_update ?dev t = Some (Suc t)"
    using assms(3) by (intro wait_update_done) (simp add: rtc_registers_def)
  then have "read_datetime ?dev t = Some (Some dt, t + 11)"
    using assms(3-5) by (simp add: read_datetime_def read_register_def is_update_in_progress_def
        rtc_registers_def conv)
  moreover have "(5 :: nat) = Suc 4" by simp
  ultimately show ?thesis by (simp only: read_datetime_reliable_def read_attempts.simps) simp
qed

theorem read_datetime_bcd_witness:
  "read_datetime_reliable (\<lambda>_. rtc_registers leap_day_2024 0x26 0x02) 0 = Some (Ok leap_day_2024)"
  by (rule read_datetime_bcd [OF valid_leap_day_2024]) (simp_all add: leap_day_2024_def)

text \<open>C31. The timestamp written into inodes is 59 days early: for every valid date \<open>rtc_to_posix\<close>
  returns the Unix timestamp of that date less 59 days, modulo the 32-bit width.\<close>

theorem rtc_to_posix_59_days_early:
  assumes "valid_datetime dt" "datetime_to_unix_timestamp dt = Ok t"
  shows "rtc_to_posix dt = word_of_int (t - 59 * 86400)"
proof -
  have t: "t = day_number dt * 86400 + uint (hour dt) * 3600 + uint (minute dt) * 60 + uint (second dt)"
    using assms datetime_to_unix_ok by simp
  have u: "ucast (w :: u8) = (word_of_int (uint w) :: u32)" for w by (simp add: unsigned_ucast_eq)
  show ?thesis
    unfolding rtc_to_posix_days [OF assms(1)] t u by (simp add: algebra_simps)
qed

theorem rtc_to_posix_59_days_early_witness:
  "\<exists>t. datetime_to_unix_timestamp leap_day_2024 = Ok t \<and> rtc_to_posix leap_day_2024 = word_of_int (t - 59 * 86400)"
  using rtc_to_posix_59_days_early [OF valid_leap_day_2024] datetime_to_unix_ok [OF valid_leap_day_2024] by blast

text \<open>In 12-hour binary-coded-decimal mode the afternoon flag is lost: an hour register reads the
  same with and without its PM bit.\<close>

theorem decode_hour_loses_pm: "decode_hour False False (hr OR 0x80) = decode_hour False False hr"
proof -
  have "(hr OR 0x80) AND 0x7F = hr AND 0x7F"
    by (simp add: bit.conj_disj_distrib2)
  then show ?thesis by (simp add: decode_hour_def)
qed

end
