(* ===== verification/Frames.thy ===== *)
theory Frames
  imports Prelude
begin

text \<open>
  Physical memory (\<^verbatim>\<open>src/kernel/src/arch/x86_64/memory\<close>): the boot memory
  map, the bitmap of page frames built from it (\<^verbatim>\<open>bitmap.rs\<close>, \<^verbatim>\<open>mod.rs\<close>) and
  the frame allocator on that bitmap (\<^verbatim>\<open>frame_allocator.rs\<close>).  A frame is its
  physical start address.  Physical addresses stay below \<open>2 ^ 52\<close>, so address
  arithmetic is on natural numbers.  The memory map comes from the boot
  loader and is a parameter.  The interface of the allocator is the locale
  \<open>frame_source\<close>.
\<close>

section \<open>The memory map\<close>

datatype EntryType = USABLE | RESERVED | ACPI_RECLAIMABLE | ACPI_NVS | BAD_MEMORY
  | BOOTLOADER_RECLAIMABLE | KERNEL_AND_MODULES | FRAMEBUFFER

datatype MemmapEntryType = Usable | Reserved | ACPIReclaim | ACPINVS | BadMem | BootReclaim | Framebuffer

record Entry =
  base :: nat
  entry_length :: nat
  entry_type :: EntryType

fun from_entry :: "EntryType \<Rightarrow> MemmapEntryType" where
  "from_entry USABLE = Usable"
| "from_entry RESERVED = Reserved"
| "from_entry ACPI_RECLAIMABLE = ACPIReclaim"
| "from_entry ACPI_NVS = ACPINVS"
| "from_entry BAD_MEMORY = BadMem"
| "from_entry BOOTLOADER_RECLAIMABLE = BootReclaim"
| "from_entry FRAMEBUFFER = Framebuffer"
| "from_entry KERNEL_AND_MODULES = BadMem"

fun sum_memmap_loop :: "Entry list \<Rightarrow> nat \<Rightarrow> nat \<Rightarrow> nat \<times> nat \<Rightarrow> nat \<times> nat" where
  "sum_memmap_loop [] n index acc = acc"
| "sum_memmap_loop (entry # es) n index (tot, usable) =
    (let usable = (if from_entry (entry_type entry) = Usable then usable + entry_length entry else usable) in
     if from_entry (entry_type entry) \<noteq> Usable \<and> n - 1 \<le> index
     then sum_memmap_loop es n (Suc index) (tot, usable)
     else sum_memmap_loop es n (Suc index) (tot + entry_length entry, usable))"

definition sum_memmap :: "Entry list \<Rightarrow> nat \<times> nat" where
  "sum_memmap entries = sum_memmap_loop entries (length entries) 0 (0, 0)"

text \<open>The loop runs over the range \<^verbatim>\<open>len - 1..0\<close>.\<close>

fun trim_loop :: "Entry list \<Rightarrow> nat list \<Rightarrow> nat \<Rightarrow> nat" where
  "trim_loop memmap [] len = len"
| "trim_loop memmap (i # js) len =
    (if entry_type (memmap ! i) \<noteq> USABLE then trim_loop memmap js i else len)"

definition get_memmap_length_usable :: "Entry list \<Rightarrow> nat" where
  "get_memmap_length_usable memmap = trim_loop memmap [length memmap - 1..<0] (length memmap)"

definition get_highest_physical_memory_usable :: "Entry list \<Rightarrow> (unit, nat) res" where
  "get_highest_physical_memory_usable memmap =
    (let len = get_memmap_length_usable memmap in
     if 0 < len \<and> len \<le> length memmap
     then Ok (base (memmap ! (len - 1)) + entry_length (memmap ! (len - 1)))
     else Panic)"

section \<open>The bitmap\<close>

definition PAGE_SIZE :: nat where
  "PAGE_SIZE = 4096"

fun set_pages :: "(bytes \<Rightarrow> nat \<Rightarrow> bytes) \<Rightarrow> nat list \<Rightarrow> bytes \<Rightarrow> (unit, bytes) res" where
  "set_pages f [] bits = Ok bits"
| "set_pages f (idx # js) bits =
    (if idx div 8 < length bits then set_pages f js (f bits idx) else Panic)"

definition set_used_by_address :: "nat \<Rightarrow> nat \<Rightarrow> bytes \<Rightarrow> (unit, bytes) res" where
  "set_used_by_address addr page_count bits =
    set_pages set_bit_at (map (\<lambda>i. addr div PAGE_SIZE + i) [0..<page_count]) bits"

definition set_unused_by_address :: "nat \<Rightarrow> nat \<Rightarrow> bytes \<Rightarrow> (unit, bytes) res" where
  "set_unused_by_address addr page_count bits =
    set_pages clear_bit_at (map (\<lambda>i. addr div PAGE_SIZE + i) [0..<page_count]) bits"

fun fill_entries :: "Entry list \<Rightarrow> bytes \<Rightarrow> (unit, bytes) res" where
  "fill_entries [] bits = Ok bits"
| "fill_entries (e # es) bits =
    bind_res (set_unused_by_address (base e) (entry_length e div PAGE_SIZE) bits) (fill_entries es)"

definition fill :: "Entry list \<Rightarrow> nat \<Rightarrow> (unit, bytes) res" where
  "fill memmap bitmap_length =
    (let len = get_memmap_length_usable memmap;
         bits = replicate bitmap_length (NOT 0)
     in fill_entries (filter (\<lambda>e. entry_type e = USABLE) (take len memmap)) bits)"

record MemoryMappings =
  bitmap_base :: nat
  bit_map :: bytes
  page_length :: nat
  kheap_base :: nat

definition KHEAP_PAGE_COUNT :: nat where
  "KHEAP_PAGE_COUNT = 128"

definition STACK_PAGE_SIZE :: nat where
  "STACK_PAGE_SIZE = 5"

definition div_ceil :: "nat \<Rightarrow> nat \<Rightarrow> nat" where
  "div_ceil a b = (a + b - 1) div b"

text \<open>
  \<open>init\<close> lays the bitmap and the kernel heap at the start of the first usable
  region that is large enough.
\<close>

definition memory_init :: "Entry list \<Rightarrow> (unit, MemoryMappings) res" where
  "memory_init memmap =
    bind_res (get_highest_physical_memory_usable memmap) (\<lambda>highest.
    let frame_count = highest div PAGE_SIZE;
        bitmap_length = div_ceil frame_count 8;
        bitmap_page_length = div_ceil bitmap_length PAGE_SIZE
    in case find (\<lambda>r. (bitmap_page_length + KHEAP_PAGE_COUNT + STACK_PAGE_SIZE) * PAGE_SIZE < entry_length r)
          (filter (\<lambda>r. entry_type r = USABLE) memmap) of
        None \<Rightarrow> Panic
      | Some entry \<Rightarrow>
          bind_res (fill memmap bitmap_length) (\<lambda>bits.
          bind_res (set_used_by_address (base entry) (bitmap_page_length + KHEAP_PAGE_COUNT) bits) (\<lambda>bits.
          Ok \<lparr> bitmap_base = base entry, bit_map = bits, page_length = bitmap_page_length,
               kheap_base = base entry + bitmap_page_length * PAGE_SIZE \<rparr>)))"

section \<open>The frame allocator\<close>

record BitmapAllocator =
  bitmap :: bytes
  next_idx :: nat

type_synonym frames = "nat list"

fun free_frames :: "frames \<Rightarrow> BitmapAllocator \<Rightarrow> (unit, BitmapAllocator) res" where
  "free_frames [] a = Ok a"
| "free_frames (frame # fs) a =
    (let idx = frame div PAGE_SIZE in
     if idx div 8 < length (bitmap a)
     then free_frames fs (a\<lparr> bitmap := clear_bit_at (bitmap a) idx \<rparr>)
     else Panic)"

fun allocate_scan :: "nat list \<Rightarrow> nat \<Rightarrow> BitmapAllocator \<Rightarrow> (nat \<times> BitmapAllocator) option" where
  "allocate_scan [] total_bits a = None"
| "allocate_scan (offset # os) total_bits a =
    (let i = (next_idx a + offset) mod total_bits; byte_idx = i div 8; bit_idx = i mod 8 in
     if bit_idx = 0 \<and> bitmap a ! byte_idx = 0xff then allocate_scan os total_bits a
     else if bitmap a ! byte_idx AND push_bit bit_idx 1 = 0 then
       Some (i, a\<lparr> bitmap := set_bit_at (bitmap a) i, next_idx := (i + 1) mod total_bits \<rparr>)
     else allocate_scan os total_bits a)"

definition allocate_frame :: "frames option \<Rightarrow> BitmapAllocator \<Rightarrow>
    nat option \<times> frames option \<times> BitmapAllocator" where
  "allocate_frame ctxt a =
    (let total_bits = length (bitmap a) * 8 in
     case allocate_scan [0..<total_bits] total_bits a of
       Some (i, a') \<Rightarrow> (Some (i * 4096), map_option (\<lambda>v. v @ [i * 4096]) ctxt, a')
     | None \<Rightarrow> (None, ctxt, a))"

fun take_indices :: "nat list \<Rightarrow> nat \<Rightarrow> frames option \<Rightarrow> frames \<Rightarrow> BitmapAllocator \<Rightarrow>
    frames \<times> frames option \<times> BitmapAllocator" where
  "take_indices [] total_bits ctxt result a = (result, ctxt, a)"
| "take_indices (i # js) total_bits ctxt result a =
    take_indices js total_bits (map_option (\<lambda>v. v @ [i * 4096]) ctxt) (result @ [i * 4096])
      (a\<lparr> bitmap := set_bit_at (bitmap a) i, next_idx := (i + 1) mod total_bits \<rparr>)"

fun continuous_scan :: "nat list \<Rightarrow> nat \<Rightarrow> bytes \<Rightarrow> nat list \<Rightarrow> nat list option" where
  "continuous_scan [] len bits indices = None"
| "continuous_scan (i # os) len bits indices =
    (let byte_idx = i div 8; bit_idx = i mod 8 in
     if bit_idx = 0 \<and> bits ! byte_idx = 0xff then continuous_scan os len bits []
     else
       let indices = (if bits ! byte_idx AND push_bit bit_idx 1 = 0 then indices @ [i] else []) in
       if length indices = len then Some indices
       else continuous_scan os len bits indices)"

definition allocate_continuous_frames :: "frames option \<Rightarrow> nat \<Rightarrow> BitmapAllocator \<Rightarrow>
    frames option \<times> frames option \<times> BitmapAllocator" where
  "allocate_continuous_frames ctxt len a =
    (let total_bits = length (bitmap a) * 8 in
     case continuous_scan [0..<total_bits] len (bitmap a) [] of
       None \<Rightarrow> (None, ctxt, a)
     | Some indices \<Rightarrow>
         (case take_indices indices total_bits ctxt [] a of
           (result, ctxt, a) \<Rightarrow> (Some result, ctxt, a)))"

section \<open>Free frames\<close>

definition free_idx :: "bytes \<Rightarrow> nat set" where
  "free_idx bits = {i. i < 8 * length bits \<and> \<not> bit_at bits i}"

lemma free_idx_set: "i < 8 * length bits \<Longrightarrow> free_idx (set_bit_at bits i) = free_idx bits - {i}"
  by (auto simp: free_idx_def bit_at_set_bit_at)

lemma free_idx_clear: "i < 8 * length bits \<Longrightarrow> free_idx (clear_bit_at bits i) = insert i (free_idx bits)"
  by (auto simp: free_idx_def bit_at_clear_bit_at)

lemma free_idx_finite [simp]: "finite (free_idx bits)"
  by (rule finite_subset [of _ "{..<8 * length bits}"]) (auto simp: free_idx_def)

lemma full_byte_used: "i mod 8 = 0 \<Longrightarrow> bits ! (i div 8) = 0xff \<Longrightarrow> bit_at bits i"
  by (simp add: bit_at_def)

lemma allocate_scan_Some:
  assumes "allocate_scan os N a = Some (i, a')" "N = 8 * length (bitmap a)" "0 < N"
  shows "i \<in> free_idx (bitmap a)"
    and "a' = a\<lparr> bitmap := set_bit_at (bitmap a) i, next_idx := Suc i mod N \<rparr>"
proof -
  have "i \<in> free_idx (bitmap a) \<and> a' = a\<lparr> bitmap := set_bit_at (bitmap a) i, next_idx := Suc i mod N \<rparr>"
    using assms
  proof (induction os)
    case (Cons offset os)
    let ?i = "(next_idx a + offset) mod N"
    have "?i < 8 * length (bitmap a)" using Cons.prems by simp
    with Cons show ?case
      by (auto simp: Let_def test_bit_at free_idx_def split: if_splits)
  qed simp
  then show "i \<in> free_idx (bitmap a)" "a' = a\<lparr> bitmap := set_bit_at (bitmap a) i, next_idx := Suc i mod N \<rparr>"
    by simp_all
qed

lemma allocate_scan_None:
  assumes "allocate_scan os N a = None" "offset \<in> set os"
  shows "(next_idx a + offset) mod N \<notin> free_idx (bitmap a)"
  using assms
proof (induction os)
  case (Cons k os)
  then show ?case
    using full_byte_used [of "(next_idx a + k) mod N" "bitmap a"]
    by (auto simp: Let_def test_bit_at free_idx_def split: if_splits)
qed simp

lemma offset_covers: "(i :: nat) < N \<Longrightarrow> \<exists>k < N. (n + k) mod N = i"
proof -
  assume i: "i < N"
  let ?k = "(i + (N - n mod N)) mod N"
  have "(n + ?k) mod N = (n mod N + (i + (N - n mod N))) mod N"
    by (simp add: mod_simps)
  also have "n mod N + (i + (N - n mod N)) = i + N"
    using mod_less_divisor [of N n] i by linarith
  also have "(i + N) mod N = i" using i by simp
  finally show ?thesis using i by (intro exI [of _ ?k]) simp
qed

lemma allocate_frame_cases:
  fixes a
  defines "N \<equiv> 8 * length (bitmap a)"
  shows "allocate_frame ctxt a = (case allocate_scan [0..<N] N a of
      Some (i, a') \<Rightarrow> (Some (i * 4096), map_option (\<lambda>v. v @ [i * 4096]) ctxt, a')
    | None \<Rightarrow> (None, ctxt, a))"
  unfolding allocate_frame_def Let_def N_def by (simp only: mult.commute)

lemma allocate_scan_nonempty: "allocate_scan [0..<N] N a = Some x \<Longrightarrow> 0 < N"
  by (cases N) simp_all

lemma allocate_frame_None_iff: "fst (allocate_frame ctxt a) = None \<longleftrightarrow> free_idx (bitmap a) = {}"
proof -
  define N where "N = 8 * length (bitmap a)"
  note c = allocate_frame_cases [of ctxt a, folded N_def]
  show ?thesis
  proof (cases "allocate_scan [0..<N] N a")
    case None
    have "i \<notin> free_idx (bitmap a)" for i
    proof
      assume i: "i \<in> free_idx (bitmap a)"
      then obtain k where "k < N" "(next_idx a + k) mod N = i"
        using offset_covers [of i N "next_idx a"] by (auto simp: free_idx_def N_def)
      with allocate_scan_None [OF None, of k] i show False by simp
    qed
    then show ?thesis unfolding c None by auto
  next
    case (Some x)
    obtain i a' where x: "x = (i, a')" by fastforce
    have "i \<in> free_idx (bitmap a)"
      using allocate_scan_Some(1) [OF Some [unfolded x] N_def] allocate_scan_nonempty [OF Some] by simp
    then show ?thesis unfolding c Some x by auto
  qed
qed

lemma allocate_frame_Some:
  assumes "allocate_frame ctxt a = (Some f, ctxt', a')"
  shows "\<exists>i \<in> free_idx (bitmap a). f = i * 4096 \<and> bitmap a' = set_bit_at (bitmap a) i \<and>
    ctxt' = map_option (\<lambda>v. v @ [f]) ctxt \<and> next_idx a' = Suc i mod (8 * length (bitmap a))"
proof -
  define N where "N = 8 * length (bitmap a)"
  obtain i where i: "allocate_scan [0..<N] N a = Some (i, a')" "f = i * 4096"
      "ctxt' = map_option (\<lambda>v. v @ [f]) ctxt"
    using assms allocate_frame_cases [of ctxt a, folded N_def] by (auto split: option.splits)
  note s = allocate_scan_Some [OF i(1) N_def allocate_scan_nonempty [OF i(1)]]
  show ?thesis using s i(2,3) by (intro bexI [of _ i]) (simp_all add: N_def)
qed

section \<open>The allocator as a source of frames\<close>

text \<open>\<open>n\<close> requests in a row; the answers that were frames.\<close>

fun request :: "('s \<Rightarrow> nat option \<times> 's) \<Rightarrow> nat \<Rightarrow> 's \<Rightarrow> nat list \<times> 's" where
  "request alloc 0 s = ([], s)"
| "request alloc (Suc n) s = (case alloc s of
      (None, s') \<Rightarrow> request alloc n s'
    | (Some f, s') \<Rightarrow> (case request alloc n s' of (fs, s'') \<Rightarrow> (f # fs, s'')))"

locale frame_source =
  fixes available :: "'s \<Rightarrow> nat set"
    and alloc :: "'s \<Rightarrow> nat option \<times> 's"
  assumes finite_available: "finite (available s)"
    and alloc_empty: "available s = {} \<Longrightarrow> alloc s = (None, s)"
    and alloc_some: "available s \<noteq> {} \<Longrightarrow>
      \<exists>f s'. alloc s = (Some f, s') \<and> f \<in> available s \<and> available s' = available s - {f}"
begin

lemma request_empty: "available s = {} \<Longrightarrow> request alloc n s = ([], s)"
  by (induction n) (simp_all add: alloc_empty)

lemma request_distinct:
  "request alloc n s = (fs, s') \<Longrightarrow>
   distinct fs \<and> set fs \<subseteq> available s \<and> available s' = available s - set fs \<and>
   length fs = min n (card (available s))"
proof (induction n arbitrary: s fs)
  case 0
  then show ?case by simp
next
  case (Suc n)
  show ?case
  proof (cases "available s = {}")
    case True
    then show ?thesis using Suc.prems request_empty [of s "Suc n"] by simp
  next
    case False
    then obtain f t where f: "alloc s = (Some f, t)" "f \<in> available s" "available t = available s - {f}"
      using alloc_some by blast
    then obtain gs where gs: "request alloc n t = (gs, s')" "fs = f # gs"
      using Suc.prems by (auto split: prod.splits)
    have c: "card (available s) = Suc (card (available t))"
      using card.remove [OF finite_available f(2)] f(3) by simp
    have ih: "distinct gs" "set gs \<subseteq> available t" "available s' = available t - set gs"
        "length gs = min n (card (available t))"
      using Suc.IH [OF gs(1)] by simp_all
    show ?thesis
    proof (intro conjI)
      show "distinct fs" "set fs \<subseteq> available s" "available s' = available s - set fs"
        using ih f gs(2) by auto
      show "length fs = min (Suc n) (card (available s))" using ih(4) c gs(2) by simp
    qed
  qed
qed

end

definition frames_of :: "BitmapAllocator \<Rightarrow> nat set" where
  "frames_of a = (\<lambda>i. i * 4096) ` free_idx (bitmap a)"

definition allocate_one :: "BitmapAllocator \<Rightarrow> nat option \<times> BitmapAllocator" where
  "allocate_one a = (case allocate_frame None a of (f, _, a') \<Rightarrow> (f, a'))"

interpretation bitmap_frames: frame_source frames_of allocate_one
proof (standard, goal_cases)
  case (1 s)
  then show ?case by (simp add: frames_of_def)
next
  case (2 s)
  then have "fst (allocate_frame None s) = None" by (simp add: allocate_frame_None_iff frames_of_def)
  then have "allocate_frame None s = (None, None, s)"
    unfolding allocate_frame_cases by (auto split: option.splits)
  then show ?case by (simp add: allocate_one_def)
next
  case (3 s)
  then have "fst (allocate_frame None s) \<noteq> None" by (simp add: allocate_frame_None_iff frames_of_def)
  then obtain f c t where a: "allocate_frame None s = (Some f, c, t)"
    by (cases "allocate_frame None s") auto
  then obtain i where i: "i \<in> free_idx (bitmap s)" "f = i * 4096" "bitmap t = set_bit_at (bitmap s) i"
    using allocate_frame_Some by blast
  moreover have "i < 8 * length (bitmap s)" using i by (simp add: free_idx_def)
  moreover have "inj (\<lambda>i. i * 4096 :: nat)" by (simp add: inj_on_def)
  ultimately have "frames_of t = frames_of s - {f}"
    by (simp add: frames_of_def free_idx_set image_set_diff)
  moreover have "f \<in> frames_of s" using i by (simp add: frames_of_def)
  ultimately show ?case using a by (simp add: allocate_one_def)
qed

section \<open>Runs of frames\<close>

definition run_free :: "bytes \<Rightarrow> nat \<Rightarrow> nat \<Rightarrow> bool" where
  "run_free bits s len \<longleftrightarrow> {s..<s + len} \<subseteq> free_idx bits"

text \<open>The scan keeps the longest run of free frames that ends at the current index.\<close>

definition scan_inv :: "bytes \<Rightarrow> nat \<Rightarrow> nat \<Rightarrow> nat list \<Rightarrow> bool" where
  "scan_inv bits len k indices \<longleftrightarrow>
    (\<exists>s \<le> k. indices = [s..<k] \<and> {s..<k} \<subseteq> free_idx bits \<and> k - s < len \<and>
      (0 < s \<longrightarrow> s - 1 \<notin> free_idx bits)) \<and>
    (\<forall>s. s + len \<le> k \<longrightarrow> \<not> run_free bits s len)"

lemma scan_inv_used:
  assumes "scan_inv bits len k indices" "k \<notin> free_idx bits" "0 < len"
  shows "scan_inv bits len (Suc k) []"
proof -
  have "\<not> run_free bits s len" if "s + len \<le> Suc k" for s
  proof (cases "s + len \<le> k")
    case True
    then show ?thesis using assms(1) by (simp add: scan_inv_def)
  next
    case False
    then have "k \<in> {s..<s + len}" using that assms(3) by simp
    then show ?thesis using assms(2) by (auto simp: run_free_def)
  qed
  then show ?thesis unfolding scan_inv_def using assms by (auto intro: exI [of _ "Suc k"])
qed

lemma scan_inv_free:
  assumes inv: "scan_inv bits len k indices" and k: "k \<in> free_idx bits" and n: "length (indices @ [k]) \<noteq> len"
  shows "scan_inv bits len (Suc k) (indices @ [k])"
proof -
  obtain s where s: "s \<le> k" "indices = [s..<k]" "{s..<k} \<subseteq> free_idx bits" "k - s < len"
      "0 < s \<longrightarrow> s - 1 \<notin> free_idx bits"
    using inv by (auto simp: scan_inv_def)
  have short: "Suc k - s < len" using n s by simp
  have none: "\<not> run_free bits r len" if r: "r + len \<le> Suc k" for r
  proof (cases "r + len \<le> k")
    case True
    then show ?thesis using inv by (simp add: scan_inv_def)
  next
    case False
    then have "r < s" using short r by linarith
    then have "0 < s" "s - 1 \<in> {r..<r + len}" using False s(1) by auto
    then show ?thesis using s(5) by (auto simp: run_free_def)
  qed
  have "indices @ [k] = [s..<Suc k]" using s by simp
  moreover have "{s..<Suc k} \<subseteq> free_idx bits" using s k by (auto simp: less_Suc_eq)
  ultimately show ?thesis
    unfolding scan_inv_def using s short none by (intro conjI exI [of _ s]) auto
qed

lemma continuous_scan_spec:
  assumes "scan_inv bits len k indices" "k \<le> N" "N = 8 * length bits" "0 < len"
  shows "case continuous_scan [k..<N] len bits indices of
      None \<Rightarrow> \<forall>s. s + len \<le> N \<longrightarrow> \<not> run_free bits s len
    | Some js \<Rightarrow> \<exists>s. s + len \<le> N \<and> js = [s..<s + len] \<and> run_free bits s len"
  using assms
proof (induction "N - k" arbitrary: k indices)
  case 0
  then show ?case by (simp add: scan_inv_def)
next
  case (Suc m)
  then have k: "k < N" by simp
  then have u: "[k..<N] = k # [Suc k..<N]" by (simp add: upt_conv_Cons)
  have m: "m = N - Suc k" using Suc.hyps by simp
  show ?case
  proof (cases "k \<in> free_idx bits")
    case False
    then have used: "bit_at bits k" using k Suc.prems by (simp add: free_idx_def)
    then have "continuous_scan [k..<N] len bits indices = continuous_scan [Suc k..<N] len bits []"
      using Suc.prems unfolding u by (simp add: Let_def test_bit_at)
    then show ?thesis
      using Suc.hyps(1) [OF m scan_inv_used [OF Suc.prems(1) False Suc.prems(4)]] k Suc.prems by simp
  next
    case True
    then have fr: "\<not> bit_at bits k" by (simp add: free_idx_def)
    then have nf: "\<not> (k mod 8 = 0 \<and> bits ! (k div 8) = 0xff)" using full_byte_used [of k bits] by auto
    show ?thesis
    proof (cases "length (indices @ [k]) = len")
      case complete: True
      then have c: "continuous_scan [k..<N] len bits indices = Some (indices @ [k])"
        using nf fr unfolding u by (auto simp: Let_def test_bit_at)
      obtain s where s: "s \<le> k" "indices = [s..<k]" "{s..<k} \<subseteq> free_idx bits"
        using Suc.prems(1) by (auto simp: scan_inv_def)
      have len: "s + len = Suc k" using complete s by simp
      then have "indices @ [k] = [s..<s + len]" "run_free bits s len"
        using s True by (auto simp: run_free_def less_Suc_eq)
      then show ?thesis using c k len by (simp add: exI [of _ s])
    next
      case False
      then have "continuous_scan [k..<N] len bits indices = continuous_scan [Suc k..<N] len bits (indices @ [k])"
        using nf fr unfolding u by (auto simp: Let_def test_bit_at)
      then show ?thesis
        using Suc.hyps(1) [OF m scan_inv_free [OF Suc.prems(1) True False]] k Suc.prems by simp
    qed
  qed
qed

lemma take_indices_spec:
  assumes "set js \<subseteq> {..<8 * length (bitmap a)}"
  shows "\<exists>a'. take_indices js N ctxt result a =
      (result @ map (\<lambda>i. i * 4096) js, map_option (\<lambda>v. v @ map (\<lambda>i. i * 4096) js) ctxt, a') \<and>
    length (bitmap a') = length (bitmap a) \<and> free_idx (bitmap a') = free_idx (bitmap a) - set js"
  using assms
proof (induction js arbitrary: ctxt result a)
  case Nil
  then show ?case by (cases ctxt) auto
next
  case (Cons i js)
  let ?a = "a\<lparr> bitmap := set_bit_at (bitmap a) i, next_idx := (i + 1) mod N \<rparr>"
  have "set js \<subseteq> {..<8 * length (bitmap ?a)}" using Cons.prems by simp
  from Cons.IH [OF this, of "map_option (\<lambda>v. v @ [i * 4096]) ctxt" "result @ [i * 4096]"]
  show ?case using Cons.prems by (cases ctxt) (auto simp: free_idx_set)
qed

lemma allocate_continuous_cases:
  fixes a
  defines "N \<equiv> 8 * length (bitmap a)"
  shows "allocate_continuous_frames ctxt len a = (case continuous_scan [0..<N] len (bitmap a) [] of
      None \<Rightarrow> (None, ctxt, a)
    | Some indices \<Rightarrow> (case take_indices indices N ctxt [] a of (result, ctxt, a) \<Rightarrow> (Some result, ctxt, a)))"
  unfolding allocate_continuous_frames_def Let_def N_def by (simp only: mult.commute)

lemma allocate_continuous_None:
  assumes "0 < len" "allocate_continuous_frames ctxt len a = (None, ctxt', a')"
  shows "a' = a \<and> ctxt' = ctxt \<and> (\<forall>s. s + len \<le> 8 * length (bitmap a) \<longrightarrow> \<not> run_free (bitmap a) s len)"
proof -
  define N where "N = 8 * length (bitmap a)"
  have "scan_inv (bitmap a) len 0 []" using assms by (auto simp: scan_inv_def)
  note spec = continuous_scan_spec [OF this le0 N_def assms(1)]
  show ?thesis
    using assms(2) spec unfolding allocate_continuous_cases N_def
    by (auto split: option.splits prod.splits)
qed

lemma allocate_continuous_Some:
  assumes "0 < len" "allocate_continuous_frames ctxt len a = (Some fs, ctxt', a')"
  shows "\<exists>s. fs = map (\<lambda>i. i * 4096) [s..<s + len] \<and> run_free (bitmap a) s len \<and>
    s + len \<le> 8 * length (bitmap a) \<and>
    ctxt' = map_option (\<lambda>v. v @ fs) ctxt \<and> length (bitmap a') = length (bitmap a) \<and>
    free_idx (bitmap a') = free_idx (bitmap a) - {s..<s + len}"
proof -
  define N where "N = 8 * length (bitmap a)"
  have "scan_inv (bitmap a) len 0 []" using assms by (auto simp: scan_inv_def)
  note spec = continuous_scan_spec [OF this le0 N_def assms(1)]
  obtain js where js: "continuous_scan [0..<N] len (bitmap a) [] = Some js"
      "take_indices js N ctxt [] a = (fs, ctxt', a')"
    using assms(2) unfolding allocate_continuous_cases N_def by (auto split: option.splits prod.splits)
  then obtain s where s: "s + len \<le> N" "js = [s..<s + len]" "run_free (bitmap a) s len"
    using spec by auto
  then have "set js \<subseteq> {..<8 * length (bitmap a)}" by (auto simp: N_def)
  from take_indices_spec [OF this, of N ctxt "[]"] js(2) s show ?thesis
    by (intro exI [of _ s]) (auto simp: N_def)
qed

lemma free_frames_spec:
  assumes "\<And>f. f \<in> set fs \<Longrightarrow> f div 4096 < 8 * length (bitmap a)"
  shows "\<exists>a'. free_frames fs a = Ok a' \<and> length (bitmap a') = length (bitmap a) \<and>
    free_idx (bitmap a') = free_idx (bitmap a) \<union> (\<lambda>f. f div 4096) ` set fs"
  using assms
proof (induction fs arbitrary: a)
  case (Cons f fs)
  let ?a = "a\<lparr> bitmap := clear_bit_at (bitmap a) (f div 4096) \<rparr>"
  have f: "f div 4096 < 8 * length (bitmap a)" using Cons.prems by simp
  have "f' div 4096 < 8 * length (bitmap ?a)" if "f' \<in> set fs" for f' using Cons.prems that by simp
  from Cons.IH [of ?a, OF this] obtain a' where a': "free_frames fs ?a = Ok a'"
      "length (bitmap a') = length (bitmap ?a)"
      "free_idx (bitmap a') = free_idx (bitmap ?a) \<union> (\<lambda>f. f div 4096) ` set fs" by blast
  have "f div 4096 div 8 < length (bitmap a)" using f by (metis less_mult_imp_div_less mult.commute)
  then have "free_frames (f # fs) a = Ok a'" using a'(1) by (simp only: free_frames.simps PAGE_SIZE_def Let_def if_True)
  moreover have "free_idx (bitmap ?a) = insert (f div 4096) (free_idx (bitmap a))" using f by (simp add: free_idx_clear)
  ultimately show ?case using a'(2,3) by auto
qed simp

section \<open>Building the bitmap\<close>

lemma idx_in_range: "(i :: nat) < 8 * n \<Longrightarrow> i div 8 < n"
  by (metis less_mult_imp_div_less mult.commute)

lemma set_pages_used:
  "\<forall>i \<in> set js. i < 8 * length bits \<Longrightarrow> \<exists>bits'. set_pages set_bit_at js bits = Ok bits' \<and>
    length bits' = length bits \<and> free_idx bits' = free_idx bits - set js"
proof (induction js arbitrary: bits)
  case (Cons i js)
  have "\<exists>bits'. set_pages set_bit_at js (set_bit_at bits i) = Ok bits' \<and>
      length bits' = length (set_bit_at bits i) \<and> free_idx bits' = free_idx (set_bit_at bits i) - set js"
    using Cons.prems by (intro Cons.IH) simp
  then show ?case using Cons.prems by (auto simp: idx_in_range free_idx_set)
qed simp

lemma set_pages_unused:
  "\<forall>i \<in> set js. i < 8 * length bits \<Longrightarrow> \<exists>bits'. set_pages clear_bit_at js bits = Ok bits' \<and>
    length bits' = length bits \<and> free_idx bits' = free_idx bits \<union> set js"
proof (induction js arbitrary: bits)
  case (Cons i js)
  have "\<exists>bits'. set_pages clear_bit_at js (clear_bit_at bits i) = Ok bits' \<and>
      length bits' = length (clear_bit_at bits i) \<and> free_idx bits' = free_idx (clear_bit_at bits i) \<union> set js"
    using Cons.prems by (intro Cons.IH) simp
  then show ?case using Cons.prems by (auto simp: idx_in_range free_idx_clear)
qed simp

lemma page_indices: "set (map (\<lambda>i. b + i) [0..<n]) = {b..<b + n}"
  by (auto simp: image_iff)

text \<open>The frames of a region of the memory map.\<close>

definition entry_pages :: "Entry \<Rightarrow> nat set" where
  "entry_pages e = {base e div 4096..<base e div 4096 + entry_length e div 4096}"

definition usable_pages :: "Entry list \<Rightarrow> nat set" where
  "usable_pages memmap = (\<Union>e \<in> {e \<in> set memmap. entry_type e = USABLE}. entry_pages e)"

lemma fill_entries_spec:
  "\<forall>e \<in> set es. entry_pages e \<subseteq> {..<8 * length bits} \<Longrightarrow> \<exists>bits'. fill_entries es bits = Ok bits' \<and>
    length bits' = length bits \<and> free_idx bits' = free_idx bits \<union> (\<Union>e \<in> set es. entry_pages e)"
proof (induction es arbitrary: bits)
  case (Cons e es)
  let ?js = "map (\<lambda>i. base e div PAGE_SIZE + i) [0..<entry_length e div PAGE_SIZE]"
  have js: "set ?js = entry_pages e" by (simp only: page_indices entry_pages_def PAGE_SIZE_def)
  then have "\<forall>i \<in> set ?js. i < 8 * length bits" using Cons.prems by auto
  then obtain b where b: "set_unused_by_address (base e) (entry_length e div PAGE_SIZE) bits = Ok b"
      "length b = length bits" "free_idx b = free_idx bits \<union> entry_pages e"
    using set_pages_unused [of ?js bits] unfolding set_unused_by_address_def js by blast
  have "\<forall>e \<in> set es. entry_pages e \<subseteq> {..<8 * length b}" using Cons.prems b(2) by simp
  from Cons.IH [OF this] b show ?case by auto
qed simp

lemma get_memmap_length_usable_all: "get_memmap_length_usable memmap = length memmap"
  by (simp add: get_memmap_length_usable_def)

lemma free_idx_full: "free_idx (replicate n (- 1)) = {}"
proof -
  have "i < 8 * n \<Longrightarrow> i div 8 < n" for i by (rule idx_in_range)
  then show ?thesis by (auto simp: free_idx_def bit_at_def)
qed

lemma fill_spec:
  assumes "\<And>e. e \<in> set memmap \<Longrightarrow> entry_type e = USABLE \<Longrightarrow> entry_pages e \<subseteq> {..<8 * n}"
  shows "\<exists>bits. fill memmap n = Ok bits \<and> length bits = n \<and> free_idx bits = usable_pages memmap"
proof -
  have "\<forall>e \<in> set (filter (\<lambda>e. entry_type e = USABLE) memmap).
      entry_pages e \<subseteq> {..<8 * length (replicate n (NOT 0 :: u8))}"
    using assms by simp
  from fill_entries_spec [OF this] show ?thesis
    by (auto simp: fill_def get_memmap_length_usable_all free_idx_full usable_pages_def Let_def)
qed

lemma div_ceil_ge: "n \<le> 8 * div_ceil n 8"
  by (simp add: div_ceil_def)

lemma entry_pages_below:
  assumes "base e + entry_length e \<le> highest"
  shows "entry_pages e \<subseteq> {..<8 * div_ceil (highest div 4096) 8}"
proof
  fix i assume "i \<in> entry_pages e"
  then have "i < base e div 4096 + entry_length e div 4096" by (simp add: entry_pages_def)
  also have "\<dots> \<le> (base e + entry_length e) div 4096" 
    using div_add1_eq [of "base e" "entry_length e" 4096] by simp
  also have "\<dots> \<le> highest div 4096" using assms by (rule div_le_mono)
  also have "\<dots> \<le> 8 * div_ceil (highest div 4096) 8" by (rule div_ceil_ge)
  finally show "i \<in> {..<8 * div_ceil (highest div 4096) 8}" by simp
qed

lemma find_Some_first: "find P xs = Some x \<Longrightarrow> x \<in> set xs \<and> P x"
  by (induction xs) (auto split: if_splits)

lemma memory_init_unfold:
  assumes "get_highest_physical_memory_usable memmap = Ok highest"
    and "frame_count = highest div 4096" "n = div_ceil frame_count 8" "p = div_ceil n 4096"
    and "find (\<lambda>r. (p + 128 + 5) * 4096 < entry_length r) (filter (\<lambda>r. entry_type r = USABLE) memmap) = Some entry"
    and "fill memmap n = Ok bits"
    and "set_used_by_address (base entry) (p + 128) bits = Ok bits'"
  shows "memory_init memmap = Ok \<lparr> bitmap_base = base entry, bit_map = bits', page_length = p,
    kheap_base = base entry + p * 4096 \<rparr>"
  using assms(1,5-7) unfolding assms(2-4)
  by (simp add: memory_init_def PAGE_SIZE_def KHEAP_PAGE_COUNT_def STACK_PAGE_SIZE_def Let_def)

section \<open>Properties\<close>

text \<open>C9. Frames are handed out at most once: any number of consecutive calls of
  \<open>allocate_frame\<close> return pairwise different frames that were all free before, mark exactly those used,
  and fail only when no frame is free.\<close>

theorem allocate_frames_distinct:
  assumes "request allocate_one n a = (fs, a')"
  shows "distinct fs \<and> set fs \<subseteq> frames_of a \<and> frames_of a' = frames_of a - set fs \<and>
    length fs = min n (card (frames_of a))"
  using assms by (rule bitmap_frames.request_distinct)

theorem allocate_frames_distinct_witness:
  "\<exists>fs a'. request allocate_one 3 \<lparr> bitmap = [0xff, 0xfd], next_idx = 0 \<rparr> = (fs, a') \<and> distinct fs \<and>
    set fs \<subseteq> frames_of \<lparr> bitmap = [0xff, 0xfd], next_idx = 0 \<rparr>"
proof -
  obtain fs a' where r: "request allocate_one 3 \<lparr> bitmap = [0xff, 0xfd], next_idx = 0 \<rparr> = (fs, a')"
    by fastforce
  with allocate_frames_distinct [OF r] show ?thesis by blast
qed

text \<open>C10. \<open>allocate_continuous_frames\<close> is first fit and complete: for a positive length it returns
  that many adjacent frames, all free before and used after, with every other frame unchanged; it fails only when
  no such run of free frames exists, and then it changes nothing.\<close>

theorem allocate_continuous_complete:
  assumes "0 < len" "allocate_continuous_frames ctxt len a = (r, ctxt', a')"
  shows "case r of
      None \<Rightarrow> a' = a \<and> ctxt' = ctxt \<and> \<not> (\<exists>s. {s..<s + len} \<subseteq> free_idx (bitmap a))
    | Some fs \<Rightarrow> \<exists>s. fs = map (\<lambda>i. i * 4096) [s..<s + len] \<and> {s..<s + len} \<subseteq> free_idx (bitmap a) \<and>
        free_idx (bitmap a') = free_idx (bitmap a) - {s..<s + len} \<and> ctxt' = map_option (\<lambda>v. v @ fs) ctxt"
proof (cases r)
  case None
  have "s + len \<le> 8 * length (bitmap a)" if "{s..<s + len} \<subseteq> free_idx (bitmap a)" for s
  proof -
    have "s + len - 1 \<in> {s..<s + len}" using assms(1) by auto
    then have "s + len - 1 < 8 * length (bitmap a)" using that by (auto simp: free_idx_def)
    then show ?thesis by simp
  qed
  then show ?thesis
    using allocate_continuous_None [OF assms(1), of ctxt a ctxt' a'] assms(2) None by (auto simp: run_free_def)
next
  case (Some fs)
  then show ?thesis
    using allocate_continuous_Some [OF assms(1), of ctxt a fs ctxt' a'] assms(2) by (auto simp: run_free_def)
qed

theorem allocate_continuous_complete_witness:
  "\<exists>a'. allocate_continuous_frames None 2 \<lparr> bitmap = [0xf2], next_idx = 0 \<rparr> = (Some [2 * 4096, 3 * 4096], None, a') \<and>
    free_idx (bitmap a') = free_idx [0xf2] - {2..<4}"
proof -
  let ?a = "\<lparr> bitmap = [0xf2], next_idx = 0 \<rparr>"
  have "continuous_scan [0..<8] 2 [0xf2] [] = Some [2, 3]"
    by (simp add: upt_rec Let_def)
  then obtain a' where r: "allocate_continuous_frames None 2 ?a = (Some [2 * 4096, 3 * 4096], None, a')"
    by (simp add: allocate_continuous_frames_def)
  have "(0 :: nat) < 2" by simp
  from allocate_continuous_complete [OF this r] obtain s where
    s: "[2 * 4096, 3 * 4096] = map (\<lambda>i. i * 4096) [s..<s + 2]" "free_idx (bitmap a') = free_idx (bitmap ?a) - {s..<s + 2}"
    by auto
  then have "s = 2" by (simp add: upt_conv_Cons)
  with s r show ?thesis by auto
qed

text \<open>Freeing what was allocated gives the pool back: after \<open>allocate_continuous_frames\<close> returned
  frames, \<open>free_frames\<close> on them succeeds and the set of free frames is the one before the allocation.\<close>

theorem allocate_free_roundtrip:
  assumes "0 < len" "allocate_continuous_frames ctxt len a = (Some fs, ctxt', a')"
  shows "\<exists>a''. free_frames fs a' = Ok a'' \<and> frames_of a'' = frames_of a"
proof -
  obtain s where s: "fs = map (\<lambda>i. i * 4096) [s..<s + len]" "run_free (bitmap a) s len"
      "s + len \<le> 8 * length (bitmap a)" "length (bitmap a') = length (bitmap a)"
      "free_idx (bitmap a') = free_idx (bitmap a) - {s..<s + len}"
    using allocate_continuous_Some [OF assms] by blast
  have idx: "(\<lambda>f. f div 4096) ` set fs = {s..<s + len}" by (auto simp: s(1) image_iff)
  have "f div 4096 < 8 * length (bitmap a')" if "f \<in> set fs" for f
    using imageI [OF that, of "\<lambda>f. f div 4096"] s(3,4) unfolding idx by simp
  then obtain a'' where "free_frames fs a' = Ok a''" "free_idx (bitmap a'') = free_idx (bitmap a') \<union> {s..<s + len}"
    using free_frames_spec [of fs a'] idx by auto
  moreover have "free_idx (bitmap a') \<union> {s..<s + len} = free_idx (bitmap a)"
    using s(2,5) by (auto simp: run_free_def)
  ultimately show ?thesis by (simp add: frames_of_def)
qed

theorem allocate_free_roundtrip_witness:
  "\<exists>fs c a' a''. allocate_continuous_frames None 1 \<lparr> bitmap = [0xfe], next_idx = 0 \<rparr> = (Some fs, c, a') \<and>
    free_frames fs a' = Ok a'' \<and> frames_of a'' = frames_of \<lparr> bitmap = [0xfe], next_idx = 0 \<rparr>"
proof -
  have "continuous_scan [0..<8] 1 [0xfe] [] = Some [0]" by (simp add: upt_rec Let_def)
  then obtain fs c a' where r: "allocate_continuous_frames None 1 \<lparr> bitmap = [0xfe], next_idx = 0 \<rparr> = (Some fs, c, a')"
    by (simp add: allocate_continuous_frames_def)
  have "(0 :: nat) < 1" by simp
  from allocate_free_roundtrip [OF this r] r show ?thesis by blast
qed

text \<open>C11. Boot leaves exactly the right frames free: when no region reaches past the last one and some
  usable region is large enough, initialisation succeeds, the bitmap and the kernel heap lie inside a usable
  region, and the free frames are those of the usable regions without the frames of the bitmap and the heap.\<close>

theorem memory_init_free_frames:
  assumes ne: "memmap \<noteq> []"
    and top: "\<forall>e \<in> set memmap. base e + entry_length e \<le> base (last memmap) + entry_length (last memmap)"
    and big: "\<exists>e \<in> set memmap. entry_type e = USABLE \<and>
      (div_ceil (div_ceil ((base (last memmap) + entry_length (last memmap)) div 4096) 8) 4096 + 128 + 5) * 4096 < entry_length e"
  shows "\<exists>m entry. memory_init memmap = Ok m \<and> entry \<in> set memmap \<and> entry_type entry = USABLE \<and>
    bitmap_base m = base entry \<and>
    {base entry div 4096..<base entry div 4096 + page_length m + 128} \<subseteq> entry_pages entry \<and>
    free_idx (bit_map m) = usable_pages memmap - {base entry div 4096..<base entry div 4096 + page_length m + 128}"
proof -
  define highest where "highest = base (last memmap) + entry_length (last memmap)"
  define n where "n = div_ceil (highest div 4096) 8"
  define p where "p = div_ceil n 4096"
  let ?P = "\<lambda>r. (p + 128 + 5) * 4096 < entry_length r"
  let ?us = "filter (\<lambda>r. entry_type r = USABLE) memmap"
  have hi: "get_highest_physical_memory_usable memmap = Ok highest"
    using ne by (simp add: get_highest_physical_memory_usable_def get_memmap_length_usable_all
        highest_def last_conv_nth Let_def)
  have "\<exists>e \<in> set ?us. ?P e" using big unfolding p_def n_def highest_def by auto
  then obtain entry where f: "find ?P ?us = Some entry"
    by (cases "find ?P ?us") (auto simp: find_None_iff)
  have e: "entry \<in> set memmap" "entry_type entry = USABLE" "?P entry"
    using find_Some_first [OF f] by auto
  have inside: "entry_pages e \<subseteq> {..<8 * n}" if "e \<in> set memmap" for e
    unfolding n_def using top that by (intro entry_pages_below) (simp add: highest_def)
  obtain bits where b: "fill memmap n = Ok bits" "length bits = n" "free_idx bits = usable_pages memmap"
    using fill_spec [of memmap n] inside by blast
  let ?js = "map (\<lambda>i. base entry div PAGE_SIZE + i) [0..<p + 128]"
  have js: "set ?js = {base entry div 4096..<base entry div 4096 + p + 128}"
    unfolding page_indices PAGE_SIZE_def by (simp add: add.assoc)
  have "p + 128 \<le> entry_length entry div 4096" using e(3) by (simp add: less_eq_div_iff_mult_less_eq)
  then have sub: "set ?js \<subseteq> entry_pages entry" unfolding js by (auto simp: entry_pages_def)
  then have "\<forall>i \<in> set ?js. i < 8 * length bits" using inside [OF e(1)] b(2) by auto
  then obtain bits' where u: "set_used_by_address (base entry) (p + 128) bits = Ok bits'"
      "free_idx bits' = free_idx bits - set ?js"
    using set_pages_used [of ?js bits] unfolding set_used_by_address_def by blast
  note init = memory_init_unfold [OF hi refl n_def p_def f b(1) u(1)]
  let ?m = "\<lparr> bitmap_base = base entry, bit_map = bits', page_length = p, kheap_base = base entry + p * 4096 \<rparr>"
  show ?thesis
    by (intro exI [of _ ?m] exI [of _ entry]) (use init e sub u(2) b(3) js in simp)
qed

definition sample_memmap :: "Entry list" where
  "sample_memmap = [\<lparr> base = 0, entry_length = 4096, entry_type = RESERVED \<rparr>,
     \<lparr> base = 4096, entry_length = 16777216, entry_type = USABLE \<rparr>]"

theorem memory_init_free_frames_witness:
  "\<exists>m entry. memory_init sample_memmap = Ok m \<and> entry \<in> set sample_memmap \<and>
    free_idx (bit_map m) = usable_pages sample_memmap - {base entry div 4096..<base entry div 4096 + page_length m + 128}"
proof -
  have "sample_memmap \<noteq> []"
    "\<forall>e \<in> set sample_memmap. base e + entry_length e \<le> base (last sample_memmap) + entry_length (last sample_memmap)"
    "\<exists>e \<in> set sample_memmap. entry_type e = USABLE \<and>
      (div_ceil (div_ceil ((base (last sample_memmap) + entry_length (last sample_memmap)) div 4096) 8) 4096 + 128 + 5) * 4096
        < entry_length e"
    by (simp_all add: sample_memmap_def div_ceil_def)
  from memory_init_free_frames [OF this] show ?thesis by blast
qed

text \<open>Trailing unusable regions are not trimmed: the loop over \<^verbatim>\<open>len - 1..0\<close> is empty, so the
  bitmap is sized by the last region of the memory map whatever its type.\<close>

theorem memmap_never_trimmed: "get_memmap_length_usable memmap = length memmap"
  by (rule get_memmap_length_usable_all)

end
