(* ===== verification/Storage.thy ===== *)
theory Storage
  imports Ident
begin

text \<open>
  The storage layer of \<^verbatim>\<open>hal/storage.rs\<close>: the tables of block devices and
  the four request functions the file systems and the partition reader call.
  A request is queued to the task that owns the device and its answer is
  awaited, so for its caller it is one atomic step.

  The device itself is behind the trait \<^verbatim>\<open>HalBlockDevice\<close>.  Its state is its
  bytes and two oracles for the requests the hardware rejects; a rejected
  write may leave anything in the sectors it addressed.  A negative sector
  number counts from the end of the device, and a transfer covers the whole
  sectors of the buffer, as in \<^verbatim>\<open>drivers/ata/sata/io.rs\<close>.
\<close>

section \<open>State\<close>

definition SECTOR_SIZE :: nat where
  "SECTOR_SIZE = 512"

datatype HalStorageOperationErr = DriveDidntRespond | DriveErr string | NoEnoughSpace
  | StorageInternal u32 u32 string

record device =
  sectors :: u64
  content :: "int \<Rightarrow> u8"
  read_fault :: "int \<Rightarrow> nat \<Rightarrow> HalStorageOperationErr option"
  write_fault :: "int \<Rightarrow> nat \<Rightarrow> (HalStorageOperationErr \<times> (int \<Rightarrow> u8)) option"

text \<open>Both tables are cells that are set once at boot; reading an unset cell panics.\<close>

record storage =
  STORAGE_DEVICES_BY_IDX :: "(nat \<Rightarrow> device option) option"
  STORAGE_DEVICES_BY_GUID :: "(Guid \<Rightarrow> nat option) option"

section \<open>The device\<close>

definition dump :: "(int \<Rightarrow> u8) \<Rightarrow> int \<Rightarrow> nat \<Rightarrow> bytes" where
  "dump f a n = map (\<lambda>i. f (a + int i)) [0..<n]"

definition patch :: "(int \<Rightarrow> u8) \<Rightarrow> int \<Rightarrow> bytes \<Rightarrow> int \<Rightarrow> u8" where
  "patch f a bs = (\<lambda>x. if a \<le> x \<and> x < a + int (length bs) then bs ! nat (x - a) else f x)"

text \<open>The number of sectors of a command has 16 bits, and its address is computed with 64 bits.\<close>

definition sector_count :: "bytes \<Rightarrow> u16" where
  "sector_count buffer = of_nat (length buffer div SECTOR_SIZE)"

definition whole_sectors :: "bytes \<Rightarrow> nat" where
  "whole_sectors buffer = SECTOR_SIZE * unat (sector_count buffer)"

definition device_lba :: "device \<Rightarrow> int \<Rightarrow> int" where
  "device_lba d lba = uint (if lba < 0 then sectors d + word_of_int lba else word_of_int lba)"

definition device_read :: "device \<Rightarrow> bytes \<Rightarrow> int \<Rightarrow> (HalStorageOperationErr, bytes) res" where
  "device_read d buffer lba =
    (let at = device_lba d lba; n = whole_sectors buffer in
     case read_fault d at (unat (sector_count buffer)) of
       Some e \<Rightarrow> Err e
     | None \<Rightarrow> Ok (dump (content d) (int SECTOR_SIZE * at) n @ drop n buffer))"

definition device_write :: "device \<Rightarrow> bytes \<Rightarrow> int \<Rightarrow>
    (HalStorageOperationErr, unit) res \<times> device" where
  "device_write d buffer lba =
    (let at = device_lba d lba; n = whole_sectors buffer; base = int SECTOR_SIZE * at in
     case write_fault d at (unat (sector_count buffer)) of
       Some (e, torn) \<Rightarrow> (Err e, d \<lparr> content := patch (content d) base (dump torn base n) \<rparr>)
     | None \<Rightarrow> (Ok (), d \<lparr> content := patch (content d) base (take n buffer) \<rparr>))"

section \<open>Requests\<close>

definition read_sectors_by_idx :: "nat \<Rightarrow> bytes \<Rightarrow> int \<Rightarrow>
    (storage, HalStorageOperationErr, bytes) st" where
  "read_sectors_by_idx index buffer lba =
    bind get_st (\<lambda>s. case STORAGE_DEVICES_BY_IDX s of None \<Rightarrow> crash | Some devices \<Rightarrow>
      (case devices index of None \<Rightarrow> fail DriveDidntRespond | Some d \<Rightarrow>
        lift_res (device_read d buffer lba)))"

definition read_sectors_by_guid :: "Guid \<Rightarrow> bytes \<Rightarrow> int \<Rightarrow>
    (storage, HalStorageOperationErr, bytes) st" where
  "read_sectors_by_guid guid buffer lba =
    bind get_st (\<lambda>s. case STORAGE_DEVICES_BY_GUID s of None \<Rightarrow> crash | Some guids \<Rightarrow>
      (case guids guid of None \<Rightarrow> fail DriveDidntRespond | Some index \<Rightarrow>
        read_sectors_by_idx index buffer lba))"

definition write_sectors_by_idx :: "nat \<Rightarrow> bytes \<Rightarrow> int \<Rightarrow>
    (storage, HalStorageOperationErr, unit) st" where
  "write_sectors_by_idx index buffer lba =
    bind get_st (\<lambda>s. case STORAGE_DEVICES_BY_IDX s of None \<Rightarrow> crash | Some devices \<Rightarrow>
      (case devices index of None \<Rightarrow> fail DriveDidntRespond | Some d \<Rightarrow>
        (case device_write d buffer lba of (r, d') \<Rightarrow>
          bind (modify (\<lambda>s. s \<lparr> STORAGE_DEVICES_BY_IDX := Some (devices(index \<mapsto> d')) \<rparr>))
            (\<lambda>_. lift_res r))))"

definition write_sectors_by_guid :: "Guid \<Rightarrow> bytes \<Rightarrow> int \<Rightarrow>
    (storage, HalStorageOperationErr, unit) st" where
  "write_sectors_by_guid guid buffer lba =
    bind get_st (\<lambda>s. case STORAGE_DEVICES_BY_GUID s of None \<Rightarrow> crash | Some guids \<Rightarrow>
      (case guids guid of None \<Rightarrow> fail DriveDidntRespond | Some index \<Rightarrow>
        write_sectors_by_idx index buffer lba))"

section \<open>Byte images\<close>

named_theorems image_simps \<open>reading byte images after they were patched\<close>

lemma length_dump [simp]: "length (dump f a n) = n"
  by (simp add: dump_def)

lemma nth_dump [simp]: "i < n \<Longrightarrow> dump f a n ! i = f (a + int i)"
  by (simp add: dump_def)

lemma dump_const [simp]: "dump (\<lambda>_. c) a n = replicate n c"
  by (simp add: dump_def map_replicate_const)

lemma dump_patch_same [image_simps]:
  "n = length bs \<Longrightarrow> dump (patch f a bs) a n = bs"
  by (rule nth_equalityI) (simp_all add: patch_def)

lemma dump_patch_disjoint [image_simps]:
  "b + int n \<le> a \<or> a + int (length bs) \<le> b \<Longrightarrow> dump (patch f a bs) b n = dump f b n"
  by (rule nth_equalityI) (auto simp: patch_def)

lemma dump_inside:
  assumes "i + m \<le> n"
  shows "sub_list (dump f a n) i (i + m) = dump f (a + int i) m"
  using assms by (intro nth_equalityI) (simp_all add: sub_list_def algebra_simps)

lemma patch_patch_same: "length bs = length cs \<Longrightarrow> patch (patch f a bs) a cs = patch f a cs"
  by (rule ext) (simp add: patch_def)

lemma int_offset_cases:
  assumes "a \<le> x" "x < a + int n"
  obtains k where "x = a + int k" "k < n"
  using assms zero_le_imp_eq_int [of "x - a"] by (metis add.commute diff_add_cancel
    add_less_cancel_left diff_ge_0_iff_ge of_nat_less_iff)

lemma patch_dump [simp]: "patch f a (dump f a n) = f"
  by (rule ext) (auto simp: patch_def elim: int_offset_cases)

lemma patch_apply_outside [image_simps]: "x < a \<or> a + int (length bs) \<le> x \<Longrightarrow> patch f a bs x = f x"
  by (auto simp: patch_def)

lemma patch_splice:
  assumes "i + length new \<le> n"
  shows "patch f a (splice_at (dump f a n) i new) = patch f (a + int i) new"
proof (rule ext)
  fix x
  show "patch f a (splice_at (dump f a n) i new) x = patch f (a + int i) new x"
  proof (cases "a \<le> x \<and> x < a + int n")
    case True
    then obtain k where "x = a + int k" "k < n" by (elim conjE int_offset_cases)
    with assms show ?thesis
      by (auto simp: patch_def nth_splice_at nat_minus_as_int)
  next
    case False
    with assms show ?thesis by (auto simp: patch_def)
  qed
qed

section \<open>The interface to a sector store\<close>

text \<open>
  What the layers above rely on, on a store that accepts its requests: a
  state has a byte image, a read returns the image of the addressed sectors
  and changes nothing, and a write replaces those sectors and nothing else.
\<close>

locale sector_store =
  fixes rd :: "bytes \<Rightarrow> int \<Rightarrow> ('s, 'e, bytes) st"
    and wr :: "bytes \<Rightarrow> int \<Rightarrow> ('s, 'e, unit) st"
    and img :: "'s \<Rightarrow> int \<Rightarrow> u8"
    and set_img :: "(int \<Rightarrow> u8) \<Rightarrow> 's \<Rightarrow> 's"
    and ok :: "'s \<Rightarrow> bool"
    and addressable :: "int \<Rightarrow> bool"
  assumes rd_ok: "ok s \<Longrightarrow> addressable lba \<Longrightarrow> 512 dvd length buf \<Longrightarrow> length buf < 2 ^ 25 \<Longrightarrow>
      rd buf lba s = (Ok (dump (img s) (512 * lba) (length buf)), s)"
    and wr_ok: "ok s \<Longrightarrow> addressable lba \<Longrightarrow> 512 dvd length buf \<Longrightarrow> length buf < 2 ^ 25 \<Longrightarrow>
      wr buf lba s = (Ok (), set_img (patch (img s) (512 * lba) buf) s)"
    and img_set_img: "ok s \<Longrightarrow> img (set_img f s) = f"
    and ok_set_img: "ok s \<Longrightarrow> ok (set_img f s)"
    and set_img_set_img: "ok s \<Longrightarrow> set_img g (set_img f s) = set_img g s"
begin

lemma write_read:
  assumes "ok s" "addressable lba" "512 dvd length buf" "length buf < 2 ^ 25" "length buf' = length buf"
  shows "bind (wr buf lba) (\<lambda>_. rd buf' lba) s = (Ok buf, set_img (patch (img s) (512 * lba) buf) s)"
  using assms by (simp add: bind_Ok wr_ok rd_ok img_set_img ok_set_img dump_patch_same)

lemma write_read_elsewhere:
  assumes "ok s" "addressable lba" "addressable lba'" "512 dvd length buf" "512 dvd length buf'" "length buf < 2 ^ 25" "length buf' < 2 ^ 25"
    and "512 * lba + int (length buf) \<le> 512 * lba' \<or> 512 * lba' + int (length buf') \<le> 512 * lba"
  shows "fst (bind (wr buf lba) (\<lambda>_. rd buf' lba') s) = fst (rd buf' lba' s)"
  using assms by (simp add: bind_Ok wr_ok rd_ok img_set_img ok_set_img) (subst dump_patch_disjoint; auto)

lemma read_modify_write:
  assumes "ok s" "addressable lba" "512 dvd length buf" "length buf < 2 ^ 25" "i + length new \<le> length buf"
  shows "bind (rd buf lba) (\<lambda>b. wr (splice_at b i new) lba) s =
    (Ok (), set_img (patch (img s) (512 * lba + int i) new) s)"
  using assms by (simp add: bind_Ok wr_ok rd_ok patch_splice)

end

definition reliable :: "device \<Rightarrow> bool" where
  "reliable d \<longleftrightarrow> (\<forall>lba n. read_fault d lba n = None \<and> write_fault d lba n = None)"

definition drive_of :: "Guid \<Rightarrow> storage \<Rightarrow> device option" where
  "drive_of g s = Option.bind (STORAGE_DEVICES_BY_GUID s) (\<lambda>guids.
     Option.bind (guids g) (\<lambda>i. Option.bind (STORAGE_DEVICES_BY_IDX s) (\<lambda>devices. devices i)))"

definition drive_ok :: "Guid \<Rightarrow> storage \<Rightarrow> bool" where
  "drive_ok g s \<longleftrightarrow> (case drive_of g s of None \<Rightarrow> False | Some d \<Rightarrow> reliable d)"

definition drive_img :: "Guid \<Rightarrow> storage \<Rightarrow> int \<Rightarrow> u8" where
  "drive_img g s = content (the (drive_of g s))"

definition set_drive_img :: "Guid \<Rightarrow> (int \<Rightarrow> u8) \<Rightarrow> storage \<Rightarrow> storage" where
  "set_drive_img g f s =
    s \<lparr> STORAGE_DEVICES_BY_IDX := Some ((the (STORAGE_DEVICES_BY_IDX s))
      (the (the (STORAGE_DEVICES_BY_GUID s) g) \<mapsto> (the (drive_of g s)) \<lparr> content := f \<rparr>)) \<rparr>"

lemma drive_okE:
  assumes "drive_ok g s"
  obtains guids i devices d where "STORAGE_DEVICES_BY_GUID s = Some guids" "guids g = Some i"
    "STORAGE_DEVICES_BY_IDX s = Some devices" "devices i = Some d" "reliable d"
    "drive_of g s = Some d"
  using assms by (auto simp: drive_ok_def drive_of_def bind_eq_Some_conv split: option.splits)

lemma whole_sectors_dvd [simp]:
  assumes "512 dvd length buf" "length buf < 2 ^ 25"
  shows "whole_sectors buf = length buf"
proof -
  have "length buf div 512 < 2 ^ 16" using assms(2) by (simp add: less_mult_imp_div_less)
  then show ?thesis using assms(1)
    by (simp add: whole_sectors_def sector_count_def SECTOR_SIZE_def unat_of_nat)
qed

lemma device_lba_id [simp]: "0 \<le> lba \<Longrightarrow> lba < 2 ^ 63 \<Longrightarrow> device_lba d lba = lba"
  by (simp add: device_lba_def uint_word_of_int)

interpretation drive: sector_store "read_sectors_by_guid g" "write_sectors_by_guid g"
    "drive_img g" "set_drive_img g" "drive_ok g" "\<lambda>lba. 0 \<le> lba \<and> lba < 2 ^ 63" for g
proof (unfold_locales, goal_cases)
  case (1 s lba buf)
  then show ?case
    by (elim drive_okE) (simp add: read_sectors_by_guid_def read_sectors_by_idx_def device_read_def
        reliable_def drive_img_def SECTOR_SIZE_def)
next
  case (2 s lba buf)
  then show ?case
    by (elim drive_okE) (simp add: write_sectors_by_guid_def write_sectors_by_idx_def device_write_def
        reliable_def drive_img_def set_drive_img_def SECTOR_SIZE_def)
next
  case (3 s f)
  then show ?case by (elim drive_okE) (simp add: drive_img_def set_drive_img_def drive_of_def)
next
  case (4 s f)
  then show ?case
    by (elim drive_okE) (simp add: drive_ok_def set_drive_img_def drive_of_def reliable_def)
next
  case (5 s g f)
  then show ?case by (elim drive_okE) (simp add: set_drive_img_def drive_of_def)
qed

end
