(* ===== verification/Gpt.thy ===== *)
theory Gpt
  imports Crc32 Storage
begin

text \<open>
  The partition table reader of \<^verbatim>\<open>hal/gpt.rs\<close>: the packed header and entry,
  the presence test, the checked read of one copy of the table and the choice
  between the primary and the backup copy.  The log output is left out, and
  an I/O error carries the storage error instead of its message.
\<close>

section \<open>Structures\<close>

record GPTHeader =
  gh_sig :: bytes
  gh_revision :: u32
  gh_size :: u32
  gh_header_crc32 :: u32
  gh_reserved :: u32
  gh_loc :: u64
  gh_backup_loc :: u64
  gh_first_usable_block :: u64
  gh_last_usable_block :: u64
  gh_guid :: bytes
  gh_array_start :: u64
  gh_entry_num :: u32
  gh_entry_size :: u32
  gh_array_crc32 :: u32

record GPTEntry =
  ge_type_guid :: bytes
  ge_unique_guid :: bytes
  ge_start_lba :: u64
  ge_end_lba :: u64
  ge_flags :: u64
  ge_name1 :: "u16 list"
  ge_name2 :: "u16 list"

datatype GPTErr = GptBufferTooSmall | GPTAlreadyExist | GPTNonExist | GPTCorrupted
  | BadArrayEntrySize | NoFreeSlot | OverlappingPartition | InvalidLBARange | InvalidEntryIndex
  | EntryAlreadyEmpty | GptNameTooLong | GptSerializationErr | GptIo HalStorageOperationErr
  | GptDriveDidntRespond

definition gpt_header_bytes :: "GPTHeader \<Rightarrow> bytes" where
  "gpt_header_bytes h = concat [gh_sig h, to_le (gh_revision h), to_le (gh_size h),
     to_le (gh_header_crc32 h), to_le (gh_reserved h), to_le (gh_loc h), to_le (gh_backup_loc h),
     to_le (gh_first_usable_block h), to_le (gh_last_usable_block h), gh_guid h,
     to_le (gh_array_start h), to_le (gh_entry_num h), to_le (gh_entry_size h),
     to_le (gh_array_crc32 h)]"

definition gpt_header_of :: "bytes \<Rightarrow> GPTHeader" where
  "gpt_header_of b = \<lparr> gh_sig = sub_list b 0 8, gh_revision = from_le (sub_list b 8 12),
     gh_size = from_le (sub_list b 12 16), gh_header_crc32 = from_le (sub_list b 16 20),
     gh_reserved = from_le (sub_list b 20 24), gh_loc = from_le (sub_list b 24 32),
     gh_backup_loc = from_le (sub_list b 32 40), gh_first_usable_block = from_le (sub_list b 40 48),
     gh_last_usable_block = from_le (sub_list b 48 56), gh_guid = sub_list b 56 72,
     gh_array_start = from_le (sub_list b 72 80), gh_entry_num = from_le (sub_list b 80 84),
     gh_entry_size = from_le (sub_list b 84 88), gh_array_crc32 = from_le (sub_list b 88 92) \<rparr>"

definition gpt_header_guid :: "GPTHeader \<Rightarrow> Guid" where
  "gpt_header_guid h = guid_from_bytes (gh_guid h)"

definition u16s_of :: "bytes \<Rightarrow> nat \<Rightarrow> u16 list" where
  "u16s_of b n = map (\<lambda>i. from_le (sub_list b (2 * i) (2 * i + 2))) [0..<n]"

definition gpt_entry_bytes :: "GPTEntry \<Rightarrow> bytes" where
  "gpt_entry_bytes g = concat [ge_type_guid g, ge_unique_guid g, to_le (ge_start_lba g),
     to_le (ge_end_lba g), to_le (ge_flags g), concat (map to_le (ge_name1 g)),
     concat (map to_le (ge_name2 g))]"

definition gpt_entry_of :: "bytes \<Rightarrow> GPTEntry" where
  "gpt_entry_of b = \<lparr> ge_type_guid = sub_list b 0 16, ge_unique_guid = sub_list b 16 32,
     ge_start_lba = from_le (sub_list b 32 40), ge_end_lba = from_le (sub_list b 40 48),
     ge_flags = from_le (sub_list b 48 56), ge_name1 = u16s_of (sub_list b 56 120) 32,
     ge_name2 = u16s_of (sub_list b 120 128) 4 \<rparr>"

definition gpt_entry_is_empty :: "GPTEntry \<Rightarrow> bool" where
  "gpt_entry_is_empty g \<longleftrightarrow> ge_start_lba g = 0"

definition gpt_type_guid :: "GPTEntry \<Rightarrow> Guid" where
  "gpt_type_guid g = guid_from_bytes (ge_type_guid g)"

definition gpt_unique_guid :: "GPTEntry \<Rightarrow> Guid" where
  "gpt_unique_guid g = guid_from_bytes (ge_unique_guid g)"

text \<open>\<^verbatim>\<open>char::from_u32\<close> rejects the surrogates; the name is its list of code points.\<close>

definition get_name :: "GPTEntry \<Rightarrow> u16 list" where
  "get_name g = map (\<lambda>c. if 0xD800 \<le> c \<and> c \<le> 0xDFFF then 32 else c)
     (filter (\<lambda>c. c \<noteq> 0) (ge_name1 g @ ge_name2 g))"

section \<open>Reading\<close>

definition GPT_SIGNATURE :: bytes where
  "GPT_SIGNATURE = [0x45, 0x46, 0x49, 0x20, 0x50, 0x41, 0x52, 0x54]"

definition GPT_HEADER_LEN :: nat where
  "GPT_HEADER_LEN = 92"

definition gpt_read_sectors :: "nat \<Rightarrow> int \<Rightarrow> bytes \<Rightarrow> (storage, HalStorageOperationErr, bytes) st" where
  "gpt_read_sectors idx lba buf = read_sectors_by_idx idx buf lba"

text \<open>The header check clears the stored checksum in the buffer it is given.\<close>

definition is_valid_header :: "bytes \<Rightarrow> (GPTErr, bool \<times> bytes) res" where
  "is_valid_header buf =
    (if length buf < GPT_HEADER_LEN then Panic
     else let header = gpt_header_of (take GPT_HEADER_LEN buf);
              crc = gh_header_crc32 header;
              header = header \<lparr> gh_header_crc32 := 0 \<rparr>
          in Ok (is_verified_crc32 (gpt_header_bytes header) crc, splice_at buf 0 (gpt_header_bytes header)))"

definition is_present_at :: "nat \<Rightarrow> int \<Rightarrow> (storage, GPTErr, bool) st" where
  "is_present_at idx lba s =
    (case gpt_read_sectors idx lba (replicate 512 0) s of
       (Ok buf, s) \<Rightarrow> (Ok (take 8 buf = GPT_SIGNATURE), s)
     | (Err _, s) \<Rightarrow> (Ok False, s)
     | (Panic, s) \<Rightarrow> (Panic, s)
     | (Diverge, s) \<Rightarrow> (Diverge, s))"

definition is_gpt_present :: "nat \<Rightarrow> (storage, GPTErr, bool) st" where
  "is_gpt_present idx =
     bind (is_present_at idx 1) (\<lambda>normal.
     if normal then ret True
     else bind (is_present_at idx (- 1)) (\<lambda>backup. ret (normal \<or> backup)))"

definition is_power_of_two :: "u32 \<Rightarrow> bool" where
  "is_power_of_two w \<longleftrightarrow> w \<noteq> 0 \<and> w AND (w - 1) = 0"

fun chunks :: "nat \<Rightarrow> nat \<Rightarrow> 'a list \<Rightarrow> 'a list list" where
  "chunks 0 n xs = []"
| "chunks (Suc fuel) n xs = (if xs = [] then [] else take n xs # chunks fuel n (drop n xs))"

fun entries_of :: "bytes list \<Rightarrow> (GPTErr, GPTEntry list) res" where
  "entries_of [] = Ok []"
| "entries_of (c # cs) =
    (if length c < 128 then Panic
     else bind_res (entries_of cs) (\<lambda>es. Ok (gpt_entry_of (take 128 c) # es)))"

definition get_table :: "nat \<Rightarrow> int \<Rightarrow> bool \<Rightarrow> (storage, GPTErr, GPTHeader \<times> GPTEntry list) st" where
  "get_table idx lba is_backup =
     bind (map_err_st GptIo (gpt_read_sectors idx lba (replicate 512 0))) (\<lambda>header_buf.
     bind (lift_res (is_valid_header header_buf)) (\<lambda>(ok, header_buf).
     if \<not> ok then fail GPTCorrupted
     else
       let result_header = gpt_header_of (take GPT_HEADER_LEN header_buf);
           entry_size = gh_entry_size result_header;
           bytes_total = gh_entry_num result_header * entry_size
       in if \<not> is_power_of_two (entry_size div 128) then fail BadArrayEntrySize
       else
         let arr_block_count = uint (bytes_total div 512 + (if bytes_total mod 512 = 0 then 0 else 1));
             arr_lba = (if is_backup then - 1 - arr_block_count else sint (gh_array_start result_header));
             arr_sectors = ucast (bytes_total div 512) :: u16;
             arr_buf = replicate (unat arr_sectors * 512) 0
         in bind (map_err_st GptIo (gpt_read_sectors idx arr_lba arr_buf)) (\<lambda>buffer.
            if \<not> is_verified_crc32 buffer (gh_array_crc32 result_header) then fail GPTCorrupted
            else bind (lift_res (entries_of (chunks (length buffer) (unat entry_size) buffer)))
              (\<lambda>result_array. ret (result_header, result_array)))))"

text \<open>Both copies are read before the choice; a panic while reading either is a panic.\<close>

definition read_gpt :: "nat \<Rightarrow> (storage, GPTErr, GPTHeader \<times> GPTEntry list) st" where
  "read_gpt idx =
     bind (is_gpt_present idx) (\<lambda>present.
     if \<not> present then fail GPTNonExist
     else (\<lambda>s. case get_table idx 1 False s of
         (Panic, s) \<Rightarrow> (Panic, s)
       | (Diverge, s) \<Rightarrow> (Diverge, s)
       | (primary_result, s) \<Rightarrow> (case get_table idx (- 1) True s of
           (Panic, s) \<Rightarrow> (Panic, s)
         | (Diverge, s) \<Rightarrow> (Diverge, s)
         | (backup_result, s) \<Rightarrow> (case primary_result of
             Ok primary \<Rightarrow> (Ok primary, s)
           | _ \<Rightarrow> (case backup_result of
               Ok backup \<Rightarrow> (Ok backup, s)
             | _ \<Rightarrow> (Err GPTCorrupted, s))))))"

section \<open>Byte images\<close>

definition wf_gpt_header :: "GPTHeader \<Rightarrow> bool" where
  "wf_gpt_header h \<longleftrightarrow> length (gh_sig h) = 8 \<and> length (gh_guid h) = 16"

definition wf_gpt_entry :: "GPTEntry \<Rightarrow> bool" where
  "wf_gpt_entry g \<longleftrightarrow> length (ge_type_guid g) = 16 \<and> length (ge_unique_guid g) = 16 \<and>
     length (ge_name1 g) = 32 \<and> length (ge_name2 g) = 4"

lemma length_gpt_header_bytes [simp]: "wf_gpt_header h \<Longrightarrow> length (gpt_header_bytes h) = 92"
  by (simp add: gpt_header_bytes_def wf_gpt_header_def)

lemma gpt_header_of_bytes: "wf_gpt_header h \<Longrightarrow> gpt_header_of (gpt_header_bytes h) = h"
  by (simp add: gpt_header_of_def gpt_header_bytes_def wf_gpt_header_def pod_simps)

lemma gpt_header_clear_crc:
  assumes "length b = 92"
  shows "gpt_header_bytes ((gpt_header_of b) \<lparr> gh_header_crc32 := 0 \<rparr>) = splice_at b 16 (to_le (0 :: u32))"
  using assms
  by (simp add: gpt_header_bytes_def gpt_header_of_def to_le_from_le_word splice_at_def sub_list_join)
    (simp add: sub_list_def)

lemma length_concat_to_le: "length (concat (map to_le (xs :: u16 list))) = 2 * length xs"
  by (induction xs) simp_all

lemma u16s_of_images: "u16s_of (concat (map to_le xs)) (length xs) = xs"
proof (induction xs)
  case (Cons x xs)
  have "u16s_of (concat (map to_le (x # xs))) (length (x # xs)) =
      x # u16s_of (concat (map to_le xs)) (length xs)"
    unfolding u16s_of_def by (simp add: upt_conv_Cons pod_simps map_Suc_upt [symmetric] del: upt_Suc)
  with Cons show ?case by simp
qed (simp add: u16s_of_def)

lemma length_gpt_entry_bytes [simp]: "wf_gpt_entry g \<Longrightarrow> length (gpt_entry_bytes g) = 128"
  by (simp add: gpt_entry_bytes_def wf_gpt_entry_def length_concat_to_le)

lemma gpt_entry_of_bytes: "wf_gpt_entry g \<Longrightarrow> gpt_entry_of (gpt_entry_bytes g) = g"
  using u16s_of_images [of "ge_name1 g"] u16s_of_images [of "ge_name2 g"]
  by (simp add: gpt_entry_of_def gpt_entry_bytes_def wf_gpt_entry_def pod_simps length_concat_to_le)

lemma chunks_concat:
  assumes "0 < n" "\<forall>c\<in>set cs. length c = n" "length cs \<le> fuel"
  shows "chunks fuel n (concat cs) = cs"
  using assms
proof (induction fuel arbitrary: cs)
  case (Suc fuel)
  then show ?case by (cases cs) auto
qed simp

lemma entries_of_images:
  "\<forall>g\<in>set es. wf_gpt_entry g \<Longrightarrow> entries_of (map gpt_entry_bytes es) = Ok es"
  by (induction es) (simp_all add: gpt_entry_of_bytes)

section \<open>A table on a device\<close>

text \<open>
  A device holds a table when the sealed header, whose checksum was computed
  with its own field cleared, is in one place and the entries in another.
\<close>

definition seal :: "GPTHeader \<Rightarrow> GPTHeader" where
  "seal h = h \<lparr> gh_header_crc32 := full_crc (gpt_header_bytes (h \<lparr> gh_header_crc32 := 0 \<rparr>)) \<rparr>"

definition wf_table :: "GPTHeader \<Rightarrow> GPTEntry list \<Rightarrow> bool" where
  "wf_table h es \<longleftrightarrow> wf_gpt_header h \<and> list_all wf_gpt_entry es \<and> gh_entry_size h = 128 \<and>
     unat (gh_entry_num h) = length es \<and> 4 dvd length es \<and> length es < 2 ^ 18 \<and>
     gh_array_crc32 h = full_crc (concat (map gpt_entry_bytes es))"

definition table_on :: "device \<Rightarrow> int \<Rightarrow> int \<Rightarrow> GPTHeader \<Rightarrow> GPTEntry list \<Rightarrow> bool" where
  "table_on d lba arr h es \<longleftrightarrow> wf_table h es \<and>
     dump (content d) (512 * lba) 92 = gpt_header_bytes (seal h) \<and>
     dump (content d) (512 * arr) (128 * length es) = concat (map gpt_entry_bytes es)"

definition device_at :: "storage \<Rightarrow> nat \<Rightarrow> device \<Rightarrow> bool" where
  "device_at s idx d \<longleftrightarrow> reliable d \<and>
     (\<exists>devices. STORAGE_DEVICES_BY_IDX s = Some devices \<and> devices idx = Some d)"

lemma gpt_read_sectors_ok:
  assumes "device_at s idx d" "512 dvd length buf" "length buf < 2 ^ 25"
  shows "gpt_read_sectors idx lba buf s =
    (Ok (dump (content d) (512 * device_lba d lba) (length buf)), s)"
  using assms by (auto simp: device_at_def reliable_def gpt_read_sectors_def read_sectors_by_idx_def
      device_read_def SECTOR_SIZE_def)

lemma take_dump: "n \<le> m \<Longrightarrow> take n (dump f a m) = dump f a n"
  by (rule nth_equalityI) simp_all

lemma wf_seal: "wf_gpt_header h \<Longrightarrow> wf_gpt_header (seal h)"
  by (simp add: wf_gpt_header_def seal_def)

lemma is_valid_header_dump:
  fixes f a
  assumes "92 \<le> n"
  defines "h \<equiv> gpt_header_of (dump f a 92)"
  shows "is_valid_header (dump f a n) =
    Ok (is_verified_crc32 (gpt_header_bytes (h \<lparr> gh_header_crc32 := 0 \<rparr>)) (gh_header_crc32 h),
        splice_at (dump f a n) 0 (gpt_header_bytes (h \<lparr> gh_header_crc32 := 0 \<rparr>)))"
  using assms by (simp add: is_valid_header_def GPT_HEADER_LEN_def take_dump Let_def)

lemma table_sizes:
  assumes "wf_table h es" "length es = 4 * k"
  defines "b \<equiv> gh_entry_num h * 128"
  shows "b mod 512 = 0" and "uint (b div 512) = int k" and "unat (ucast (b div 512) :: u16) = k" and "k < 65536"
proof -
  have es: "unat (gh_entry_num h) = 4 * k" "4 * k < 2 ^ 18"
    using assms by (auto simp: wf_table_def)
  then have b: "unat b = 512 * k"
    by (simp add: b_def unat_word_ariths)
  show "b mod 512 = 0"
    by (rule word_unat_eq_iff [THEN iffD2]) (simp add: unat_mod b)
  have d: "unat (b div 512) = k" by (simp add: unat_div b)
  then show "uint (b div 512) = int k"
    using arg_cong [OF d, of int] by simp
  show "unat (ucast (b div 512) :: u16) = k"
    using d es(2) by (simp add: unsigned_ucast_eq take_bit_nat_eq_self)
  show "k < 65536" using es(2) by simp
qed

definition array_lba :: "bool \<Rightarrow> GPTHeader \<Rightarrow> GPTEntry list \<Rightarrow> int" where
  "array_lba is_backup h es =
    (if is_backup then - 1 - int (length es div 4) else sint (gh_array_start h))"

lemma sealed_header_valid:
  assumes "wf_gpt_header h" "dump f a 92 = gpt_header_bytes (seal h)" "92 \<le> n"
  shows "is_valid_header (dump f a n) =
    Ok (True, splice_at (dump f a n) 0 (gpt_header_bytes (h \<lparr> gh_header_crc32 := 0 \<rparr>)))"
proof -
  have "gpt_header_of (dump f a 92) = seal h"
    using assms by (simp add: gpt_header_of_bytes wf_seal)
  then show ?thesis
    using assms by (simp add: is_valid_header_dump seal_def is_verified_crc32_def)
qed

text \<open>Behind a sealed header, the array is read where the header says and checked.\<close>

lemma get_table_sealed:
  fixes is_backup :: bool
  assumes "device_at s idx d" "wf_table h es"
    and "dump (content d) (512 * device_lba d lba) 92 = gpt_header_bytes (seal h)"
  defines "A \<equiv> dump (content d) (512 * device_lba d (array_lba is_backup h es)) (128 * length es)"
  shows "get_table idx lba is_backup s =
    (if is_verified_crc32 A (gh_array_crc32 h)
     then bind (lift_res (entries_of (chunks (length A) 128 A))) (\<lambda>es. ret (h \<lparr> gh_header_crc32 := 0 \<rparr>, es))
     else fail GPTCorrupted) s"
proof -
  define h0 where "h0 = h \<lparr> gh_header_crc32 := 0 \<rparr>"
  have wf: "wf_gpt_header h" "4 dvd length es" and wf0: "wf_gpt_header h0" "wf_table h0 es"
    using assms(2) by (auto simp: wf_table_def wf_gpt_header_def h0_def)
  then obtain k where k: "length es = 4 * k" by blast
  let ?buf = "splice_at (dump (content d) (512 * device_lba d lba) 512) 0 (gpt_header_bytes h0)"
  have header: "is_valid_header (dump (content d) (512 * device_lba d lba) 512) = Ok (True, ?buf)"
      "gpt_header_of (take 92 ?buf) = h0"
    using sealed_header_valid [OF wf(1) assms(3)] wf0
    by (simp_all add: h0_def splice_at_def gpt_header_of_bytes)
  have fields: "gh_entry_size h0 = 128" "gh_array_crc32 h0 = gh_array_crc32 h"
    using wf0 by (auto simp: wf_table_def h0_def)
  have array: "A = dump (content d) (512 * device_lba d
      (if is_backup then - 1 - int k else sint (gh_array_start h0))) (k * 512)"
    using k by (simp add: A_def array_lba_def h0_def mult.commute)
  show ?thesis
    unfolding h0_def [symmetric] get_table_def array
    by (simp add: bind_def map_err_st_def GPT_HEADER_LEN_def Let_def is_power_of_two_def
        header fields gpt_read_sectors_ok [OF assms(1)] table_sizes [OF wf0(2) k])
qed

lemma get_table_ok:
  assumes "device_at s idx d"
    and "table_on d (device_lba d lba) (device_lba d (array_lba is_backup h es)) h es"
  shows "get_table idx lba is_backup s = (Ok (h \<lparr> gh_header_crc32 := 0 \<rparr>, es), s)"
proof -
  note t = assms(2) [unfolded table_on_def]
  have wf: "wf_table h es" "list_all wf_gpt_entry es" "gh_array_crc32 h = full_crc (concat (map gpt_entry_bytes es))"
    using t by (auto simp: wf_table_def)
  have len: "length (concat (map gpt_entry_bytes es)) = 128 * length es"
    using wf(2) by (induction es) simp_all
  have "entries_of (chunks (128 * length es) 128 (concat (map gpt_entry_bytes es))) = Ok es"
    using wf(2) by (subst chunks_concat) (auto simp: entries_of_images list_all_iff)
  then show ?thesis
    using get_table_sealed [OF assms(1) wf(1), of lba is_backup] t wf(3) len
    by (simp add: is_verified_crc32_def bind_def)
qed

section \<open>Damage\<close>

text \<open>
  A header damaged in up to four consecutive bytes, which are either all outside or all inside its
  checksum field; and an array of entries damaged in up to four consecutive bytes.
\<close>

definition damaged_header :: "GPTHeader \<Rightarrow> nat \<Rightarrow> bytes \<Rightarrow> bytes \<Rightarrow> bool" where
  "damaged_header h i bad b \<longleftrightarrow> wf_gpt_header h \<and> length bad \<le> 4 \<and> i + length bad \<le> 92 \<and>
     (i + length bad \<le> 16 \<or> 20 \<le> i \<or> 16 \<le> i \<and> i + length bad \<le> 20) \<and>
     bad \<noteq> sub_list (gpt_header_bytes (seal h)) i (i + length bad) \<and>
     b = splice_at (gpt_header_bytes (seal h)) i bad"

definition damaged_array :: "GPTEntry list \<Rightarrow> nat \<Rightarrow> bytes \<Rightarrow> bytes \<Rightarrow> bool" where
  "damaged_array es i bad b \<longleftrightarrow> length bad \<le> 4 \<and> i + length bad \<le> 128 * length es \<and>
     bad \<noteq> sub_list (concat (map gpt_entry_bytes es)) i (i + length bad) \<and>
     b = splice_at (concat (map gpt_entry_bytes es)) i bad"

definition damaged_table :: "device \<Rightarrow> int \<Rightarrow> int \<Rightarrow> GPTHeader \<Rightarrow> GPTEntry list \<Rightarrow> nat \<Rightarrow> bytes \<Rightarrow> bool" where
  "damaged_table d lba arr h es i bad \<longleftrightarrow> wf_table h es \<and>
     (damaged_header h i bad (dump (content d) (512 * lba) 92) \<or>
      dump (content d) (512 * lba) 92 = gpt_header_bytes (seal h) \<and>
      damaged_array es i bad (dump (content d) (512 * arr) (128 * length es)))"

lemma splice_at_commute:
  assumes "i + length a \<le> j \<or> j + length b \<le> i" "i + length a \<le> length xs" "j + length b \<le> length xs"
  shows "splice_at (splice_at xs i a) j b = splice_at (splice_at xs j b) i a"
  using assms by (intro nth_equalityI) (auto simp: nth_splice_at)

lemma splice_at_split: "i + length bad \<le> length xs \<Longrightarrow>
    xs = take i xs @ sub_list xs i (i + length bad) @ drop (i + length bad) xs \<and>
    splice_at xs i bad = take i xs @ bad @ drop (i + length bad) xs"
  by (simp add: sub_list_def splice_at_def) (metis append_take_drop_id drop_drop add.commute)

text \<open>The checksum of a buffer changes with any few consecutive bytes.\<close>

lemma full_crc_splice:
  assumes "length bad \<le> 4" "i + length bad \<le> length xs" "bad \<noteq> sub_list xs i (i + length bad)"
  shows "full_crc (splice_at xs i bad) \<noteq> full_crc xs"
  using full_crc_burst [of "sub_list xs i (i + length bad)" bad "take i xs" "drop (i + length bad) xs"]
    splice_at_split [OF assms(2)] assms by (metis length_sub_list add_diff_cancel_left' le_add1)

lemma sealed_bytes:
  assumes "wf_gpt_header h"
  defines "S \<equiv> gpt_header_bytes (seal h)"
  shows "length S = 92" "gpt_header_of S = seal h"
    "splice_at S 16 (to_le (0 :: u32)) = gpt_header_bytes (h \<lparr> gh_header_crc32 := 0 \<rparr>)"
    "gh_header_crc32 (gpt_header_of S) = full_crc (splice_at S 16 (to_le (0 :: u32)))"
proof -
  show l: "length S = 92" and o: "gpt_header_of S = seal h"
    using assms(1) by (simp_all add: S_def wf_seal gpt_header_of_bytes)
  show z: "splice_at S 16 (to_le (0 :: u32)) = gpt_header_bytes (h \<lparr> gh_header_crc32 := 0 \<rparr>)"
    unfolding gpt_header_clear_crc [OF l, symmetric] o by (simp add: seal_def)
  show "gh_header_crc32 (gpt_header_of S) = full_crc (splice_at S 16 (to_le (0 :: u32)))"
    unfolding z o by (simp add: seal_def)
qed

lemma damaged_outside:
  assumes "length S = 92" "gh_header_crc32 (gpt_header_of S) = full_crc (splice_at S 16 (to_le (0 :: u32)))"
    and "length bad \<le> 4" "i + length bad \<le> 92" "i + length bad \<le> 16 \<or> 20 \<le> i" "bad \<noteq> sub_list S i (i + length bad)"
  shows "gh_header_crc32 (gpt_header_of (splice_at S i bad)) \<noteq> full_crc (splice_at (splice_at S i bad) 16 (to_le (0 :: u32)))"
proof -
  let ?G = "splice_at S 16 (to_le (0 :: u32))"
  have "gh_header_crc32 (gpt_header_of (splice_at S i bad)) = gh_header_crc32 (gpt_header_of S)"
    unfolding gpt_header_of_def using assms(1,4,5)
    by (simp add: sub_list_splice_before sub_list_splice_after) (metis sub_list_splice_after sub_list_splice_before assms(1))
  moreover have "splice_at (splice_at S i bad) 16 (to_le (0 :: u32)) = splice_at ?G i bad"
    using assms(1,4,5) splice_at_commute [of i bad 16 "to_le (0 :: u32)" S] by simp
  moreover have "sub_list ?G i (i + length bad) = sub_list S i (i + length bad)"
    using assms(1,5) by (auto simp: sub_list_splice_before sub_list_splice_after)
  ultimately show ?thesis
    using full_crc_splice [OF assms(3), of i ?G] assms by auto
qed

lemma damaged_inside:
  assumes "length S = 92" "gh_header_crc32 (gpt_header_of S) = full_crc (splice_at S 16 (to_le (0 :: u32)))"
    and "16 \<le> i" "i + length bad \<le> 20" "bad \<noteq> sub_list S i (i + length bad)"
  shows "gh_header_crc32 (gpt_header_of (splice_at S i bad)) \<noteq> full_crc (splice_at (splice_at S i bad) 16 (to_le (0 :: u32)))"
proof -
  let ?D = "splice_at S i bad"
  have z: "splice_at ?D 16 (to_le (0 :: u32)) = splice_at S 16 (to_le (0 :: u32))"
    using assms(1,3,4) by (intro nth_equalityI) (auto simp: nth_splice_at)
  have "sub_list ?D 16 20 \<noteq> sub_list S 16 20"
  proof
    assume "sub_list ?D 16 20 = sub_list S 16 20"
    then have "sub_list (sub_list ?D 16 20) (i - 16) (i + length bad - 16) =
        sub_list (sub_list S 16 20) (i - 16) (i + length bad - 16)" by simp
    moreover have "sub_list (sub_list xs 16 20) (i - 16) (i + length bad - 16) = sub_list xs i (i + length bad)"
      if "length xs = 92" for xs :: bytes
      using that assms(3,4) by (simp add: sub_list_def drop_take min_def)
    ultimately show False using assms by (simp add: splice_at_def sub_list_def)
  qed
  moreover have "inj_on (from_le :: bytes \<Rightarrow> u32) {b. length b = 4}"
    by (rule inj_on_inverseI [of _ to_le]) (simp add: to_le_from_le_word)
  ultimately have "(from_le (sub_list ?D 16 20) :: u32) \<noteq> from_le (sub_list S 16 20)"
    using assms(1,4) by (auto dest!: inj_onD simp: sub_list_def)
  then show ?thesis using assms(2) by (simp add: z gpt_header_of_def)
qed

lemma damaged_header_rejected:
  assumes "damaged_header h i bad (dump f a 92)" "92 \<le> n"
  shows "\<exists>b. is_valid_header (dump f a n) = Ok (False, b)"
proof -
  define S where "S = gpt_header_bytes (seal h)"
  have d: "wf_gpt_header h" "dump f a 92 = splice_at S i bad" "bad \<noteq> sub_list S i (i + length bad)"
    using assms(1) by (auto simp: damaged_header_def S_def)
  note S = sealed_bytes [OF d(1), folded S_def]
  have "gh_header_crc32 (gpt_header_of (splice_at S i bad)) \<noteq> full_crc (splice_at (splice_at S i bad) 16 (to_le (0 :: u32)))"
    using assms(1) damaged_outside [OF S(1,4) _ _ _ d(3)] damaged_inside [OF S(1,4) _ _ d(3)]
    by (auto simp: damaged_header_def)
  moreover have "length (splice_at S i bad) = 92" unfolding d(2) [symmetric] by simp
  ultimately show ?thesis
    using assms(2) d(2) gpt_header_clear_crc [of "splice_at S i bad"]
    by (simp add: is_valid_header_dump is_verified_crc32_def)
qed

lemma get_table_damaged:
  assumes "device_at s idx d"
    and "damaged_table d (device_lba d lba) (device_lba d (array_lba is_backup h es)) h es i bad"
  shows "get_table idx lba is_backup s = (Err GPTCorrupted, s)"
proof (cases "damaged_header h i bad (dump (content d) (512 * device_lba d lba) 92)")
  case True
  obtain b where "is_valid_header (dump (content d) (512 * device_lba d lba) 512) = Ok (False, b)"
    using damaged_header_rejected [OF True, of 512] by auto
  then show ?thesis
    by (simp add: get_table_def bind_def map_err_st_def gpt_read_sectors_ok [OF assms(1)])
next
  case False
  let ?E = "concat (map gpt_entry_bytes es)"
  have d: "wf_table h es" "dump (content d) (512 * device_lba d lba) 92 = gpt_header_bytes (seal h)"
    "damaged_array es i bad (dump (content d) (512 * device_lba d (array_lba is_backup h es)) (128 * length es))"
    using assms(2) False by (auto simp: damaged_table_def)
  have "list_all wf_gpt_entry es" using d(1) by (simp add: wf_table_def)
  then have "length ?E = 128 * length es" by (induction es) simp_all
  then have "full_crc (splice_at ?E i bad) \<noteq> gh_array_crc32 h"
    using d(1,3) full_crc_splice [of bad i ?E] by (auto simp: damaged_array_def wf_table_def)
  then show ?thesis
    using get_table_sealed [OF assms(1) d(1,2), of is_backup] d(3)
    by (simp add: damaged_array_def is_verified_crc32_def)
qed

lemma take8_signature:
  assumes "dump f a 92 = gpt_header_bytes (seal h)" "wf_gpt_header h" "8 \<le> n"
  shows "take 8 (dump f a n) = gh_sig h"
proof -
  have "take 8 (dump f a n) = take 8 (dump f a 92)" using assms(3) by (simp add: take_dump)
  also have "\<dots> = gh_sig h"
    using assms(2) unfolding assms(1) by (simp add: gpt_header_bytes_def wf_gpt_header_def seal_def)
  finally show ?thesis .
qed

lemma is_present_at_eq:
  "device_at s idx d \<Longrightarrow> is_present_at idx lba s =
    (Ok (take 8 (dump (content d) (512 * device_lba d lba) 512) = GPT_SIGNATURE), s)"
  by (simp add: is_present_at_def gpt_read_sectors_ok)

lemma is_gpt_present_backup:
  assumes "device_at s idx d" "table_on d (device_lba d (- 1)) arr h es" "gh_sig h = GPT_SIGNATURE"
  shows "is_gpt_present idx s = (Ok True, s)"
  using assms take8_signature [of "content d" "512 * device_lba d (- 1)" h 512]
  by (auto simp: is_gpt_present_def bind_def is_present_at_eq table_on_def wf_table_def)

section \<open>Properties\<close>

text \<open>A ten-sector drive with four empty entries, used by the witnesses below.\<close>

definition sample_entries :: "GPTEntry list" where
  "sample_entries = replicate 4 \<lparr> ge_type_guid = replicate 16 0, ge_unique_guid = replicate 16 0,
     ge_start_lba = 0, ge_end_lba = 0, ge_flags = 0, ge_name1 = replicate 32 0,
     ge_name2 = replicate 4 0 \<rparr>"

definition sample_header :: GPTHeader where
  "sample_header = \<lparr> gh_sig = GPT_SIGNATURE, gh_revision = 0x10000, gh_size = 92,
     gh_header_crc32 = 0, gh_reserved = 0, gh_loc = 1, gh_backup_loc = 9,
     gh_first_usable_block = 3, gh_last_usable_block = 7, gh_guid = replicate 16 0,
     gh_array_start = 2, gh_entry_num = 4, gh_entry_size = 128,
     gh_array_crc32 = full_crc (concat (map gpt_entry_bytes sample_entries)) \<rparr>"

abbreviation sample_array :: bytes where
  "sample_array \<equiv> concat (map gpt_entry_bytes sample_entries)"

definition sample_drive :: "bytes \<Rightarrow> bytes \<Rightarrow> device" where
  "sample_drive header array = \<lparr> sectors = 10,
     content = patch (patch (patch (patch (\<lambda>_. 0) 512 header) 1024 array) 4096 sample_array)
       4608 (gpt_header_bytes (seal sample_header)),
     read_fault = (\<lambda>_ _. None), write_fault = (\<lambda>_ _. None) \<rparr>"

definition sample_storage :: "bytes \<Rightarrow> bytes \<Rightarrow> storage" where
  "sample_storage header array = \<lparr> STORAGE_DEVICES_BY_IDX = Some [0 \<mapsto> sample_drive header array],
     STORAGE_DEVICES_BY_GUID = Some Map.empty \<rparr>"

lemma sample_device_at: "device_at (sample_storage p q) 0 (sample_drive p q)"
  by (simp add: device_at_def sample_storage_def reliable_def sample_drive_def)

lemma length_sample_array: "length sample_array = 512"
  by (simp add: sample_entries_def eval_nat_numeral wf_gpt_entry_def)

lemma wf_sample: "wf_table sample_header sample_entries" "wf_gpt_header sample_header"
  by (simp_all add: wf_table_def wf_gpt_header_def sample_header_def GPT_SIGNATURE_def
      sample_entries_def wf_gpt_entry_def list_all_iff)

lemma sample_lbas: "device_lba (sample_drive p q) (- 1) = 9"
    "device_lba (sample_drive p q) (array_lba True sample_header sample_entries) = 8"
    "device_lba (sample_drive p q) (array_lba False sample_header sample_entries) = 2"
  by (simp_all add: device_lba_def sample_drive_def array_lba_def sample_entries_def sample_header_def)

lemma length_sample_entries: "length sample_entries = 4"
  by (simp add: sample_entries_def)

lemma sample_dumps:
  assumes "length p = 92" "length q = 512"
  shows "dump (content (sample_drive p q)) 512 92 = p" "dump (content (sample_drive p q)) 1024 512 = q"
    "dump (content (sample_drive p q)) 4096 512 = sample_array"
    "dump (content (sample_drive p q)) 4608 92 = gpt_header_bytes (seal sample_header)"
  using assms length_sample_array wf_sample
  by (simp_all add: sample_drive_def dump_patch_same dump_patch_disjoint wf_seal)

lemma sample_backup:
  "length p = 92 \<Longrightarrow> length q = 512 \<Longrightarrow> table_on (sample_drive p q) (device_lba (sample_drive p q) (- 1))
     (device_lba (sample_drive p q) (array_lba True sample_header sample_entries)) sample_header sample_entries"
  using wf_sample by (simp add: table_on_def sample_lbas sample_dumps length_sample_entries)

lemma length_sealed_sample: "length (gpt_header_bytes (seal sample_header)) = 92"
  using wf_sample by (simp add: wf_seal)

text \<open>C22. A drive that holds the two copies of a partition table, each with its checksums, is
  read as the primary table: the header with its checksum field cleared and exactly the
  entries that were written.\<close>

theorem read_gpt_written_table:
  assumes "device_at s idx d" "gh_sig hb = GPT_SIGNATURE"
    and "table_on d 1 (device_lba d (array_lba False h es)) h es"
    and "table_on d (device_lba d (- 1)) (device_lba d (array_lba True hb esb)) hb esb"
  shows "read_gpt idx s = (Ok (h \<lparr> gh_header_crc32 := 0 \<rparr>, es), s)"
  using assms get_table_ok [OF assms(1), of 1 False h es] get_table_ok [OF assms(1,4)]
    is_gpt_present_backup [OF assms(1,4,2)]
  by (simp add: read_gpt_def bind_def device_lba_def)

theorem read_gpt_written_table_witness:
  "read_gpt 0 (sample_storage (gpt_header_bytes (seal sample_header)) sample_array) =
     (Ok (sample_header, sample_entries), sample_storage (gpt_header_bytes (seal sample_header)) sample_array)"
proof -
  let ?d = "sample_drive (gpt_header_bytes (seal sample_header)) sample_array"
  have "table_on ?d 1 (device_lba ?d (array_lba False sample_header sample_entries)) sample_header sample_entries"
    using wf_sample by (simp add: table_on_def sample_lbas sample_dumps length_sample_entries length_sample_array length_sealed_sample)
  then show ?thesis
    using read_gpt_written_table [OF sample_device_at _ _ sample_backup [OF length_sealed_sample length_sample_array]]
    by (simp add: sample_header_def)
qed

text \<open>C23. Damage to up to four consecutive bytes of the primary copy is always detected, be it in the
  header, inside or outside its checksum field, or in the array of entries, and the table is then
  read from the intact backup copy.\<close>

theorem read_gpt_recovers_from_backup:
  assumes "device_at s idx d" "gh_sig hb = GPT_SIGNATURE"
    and "damaged_table d 1 (device_lba d (array_lba False h es)) h es i bad"
    and "table_on d (device_lba d (- 1)) (device_lba d (array_lba True hb esb)) hb esb"
  shows "read_gpt idx s = (Ok (hb \<lparr> gh_header_crc32 := 0 \<rparr>, esb), s)"
  using assms get_table_damaged [OF assms(1), of 1 False h es i bad] get_table_ok [OF assms(1,4)]
    is_gpt_present_backup [OF assms(1,4,2)]
  by (simp add: read_gpt_def bind_def device_lba_def)

text \<open>The first byte of the signature is damaged, and then the unused first byte of an entry.\<close>

theorem read_gpt_recovers_from_backup_witness:
  "fst (read_gpt 0 (sample_storage (splice_at (gpt_header_bytes (seal sample_header)) 0 [0]) sample_array)) =
     Ok (sample_header, sample_entries) \<and>
   fst (read_gpt 0 (sample_storage (gpt_header_bytes (seal sample_header)) (splice_at sample_array 0 [1]))) =
     Ok (sample_header, sample_entries)"
proof -
  let ?S = "gpt_header_bytes (seal sample_header)"
  let ?p = "splice_at ?S 0 [0]" and ?q = "splice_at sample_array 0 [1]"
  have l: "length ?p = 92" "length ?q = 512" using length_sealed_sample length_sample_array by simp_all
  have "?S ! 0 \<noteq> 0" by (simp add: gpt_header_bytes_def seal_def sample_header_def GPT_SIGNATURE_def)
  moreover have "sample_array ! 0 \<noteq> 1" by (simp add: sample_entries_def gpt_entry_bytes_def eval_nat_numeral)
  ultimately have "damaged_table (sample_drive ?p sample_array) 1
      (device_lba (sample_drive ?p sample_array) (array_lba False sample_header sample_entries)) sample_header sample_entries 0 [0]"
    "damaged_table (sample_drive ?S ?q) 1
      (device_lba (sample_drive ?S ?q) (array_lba False sample_header sample_entries)) sample_header sample_entries 0 [1]"
    using wf_sample l length_sealed_sample length_sample_array
    by (simp_all add: damaged_table_def damaged_header_def damaged_array_def sample_lbas sample_dumps length_sample_entries
        sub_list_def take_Suc_conv_app_nth)
  then show ?thesis
    using read_gpt_recovers_from_backup [OF sample_device_at _ _ sample_backup [OF l(1) length_sample_array]]
      read_gpt_recovers_from_backup [OF sample_device_at _ _ sample_backup [OF length_sealed_sample l(2)]]
    by (simp add: sample_header_def)
qed

end
