(* ===== verification/Ext2Types.thy ===== *)
theory Ext2Types
  imports Serialize Storage
begin

text \<open>
  The on-disk structures of the ext2 driver (\<^verbatim>\<open>drivers/fs/ext2/mod.rs\<close>) and the
  error type of the file-system layer (\<^verbatim>\<open>hal/fs.rs\<close>).  The superblock, the
  group descriptor and the fixed part of a directory entry are packed
  plain-old-data, read and written as their little-endian bytes; the inode is
  encoded by the derived serialiser, the directory entry by a serialiser of
  its own.  A Rust string is the list of its UTF-8 bytes.
\<close>

section \<open>Errors\<close>

datatype HalFsIOErr = HalErr HalStorageOperationErr | DeserializationErr DvDeErr
  | SerializationErr DvSerErr | DirectoryNotEmpty | Corrupted | NoPermsProvided | FileTooLarge
  | BadPath | NameTooLong | BufTooSmall | IsDirectory | FsInternal | NoSpaceLeft
  | NoSuchFileOrDirectory | NotADirectory | NoAvailableInode | FileExists | Unsupported

section \<open>The superblock\<close>

record SuperBlock =
  s_inodes_count :: u32
  s_blocks_count :: u32
  s_r_blocks_count :: u32
  s_free_blocks_count :: u32
  s_free_inodes_count :: u32
  s_first_data_block :: u32
  s_log_block_size :: u32
  s_log_frag_size :: u32
  s_blocks_per_group :: u32
  s_frags_per_group :: u32
  s_inodes_per_group :: u32
  s_mtime :: u32
  s_wtime :: u32
  s_mnt_count :: u16
  s_max_mnt_count :: u16
  s_magic :: u16
  s_state :: u16
  s_errors :: u16
  s_minor_rev_level :: u16
  s_lastcheck :: u32
  s_checkinterval :: u32
  s_creator_os :: u32
  s_rev_level :: u32
  s_def_resuid :: u16
  s_def_resgid :: u16
  s_first_ino :: u32
  s_inode_size :: u16
  s_block_group_nr :: u16
  s_feature_compat :: u32
  s_feature_incompat :: u32
  s_feature_ro_compat :: u32
  s_uuid :: bytes
  s_volume_name :: bytes
  s_last_mounted :: bytes
  s_algo_bitmap :: u32
  s_prealloc_blocks :: u8
  s_prealloc_dir_blocks :: u8
  s_padding1 :: u16
  s_journal_uuid :: bytes
  s_journal_inum :: u32
  s_journal_dev :: u32
  s_last_orphan :: u32
  s_hash_seed :: "u32 list"
  s_def_hash_version :: u8
  s_reserved :: bytes
  s_default_mount_opts :: u32
  s_first_meta_bg :: u32

definition super_block_bytes :: "SuperBlock \<Rightarrow> bytes" where
  "super_block_bytes sb = concat [
     to_le (s_inodes_count sb), to_le (s_blocks_count sb), to_le (s_r_blocks_count sb),
     to_le (s_free_blocks_count sb), to_le (s_free_inodes_count sb),
     to_le (s_first_data_block sb), to_le (s_log_block_size sb), to_le (s_log_frag_size sb),
     to_le (s_blocks_per_group sb), to_le (s_frags_per_group sb), to_le (s_inodes_per_group sb),
     to_le (s_mtime sb), to_le (s_wtime sb), to_le (s_mnt_count sb), to_le (s_max_mnt_count sb),
     to_le (s_magic sb), to_le (s_state sb), to_le (s_errors sb), to_le (s_minor_rev_level sb),
     to_le (s_lastcheck sb), to_le (s_checkinterval sb), to_le (s_creator_os sb),
     to_le (s_rev_level sb), to_le (s_def_resuid sb), to_le (s_def_resgid sb),
     to_le (s_first_ino sb), to_le (s_inode_size sb), to_le (s_block_group_nr sb),
     to_le (s_feature_compat sb), to_le (s_feature_incompat sb), to_le (s_feature_ro_compat sb),
     s_uuid sb, s_volume_name sb, s_last_mounted sb, to_le (s_algo_bitmap sb),
     to_le (s_prealloc_blocks sb), to_le (s_prealloc_dir_blocks sb), to_le (s_padding1 sb),
     s_journal_uuid sb, to_le (s_journal_inum sb), to_le (s_journal_dev sb),
     to_le (s_last_orphan sb), concat (map to_le (s_hash_seed sb)), to_le (s_def_hash_version sb),
     s_reserved sb, to_le (s_default_mount_opts sb), to_le (s_first_meta_bg sb)]"

definition super_block_of :: "bytes \<Rightarrow> SuperBlock" where
  "super_block_of b = \<lparr>
     s_inodes_count = from_le (sub_list b 0 4), s_blocks_count = from_le (sub_list b 4 8),
     s_r_blocks_count = from_le (sub_list b 8 12), s_free_blocks_count = from_le (sub_list b 12 16),
     s_free_inodes_count = from_le (sub_list b 16 20), s_first_data_block = from_le (sub_list b 20 24),
     s_log_block_size = from_le (sub_list b 24 28), s_log_frag_size = from_le (sub_list b 28 32),
     s_blocks_per_group = from_le (sub_list b 32 36), s_frags_per_group = from_le (sub_list b 36 40),
     s_inodes_per_group = from_le (sub_list b 40 44), s_mtime = from_le (sub_list b 44 48),
     s_wtime = from_le (sub_list b 48 52), s_mnt_count = from_le (sub_list b 52 54),
     s_max_mnt_count = from_le (sub_list b 54 56), s_magic = from_le (sub_list b 56 58),
     s_state = from_le (sub_list b 58 60), s_errors = from_le (sub_list b 60 62),
     s_minor_rev_level = from_le (sub_list b 62 64), s_lastcheck = from_le (sub_list b 64 68),
     s_checkinterval = from_le (sub_list b 68 72), s_creator_os = from_le (sub_list b 72 76),
     s_rev_level = from_le (sub_list b 76 80), s_def_resuid = from_le (sub_list b 80 82),
     s_def_resgid = from_le (sub_list b 82 84), s_first_ino = from_le (sub_list b 84 88),
     s_inode_size = from_le (sub_list b 88 90), s_block_group_nr = from_le (sub_list b 90 92),
     s_feature_compat = from_le (sub_list b 92 96), s_feature_incompat = from_le (sub_list b 96 100),
     s_feature_ro_compat = from_le (sub_list b 100 104), s_uuid = sub_list b 104 120,
     s_volume_name = sub_list b 120 136, s_last_mounted = sub_list b 136 200,
     s_algo_bitmap = from_le (sub_list b 200 204), s_prealloc_blocks = from_le (sub_list b 204 205),
     s_prealloc_dir_blocks = from_le (sub_list b 205 206), s_padding1 = from_le (sub_list b 206 208),
     s_journal_uuid = sub_list b 208 224, s_journal_inum = from_le (sub_list b 224 228),
     s_journal_dev = from_le (sub_list b 228 232), s_last_orphan = from_le (sub_list b 232 236),
     s_hash_seed = [from_le (sub_list b 236 240), from_le (sub_list b 240 244),
       from_le (sub_list b 244 248), from_le (sub_list b 248 252)],
     s_def_hash_version = from_le (sub_list b 252 253), s_reserved = sub_list b 253 256,
     s_default_mount_opts = from_le (sub_list b 256 260),
     s_first_meta_bg = from_le (sub_list b 260 264) \<rparr>"

definition SUPER_BLOCK_LEN :: nat where
  "SUPER_BLOCK_LEN = 264"

definition wf_super_block :: "SuperBlock \<Rightarrow> bool" where
  "wf_super_block sb \<longleftrightarrow> length (s_uuid sb) = 16 \<and> length (s_volume_name sb) = 16 \<and>
     length (s_last_mounted sb) = 64 \<and> length (s_journal_uuid sb) = 16 \<and>
     length (s_hash_seed sb) = 4 \<and> length (s_reserved sb) = 3"

text \<open>\<^verbatim>\<open>1024 << n\<close> uses the low five bits of \<open>n\<close>.\<close>

definition block_size :: "SuperBlock \<Rightarrow> u32" where
  "block_size sb = push_bit (unat (s_log_block_size sb) mod 32) 1024"

definition fragment_size :: "SuperBlock \<Rightarrow> u32" where
  "fragment_size sb = push_bit (unat (s_log_frag_size sb) mod 32) 1024"

definition EXT2_SUPER_MAGIC :: u16 where
  "EXT2_SUPER_MAGIC = 0xEF53"

definition is_valid :: "SuperBlock \<Rightarrow> bool" where
  "is_valid sb \<longleftrightarrow> s_magic sb = EXT2_SUPER_MAGIC"

text \<open>\<^verbatim>\<open>div_ceil\<close> on \<^verbatim>\<open>u32\<close>: a panic on a zero divisor.\<close>

definition div_ceil_u32 :: "u32 \<Rightarrow> u32 \<Rightarrow> ('e, u32) res" where
  "div_ceil_u32 a b = (if b = 0 then Panic
     else Ok (a div b + (if a mod b = 0 then 0 else 1)))"

definition block_groups_count :: "SuperBlock \<Rightarrow> ('e, u32) res" where
  "block_groups_count sb = div_ceil_u32 (s_blocks_count sb) (s_blocks_per_group sb)"

definition is_dynamic_rev :: "SuperBlock \<Rightarrow> bool" where
  "is_dynamic_rev sb \<longleftrightarrow> 1 \<le> s_rev_level sb"

section \<open>The group descriptor\<close>

record GroupDescriptor =
  bg_block_bitmap :: u32
  bg_inode_bitmap :: u32
  bg_inode_table :: u32
  bg_free_blocks_count :: u16
  bg_free_inodes_count :: u16
  bg_used_dirs_count :: u16

definition BLOCK_GROUP_DESCRIPTOR_SIZE :: int where
  "BLOCK_GROUP_DESCRIPTOR_SIZE = 32"

definition GROUP_DESCRIPTOR_LEN :: nat where
  "GROUP_DESCRIPTOR_LEN = 18"

definition group_descriptor_of :: "bytes \<Rightarrow> GroupDescriptor" where
  "group_descriptor_of b = \<lparr>
     bg_block_bitmap = from_le (sub_list b 0 4), bg_inode_bitmap = from_le (sub_list b 4 8),
     bg_inode_table = from_le (sub_list b 8 12), bg_free_blocks_count = from_le (sub_list b 12 14),
     bg_free_inodes_count = from_le (sub_list b 14 16), bg_used_dirs_count = from_le (sub_list b 16 18) \<rparr>"

definition group_descriptor_bytes :: "GroupDescriptor \<Rightarrow> bytes" where
  "group_descriptor_bytes d = concat [to_le (bg_block_bitmap d), to_le (bg_inode_bitmap d),
     to_le (bg_inode_table d), to_le (bg_free_blocks_count d), to_le (bg_free_inodes_count d),
     to_le (bg_used_dirs_count d)]"

section \<open>The inode\<close>

record Inode =
  i_mode :: u16
  i_uid :: u16
  i_size :: u32
  i_atime :: u32
  i_ctime :: u32
  i_mtime :: u32
  i_dtime :: u32
  i_gid :: u16
  i_links_count :: u16
  i_blocks :: u32
  i_flags :: u32
  i_osd1 :: u32
  i_block :: "u32 list"
  i_generation :: u32
  i_file_acl :: u32
  i_dir_acl :: u32
  i_faddr :: u32
  i_osd2 :: bytes

definition inode_default :: Inode where
  "inode_default = \<lparr> i_mode = 0, i_uid = 0, i_size = 0, i_atime = 0, i_ctime = 0, i_mtime = 0,
     i_dtime = 0, i_gid = 0, i_links_count = 0, i_blocks = 0, i_flags = 0, i_osd1 = 0,
     i_block = replicate 15 0, i_generation = 0, i_file_acl = 0, i_dir_acl = 0, i_faddr = 0,
     i_osd2 = replicate 12 0 \<rparr>"

text \<open>The derived serialiser writes and reads the fields in declaration order.\<close>

definition inode_fields :: "endianness \<Rightarrow> Inode \<Rightarrow> ser list" where
  "inode_fields e i = [
     serialize_int e (i_mode i), serialize_int e (i_uid i), serialize_int e (i_size i),
     serialize_int e (i_atime i), serialize_int e (i_ctime i), serialize_int e (i_mtime i),
     serialize_int e (i_dtime i), serialize_int e (i_gid i), serialize_int e (i_links_count i),
     serialize_int e (i_blocks i), serialize_int e (i_flags i), serialize_int e (i_osd1 i),
     serialize_array e (i_block i), serialize_int e (i_generation i), serialize_int e (i_file_acl i),
     serialize_int e (i_dir_acl i), serialize_int e (i_faddr i), serialize_array e (i_osd2 i)]"

definition serialize_inode :: "endianness \<Rightarrow> Inode \<Rightarrow> ser" where
  "serialize_inode e i = serialize_fields (inode_fields e i) 0"

definition deserialize_inode :: "endianness \<Rightarrow> Inode de" where
  "deserialize_inode e input =
     deserialize_field (deserialize_int e) 0 input (\<lambda>mode acc.
     deserialize_field (deserialize_int e) acc input (\<lambda>uid acc.
     deserialize_field (deserialize_int e) acc input (\<lambda>size acc.
     deserialize_field (deserialize_int e) acc input (\<lambda>atime acc.
     deserialize_field (deserialize_int e) acc input (\<lambda>ctime acc.
     deserialize_field (deserialize_int e) acc input (\<lambda>mtime acc.
     deserialize_field (deserialize_int e) acc input (\<lambda>dtime acc.
     deserialize_field (deserialize_int e) acc input (\<lambda>gid acc.
     deserialize_field (deserialize_int e) acc input (\<lambda>links acc.
     deserialize_field (deserialize_int e) acc input (\<lambda>blocks acc.
     deserialize_field (deserialize_int e) acc input (\<lambda>flags acc.
     deserialize_field (deserialize_int e) acc input (\<lambda>osd1 acc.
     deserialize_field (deserialize_array 15 e) acc input (\<lambda>block acc.
     deserialize_field (deserialize_int e) acc input (\<lambda>generation acc.
     deserialize_field (deserialize_int e) acc input (\<lambda>file_acl acc.
     deserialize_field (deserialize_int e) acc input (\<lambda>dir_acl acc.
     deserialize_field (deserialize_int e) acc input (\<lambda>faddr acc.
     deserialize_field (deserialize_array 12 e) acc input (\<lambda>osd2 acc.
       Ok (\<lparr> i_mode = mode, i_uid = uid, i_size = size, i_atime = atime, i_ctime = ctime,
         i_mtime = mtime, i_dtime = dtime, i_gid = gid, i_links_count = links, i_blocks = blocks,
         i_flags = flags, i_osd1 = osd1, i_block = block, i_generation = generation,
         i_file_acl = file_acl, i_dir_acl = dir_acl, i_faddr = faddr, i_osd2 = osd2 \<rparr>,
         acc)))))))))))))))))))"

definition inode_file_type :: "Inode \<Rightarrow> u16" where
  "inode_file_type i = i_mode i AND 0xF000"

definition permissions :: "Inode \<Rightarrow> u16" where
  "permissions i = i_mode i AND 0x0FFF"

definition EXT2_S_IFDIR :: u16 where "EXT2_S_IFDIR = 0x4000"

definition EXT2_S_IFREG :: u16 where "EXT2_S_IFREG = 0x8000"

definition EXT2_S_IFLNK :: u16 where "EXT2_S_IFLNK = 0xA000"

definition is_directory :: "Inode \<Rightarrow> bool" where
  "is_directory i \<longleftrightarrow> inode_file_type i = EXT2_S_IFDIR"

definition is_regular_file :: "Inode \<Rightarrow> bool" where
  "is_regular_file i \<longleftrightarrow> inode_file_type i = EXT2_S_IFREG"

definition is_symlink :: "Inode \<Rightarrow> bool" where
  "is_symlink i \<longleftrightarrow> inode_file_type i = EXT2_S_IFLNK"

section \<open>Directory entries\<close>

record DirEntry =
  de_inode :: u32
  de_rec_len :: u16
  de_file_type :: u8
  de_name :: string

record DirEntryPartial =
  dp_inode :: u32
  dp_rec_len :: u16
  dp_name_len :: u16

definition DIR_ENTRY_PARTIAL_LEN :: nat where
  "DIR_ENTRY_PARTIAL_LEN = 8"

definition dir_entry_partial_of :: "bytes \<Rightarrow> DirEntryPartial" where
  "dir_entry_partial_of b = \<lparr> dp_inode = from_le (sub_list b 0 4),
     dp_rec_len = from_le (sub_list b 4 6), dp_name_len = from_le (sub_list b 6 8) \<rparr>"

definition dir_entry_partial_bytes :: "DirEntryPartial \<Rightarrow> bytes" where
  "dir_entry_partial_bytes p =
     concat [to_le (dp_inode p), to_le (dp_rec_len p), to_le (dp_name_len p)]"

definition min_reclen :: "DirEntryPartial \<Rightarrow> u16" where
  "min_reclen p = (8 + dp_name_len p + 3) AND NOT 3"

definition EXT2_DIR_ENTRY_ALIGNMENT :: u16 where
  "EXT2_DIR_ENTRY_ALIGNMENT = 4"

definition record_length :: "DirEntry \<Rightarrow> u16" where
  "record_length d =
    (let len = 4 + 2 + 1 + 1 + length (de_name d) in
     max ((word_of_nat len + EXT2_DIR_ENTRY_ALIGNMENT - 1) AND NOT (EXT2_DIR_ENTRY_ALIGNMENT - 1))
       (de_rec_len d))"

definition dir_entry_new :: "u32 \<Rightarrow> string \<Rightarrow> DirEntry" where
  "dir_entry_new ino name =
    (let r = \<lparr> de_inode = ino, de_rec_len = 0, de_file_type = 0, de_name = name \<rparr> in
     r \<lparr> de_rec_len := record_length r \<rparr>)"

definition byte_of_char :: "char \<Rightarrow> u8" where
  "byte_of_char c = of_char c"

definition char_of_byte :: "u8 \<Rightarrow> char" where
  "char_of_byte b = char_of (unat b)"

text \<open>\<^verbatim>\<open>name.push(b as char)\<close>: the code point \<open>b\<close>, one UTF-8 byte below 128 and two above.\<close>

definition push_byte_as_char :: "u8 \<Rightarrow> string" where
  "push_byte_as_char b =
    (if b < 128 then [char_of_byte b]
     else [char_of_byte (0xC0 OR drop_bit 6 b), char_of_byte (0x80 OR (b AND 0x3F))])"

text \<open>The name loop of the serialisers: it panics where the name leaves the target.\<close>

definition serialize_name :: "string \<Rightarrow> nat \<Rightarrow> ser" where
  "serialize_name name n target =
    (if length name \<le> length target then (Ok n, map byte_of_char name @ drop (length name) target)
     else (Panic, target))"

definition serialize_dir_entry :: "endianness \<Rightarrow> DirEntry \<Rightarrow> ser" where
  "serialize_dir_entry e d target =
    (if 255 < length (de_name d) then (Err (BadStringLength 0 255), target)
     else case serialize_fields [serialize_int e (de_inode d), serialize_int e (record_length d),
         serialize_int e (word_of_nat (length (de_name d)) :: u8), serialize_int e (de_file_type d),
         serialize_name (de_name d) 0] 0 target of
       (Ok _, t) \<Rightarrow> (Ok (unat (record_length d)), t)
     | (r, t) \<Rightarrow> (r, t))"

definition serialize_till_end :: "endianness \<Rightarrow> DirEntry \<Rightarrow> ser" where
  "serialize_till_end e d target =
    (if 255 < length (de_name d) then (Err (BadStringLength 0 255), target)
     else let len = word_of_nat (length target) :: u16 in
       case serialize_fields [serialize_int e (de_inode d), serialize_int e len,
         serialize_int e (word_of_nat (length (de_name d)) :: u8), serialize_int e (de_file_type d),
         serialize_name (de_name d) 0] 0 target of
       (Ok _, t) \<Rightarrow> (Ok (unat len), t)
     | (r, t) \<Rightarrow> (r, t))"

fun read_name :: "bytes \<Rightarrow> nat \<Rightarrow> (DvDeErr, string) res" where
  "read_name rest 0 = Ok []"
| "read_name [] (Suc n) = Err WrongBufferSize"
| "read_name (b # rest) (Suc n) = bind_res (read_name rest n) (\<lambda>s. Ok (push_byte_as_char b @ s))"

definition deserialize_dir_entry :: "endianness \<Rightarrow> DirEntry de" where
  "deserialize_dir_entry e input =
     deserialize_field (deserialize_int e) 0 input (\<lambda>ino acc.
     deserialize_field (deserialize_int e) acc input (\<lambda>rec_len acc.
     deserialize_field (deserialize_int e :: u8 de) acc input (\<lambda>name_len acc.
     deserialize_field (deserialize_int e) acc input (\<lambda>file_type acc.
     bind_res (read_name (drop acc input) (unat name_len)) (\<lambda>name.
       Ok (\<lparr> de_inode = ino, de_rec_len = rec_len, de_file_type = file_type, de_name = name \<rparr>,
         unat (rec_len :: u16)))))))"

section \<open>Plain-old-data round trips\<close>

lemma group_descriptor_roundtrip [simp]:
  "group_descriptor_of (group_descriptor_bytes d @ rest) = d"
  by (simp add: group_descriptor_of_def group_descriptor_bytes_def pod_simps)

lemma length_group_descriptor_bytes [simp]: "length (group_descriptor_bytes d) = 18"
  by (simp add: group_descriptor_bytes_def)

lemma dir_entry_partial_roundtrip [simp]:
  "dir_entry_partial_of (dir_entry_partial_bytes p @ rest) = p"
  by (simp add: dir_entry_partial_of_def dir_entry_partial_bytes_def pod_simps)

lemma length_dir_entry_partial_bytes [simp]: "length (dir_entry_partial_bytes p) = 8"
  by (simp add: dir_entry_partial_bytes_def)

lemma length4E:
  assumes "length xs = 4"
  obtains a b c d where "xs = [a, b, c, d]"
  using assms by (auto simp: length_Suc_conv eval_nat_numeral)

lemma super_block_roundtrip:
  assumes "wf_super_block sb"
  shows "super_block_of (super_block_bytes sb @ rest) = sb"
proof -
  obtain a b c d where h: "s_hash_seed sb = [a, b, c, d]"
    using assms by (auto simp: wf_super_block_def elim: length4E)
  show ?thesis
    using assms by (simp add: super_block_of_def super_block_bytes_def wf_super_block_def h pod_simps)
qed

lemma length_super_block_bytes [simp]: "wf_super_block sb \<Longrightarrow> length (super_block_bytes sb) = 264"
  by (auto simp: super_block_bytes_def wf_super_block_def elim!: length4E)

lemma wf_super_block_of: "264 \<le> length b \<Longrightarrow> wf_super_block (super_block_of b)"
  by (simp add: wf_super_block_def super_block_of_def)

section \<open>The inode codec\<close>

definition wf_inode :: "Inode \<Rightarrow> bool" where
  "wf_inode i \<longleftrightarrow> length (i_block i) = 15 \<and> length (i_osd2 i) = 12"

definition inode_images :: "endianness \<Rightarrow> Inode \<Rightarrow> bytes list" where
  "inode_images e i = [
     int_image e (i_mode i), int_image e (i_uid i), int_image e (i_size i),
     int_image e (i_atime i), int_image e (i_ctime i), int_image e (i_mtime i),
     int_image e (i_dtime i), int_image e (i_gid i), int_image e (i_links_count i),
     int_image e (i_blocks i), int_image e (i_flags i), int_image e (i_osd1 i),
     array_image e (i_block i), int_image e (i_generation i), int_image e (i_file_acl i),
     int_image e (i_dir_acl i), int_image e (i_faddr i), array_image e (i_osd2 i)]"

definition inode_image :: "endianness \<Rightarrow> Inode \<Rightarrow> bytes" where
  "inode_image e i = concat (inode_images e i)"

lemma length_inode_image [simp]: "wf_inode i \<Longrightarrow> length (inode_image e i) = 128"
  by (simp add: inode_image_def inode_images_def wf_inode_def)

lemma inode_fields_write: "list_all2 writes (inode_fields e i) (inode_images e i)"
  by (auto simp: inode_fields_def inode_images_def)

lemmas field_image_simps =
  u16.deserialize_image u32.deserialize_image
  u32_array.deserialize_image u8_array.deserialize_image

lemma deserialize_inode_image:
  assumes "wf_inode i"
  shows "deserialize_inode e (inode_image e i @ rest) = Ok (i, 128)"
  using assms
  by (simp add: deserialize_inode_def inode_image_def inode_images_def wf_inode_def
      deserialize_field_def field_image_simps)

interpretation inode: wire_codec wf_inode 128 inode_image serialize_inode deserialize_inode
proof (unfold_locales, goal_cases)
  case (1 x e)
  then show ?case by simp
next
  case (2 x target e)
  then show ?case
    using serialize_fields_writes [OF inode_fields_write, of 0 e x target]
    by (simp add: serialize_inode_def flip: inode_image_def)
next
  case (3 x e rest)
  then show ?case by (rule deserialize_inode_image)
qed

text \<open>Every 128 bytes are the image of an inode, so reading an inode never fails on them.\<close>

definition inode_of :: "bytes \<Rightarrow> Inode" where
  "inode_of b = \<lparr> i_mode = from_le (sub_list b 0 2), i_uid = from_le (sub_list b 2 4),
     i_size = from_le (sub_list b 4 8), i_atime = from_le (sub_list b 8 12),
     i_ctime = from_le (sub_list b 12 16), i_mtime = from_le (sub_list b 16 20),
     i_dtime = from_le (sub_list b 20 24), i_gid = from_le (sub_list b 24 26),
     i_links_count = from_le (sub_list b 26 28), i_blocks = from_le (sub_list b 28 32),
     i_flags = from_le (sub_list b 32 36), i_osd1 = from_le (sub_list b 36 40),
     i_block = map (\<lambda>k. from_le (sub_list b (40 + 4 * k) (44 + 4 * k))) [0..<15],
     i_generation = from_le (sub_list b 100 104), i_file_acl = from_le (sub_list b 104 108),
     i_dir_acl = from_le (sub_list b 108 112), i_faddr = from_le (sub_list b 112 116),
     i_osd2 = sub_list b 116 128 \<rparr>"

lemma concat_sub_lists:
  "concat (map (\<lambda>k. sub_list b (a + n * k) (a + n + n * k)) [0..<m]) = sub_list b a (a + n * m)"
proof (induction m)
  case (Suc m)
  then show ?case
    using sub_list_join(1) [of a "a + n * m" "a + n + n * m" b] by (simp add: algebra_simps)
qed (simp add: sub_list_def)

lemma array_image_u8: "array_image Little (xs :: u8 list) = xs"
proof -
  have "int_image Little b = [b]" for b :: u8
    by (simp add: int_image_def to_le_def word_unat_eq_iff)
  then show ?thesis by (induction xs) (simp_all add: array_image_def)
qed

lemma inode_image_of:
  assumes "length b = 128"
  shows "inode_image Little (inode_of b) = b"
proof -
  have "map (\<lambda>k. to_le (from_le (sub_list b (40 + 4 * k) (44 + 4 * k)) :: u32)) [0..<15] =
      map (\<lambda>k. sub_list b (40 + 4 * k) (44 + 4 * k)) [0..<15]"
    using assms by (intro map_cong refl to_le_from_le_word(2)) simp
  then have "array_image Little (i_block (inode_of b)) = sub_list b 40 100"
    using concat_sub_lists [of b 40 4 15]
    by (simp add: inode_of_def array_image_def int_image_def o_def del: map_eq_conv)
  moreover have "array_image Little (i_osd2 (inode_of b)) = sub_list b 116 128"
    by (simp add: array_image_u8 inode_of_def)
  ultimately show ?thesis
    using assms
    by (simp add: inode_image_def inode_images_def int_image_def)
      (simp add: inode_of_def to_le_from_le_word sub_list_join sub_list_all)
qed

lemma wf_inode_of: "128 \<le> length b \<Longrightarrow> wf_inode (inode_of b)"
  by (simp add: wf_inode_def inode_of_def)

lemma deserialize_inode_total:
  "128 \<le> length b \<Longrightarrow> deserialize_inode Little b = Ok (inode_of (take 128 b), 128)"
  using deserialize_inode_image [of "inode_of (take 128 b)" Little "drop 128 b"]
  by (simp add: wf_inode_of inode_image_of)

lemma wf_inode_default [simp]: "wf_inode inode_default"
  by (simp add: wf_inode_def inode_default_def)

section \<open>The directory entry codec\<close>

definition ascii :: "string \<Rightarrow> bool" where
  "ascii s \<longleftrightarrow> list_all (\<lambda>c. byte_of_char c < 128) s"

definition dir_entry_image :: "DirEntry \<Rightarrow> bytes" where
  "dir_entry_image d = to_le (de_inode d) @ to_le (record_length d) @
     to_le (word_of_nat (length (de_name d)) :: u8) @ to_le (de_file_type d) @
     map byte_of_char (de_name d)"

lemma length_dir_entry_image [simp]: "length (dir_entry_image d) = 8 + length (de_name d)"
  by (simp add: dir_entry_image_def)

lemma char_of_byte_of_char [simp]: "char_of_byte (byte_of_char c) = c"
proof -
  have "unat (of_char c :: u8) = of_char c"
    by (metis of_char_mod_256 of_nat_of_char unat_byte_of_nat)
  then show ?thesis by (simp add: char_of_byte_def byte_of_char_def)
qed

lemma byte_of_char_inject [simp]: "byte_of_char c = byte_of_char d \<longleftrightarrow> c = d"
  by (metis char_of_byte_of_char)

lemma read_name_ascii:
  "ascii name \<Longrightarrow> read_name (map byte_of_char name @ rest) (length name) = Ok name"
  by (induction name) (simp_all add: ascii_def push_byte_as_char_def)

lemma serialize_dir_entry_ok:
  assumes "length (de_name d) \<le> 255" "8 + length (de_name d) \<le> length target"
  shows "serialize_dir_entry Little d target =
    (Ok (unat (record_length d)), dir_entry_image d @ drop (8 + length (de_name d)) target)"
proof -
  have "length (de_name d) \<le> length target - 8" "\<not> length target - 4 < 2"
    using assms by linarith+
  with assms show ?thesis
    by (simp add: serialize_dir_entry_def dir_entry_image_def serialize_int_def int_image_def
        serialize_name_def add.commute)
qed

lemma deserialize_dir_entry_image:
  assumes "length (de_name d) \<le> 255" "ascii (de_name d)"
  shows "deserialize_dir_entry Little (dir_entry_image d @ rest) =
    Ok (d \<lparr> de_rec_len := record_length d \<rparr>, unat (record_length d))"
proof -
  have "unat (word_of_nat (length (de_name d)) :: u8) = length (de_name d)"
    using assms by (simp add: unat_of_nat)
  then show ?thesis
    using assms
    by (simp add: deserialize_dir_entry_def dir_entry_image_def deserialize_field_def
        deserialize_int_def read_name_ascii)
qed

end
