(* ===== verification/Ext2Disk.thy ===== *)
theory Ext2Disk
  imports Ext2Types Gpt RtcTime
begin

text \<open>
  The ext2 driver's access to the disk (\<^verbatim>\<open>structs.rs\<close>, \<^verbatim>\<open>managers.rs\<close>,
  \<^verbatim>\<open>inode.rs\<close> and \<^verbatim>\<open>init.rs\<close> under \<^verbatim>\<open>drivers/fs/ext2\<close>): block addressing, block
  groups, mounting, and reading and writing inodes.

  What the driver shares and mutates is the state \<open>ext2\<close>: the storage layer,
  the superblock held in memory, the two sets of the block allocator, and the
  clock, whose k-th reading is \<open>clock k\<close>.  What it fixes at mount time is the
  record \<open>Ext2Fs\<close>.  Signed sector numbers are integers that wrap at 64 bits.
\<close>

section \<open>State\<close>

record AllocatedBlock =
  addr :: int
  block_global_idx :: u32
  block_relatve_idx :: u32
  gr_number :: int

text \<open>The ordered sets are kept as lists sorted by their key; blocks are ordered by address.\<close>

record ext2 =
  disks :: storage
  super_block :: SuperBlock
  allocated_block_indices :: "AllocatedBlock list"
  unwritten_freed_blocks :: "u32 list"
  clock :: "nat \<Rightarrow> RtcDateTime option"
  clock_reads :: nat

type_synonym 'a fs_io = "(ext2, HalFsIOErr, 'a) st"

definition on_disks :: "(storage, HalStorageOperationErr, 'a) st \<Rightarrow>
    (ext2, HalStorageOperationErr, 'a) st" where
  "on_disks m = (\<lambda>s. case m (disks s) of (r, d) \<Rightarrow> (r, s \<lparr> disks := d \<rparr>))"

definition read_clock :: "(ext2, 'e, RtcDateTime option) st" where
  "read_clock = (\<lambda>s. (Ok (clock s (clock_reads s)), s \<lparr> clock_reads := Suc (clock_reads s) \<rparr>))"

section \<open>Sectors and blocks\<close>

record IoHandler =
  drive_id :: Guid
  start_lba :: int
  io_block_size :: u32

text \<open>\<^verbatim>\<open>(x as u32)\<close> of a signed 64-bit value keeps its low 32 bits.\<close>

definition as_u32 :: "int \<Rightarrow> u32" where
  "as_u32 x = word_of_int x"

definition block_idx_to_lba :: "u32 \<Rightarrow> u32 \<Rightarrow> int" where
  "block_idx_to_lba bs block_idx = quot (i64 (uint block_idx * uint bs)) 512"

definition lba_to_block_idx :: "u32 \<Rightarrow> int \<Rightarrow> (HalFsIOErr, u32) res" where
  "lba_to_block_idx bs lba = (if bs = 0 then Panic else Ok (as_u32 (quot lba (uint bs)) * 512))"

definition io_read_sectors :: "IoHandler \<Rightarrow> bytes \<Rightarrow> int \<Rightarrow>
    (ext2, HalStorageOperationErr, bytes) st" where
  "io_read_sectors io buf lba =
     on_disks (read_sectors_by_guid (drive_id io) buf (i64 (start_lba io + lba)))"

definition io_write_sectors :: "IoHandler \<Rightarrow> bytes \<Rightarrow> int \<Rightarrow>
    (ext2, HalStorageOperationErr, unit) st" where
  "io_write_sectors io buf lba =
     on_disks (write_sectors_by_guid (drive_id io) buf (i64 (start_lba io + lba)))"

definition io_read_block :: "IoHandler \<Rightarrow> bytes \<Rightarrow> u32 \<Rightarrow>
    (ext2, HalStorageOperationErr, bytes) st" where
  "io_read_block io buf block_idx =
     io_read_sectors io buf (block_idx_to_lba (io_block_size io) block_idx)"

definition io_write_block :: "IoHandler \<Rightarrow> bytes \<Rightarrow> u32 \<Rightarrow>
    (ext2, HalStorageOperationErr, unit) st" where
  "io_write_block io buf block_idx =
     on_disks (write_sectors_by_guid (drive_id io) buf
       (i64 (start_lba io + block_idx_to_lba (io_block_size io) block_idx)))"

text \<open>The same calls where their error is converted by \<^verbatim>\<open>?\<close> into a file-system error.\<close>

definition read_sectors :: "IoHandler \<Rightarrow> bytes \<Rightarrow> int \<Rightarrow> bytes fs_io" where
  "read_sectors io buf lba = map_err_st HalErr (io_read_sectors io buf lba)"

definition write_sectors :: "IoHandler \<Rightarrow> bytes \<Rightarrow> int \<Rightarrow> unit fs_io" where
  "write_sectors io buf lba = map_err_st HalErr (io_write_sectors io buf lba)"

definition read_block :: "IoHandler \<Rightarrow> bytes \<Rightarrow> u32 \<Rightarrow> bytes fs_io" where
  "read_block io buf block_idx = map_err_st HalErr (io_read_block io buf block_idx)"

definition write_block :: "IoHandler \<Rightarrow> bytes \<Rightarrow> u32 \<Rightarrow> unit fs_io" where
  "write_block io buf block_idx = map_err_st HalErr (io_write_block io buf block_idx)"

section \<open>Block groups\<close>

definition RESERVED_BOOT_RECORD_OFFSET :: int where
  "RESERVED_BOOT_RECORD_OFFSET = 2"

record Ext2BlockGroup =
  group_number :: int
  bgr_block_size :: int
  bgr_blocks_per_group :: int
  sectors_per_block :: int
  descriptor :: GroupDescriptor

definition get_group_lba :: "Ext2BlockGroup \<Rightarrow> int" where
  "get_group_lba g =
    (if group_number g = 0 then RESERVED_BOOT_RECORD_OFFSET
     else i64 (RESERVED_BOOT_RECORD_OFFSET + (bgr_blocks_per_group g - 1) * sectors_per_block g
       + 1024 div 512 + (group_number g - 1) * bgr_blocks_per_group g * sectors_per_block g))"

definition get_superblock_lba :: "Ext2BlockGroup \<Rightarrow> int option" where
  "get_superblock_lba g = Some (get_group_lba g)"

definition get_blockgroup_desc_table_lba :: "Ext2BlockGroup \<Rightarrow> int option" where
  "get_blockgroup_desc_table_lba g =
    (if group_number g = 0 then Some (i64 (get_group_lba g + 1024 div 512))
     else Some (i64 (get_group_lba g + sectors_per_block g)))"

definition group_block_idx_to_lba :: "Ext2BlockGroup \<Rightarrow> u32 \<Rightarrow> int" where
  "group_block_idx_to_lba g block_idx = quot (i64 (uint block_idx * bgr_block_size g)) 512"

definition get_block_bitmap_lba :: "Ext2BlockGroup \<Rightarrow> int" where
  "get_block_bitmap_lba g = group_block_idx_to_lba g (bg_block_bitmap (descriptor g))"

definition get_inode_bitmap_lba :: "Ext2BlockGroup \<Rightarrow> int" where
  "get_inode_bitmap_lba g = group_block_idx_to_lba g (bg_inode_bitmap (descriptor g))"

definition get_inode_table_lba :: "Ext2BlockGroup \<Rightarrow> int" where
  "get_inode_table_lba g = group_block_idx_to_lba g (bg_inode_table (descriptor g))"

definition get_data_blocks_start_lba :: "Ext2BlockGroup \<Rightarrow> int" where
  "get_data_blocks_start_lba g = get_group_lba g"

record GroupManager =
  gm_io_handler :: IoHandler
  blocks_per_group :: u32
  first_data_block :: u32
  gm_block_size :: u32

text \<open>\<^verbatim>\<open>&buf[off as usize..off as usize + 18]\<close>: a negative offset is a huge index.\<close>

definition descriptor_at :: "bytes \<Rightarrow> int \<Rightarrow> (HalFsIOErr, GroupDescriptor) res" where
  "descriptor_at buf off =
    (if off < 0 then Panic
     else bind_res (slice buf (nat off) (nat off + GROUP_DESCRIPTOR_LEN)) (\<lambda>b. Ok (group_descriptor_of b)))"

definition update_descriptor_at :: "bytes \<Rightarrow> int \<Rightarrow> (GroupDescriptor \<Rightarrow> GroupDescriptor) \<Rightarrow>
    (HalFsIOErr, bytes) res" where
  "update_descriptor_at buf off f =
     bind_res (descriptor_at buf off) (\<lambda>d. Ok (splice_at buf (nat off) (group_descriptor_bytes (f d))))"

definition desc_lba_offset :: "int \<Rightarrow> int" where
  "desc_lba_offset gr = quot (i64 (gr * BLOCK_GROUP_DESCRIPTOR_SIZE)) 512"

definition desc_byte_offset :: "int \<Rightarrow> int" where
  "desc_byte_offset gr = rmd (i64 (gr * BLOCK_GROUP_DESCRIPTOR_SIZE)) 512"

definition block_group :: "GroupManager \<Rightarrow> int \<Rightarrow> GroupDescriptor \<Rightarrow> Ext2BlockGroup" where
  "block_group gm gr d = \<lparr> group_number = gr, bgr_block_size = uint (gm_block_size gm),
     bgr_blocks_per_group = uint (blocks_per_group gm),
     sectors_per_block = uint (gm_block_size gm) div 512, descriptor = d \<rparr>"

definition get_group_from_buffer :: "GroupManager \<Rightarrow> int \<Rightarrow> bytes \<Rightarrow> (HalFsIOErr, Ext2BlockGroup) res" where
  "get_group_from_buffer gm gr buf =
     bind_res (descriptor_at buf (desc_byte_offset gr)) (\<lambda>d. Ok (block_group gm gr d))"

definition bg_table_lba :: "GroupManager \<Rightarrow> int" where
  "bg_table_lba gm = block_idx_to_lba (io_block_size (gm_io_handler gm)) (first_data_block gm + 1)"

definition get_group :: "GroupManager \<Rightarrow> int \<Rightarrow> Ext2BlockGroup fs_io" where
  "get_group gm gr =
     bind (read_sectors (gm_io_handler gm) (replicate 512 0) (i64 (bg_table_lba gm + desc_lba_offset gr)))
     (\<lambda>buf. lift_res (get_group_from_buffer gm gr buf))"

definition get_group_from_block_idx :: "GroupManager \<Rightarrow> u32 \<Rightarrow> Ext2BlockGroup fs_io" where
  "get_group_from_block_idx gm idx =
    (if blocks_per_group gm = 0 then crash else get_group gm (uint (idx div blocks_per_group gm)))"

definition get_group_from_lba :: "GroupManager \<Rightarrow> int \<Rightarrow> Ext2BlockGroup fs_io" where
  "get_group_from_lba gm lba =
     bind (lift_res (lba_to_block_idx (io_block_size (gm_io_handler gm)) lba))
     (\<lambda>idx. get_group_from_block_idx gm idx)"

section \<open>The mounted file system\<close>

definition get_buffer :: "nat \<Rightarrow> bytes" where
  "get_buffer bs = replicate bs 0"

record BlockAllocator =
  ba_block_groups_count :: int
  ba_group_manager :: GroupManager
  ba_io_handler :: IoHandler
  ba_buffer_size :: nat

record Ext2Fs =
  fs_drive_id :: Guid
  fs_entry :: GPTEntry
  io_handler :: IoHandler
  block_allocator :: BlockAllocator
  group_manager :: GroupManager
  buffer_size :: nat

definition identify_ext2 :: "Guid \<Rightarrow> GPTEntry \<Rightarrow> (storage, unit, SuperBlock option) st" where
  "identify_ext2 g entry =
    (if ge_start_lba entry - ge_end_lba entry < 3 then ret None
     else (\<lambda>s. case read_sectors_by_guid g (replicate 1024 0) (sint (ge_start_lba entry + 2)) s of
         (Panic, s) \<Rightarrow> (Panic, s)
       | (Diverge, s) \<Rightarrow> (Diverge, s)
       | (Err _, s) \<Rightarrow> (Ok None, s)
       | (Ok buf, s) \<Rightarrow>
           let sb = super_block_of (take SUPER_BLOCK_LEN buf) in
           (Ok (if s_magic sb = 0xEF53 then Some sb else None), s)))"

definition mounted :: "Guid \<Rightarrow> GPTEntry \<Rightarrow> SuperBlock \<Rightarrow> u32 \<Rightarrow> Ext2Fs" where
  "mounted g entry sb groups =
    (let io = \<lparr> drive_id = g, start_lba = sint (ge_start_lba entry), io_block_size = block_size sb \<rparr>;
         gm = \<lparr> gm_io_handler = io, blocks_per_group = s_blocks_per_group sb,
           first_data_block = s_first_data_block sb, gm_block_size = block_size sb \<rparr>;
         ba = \<lparr> ba_block_groups_count = uint groups, ba_group_manager = gm, ba_io_handler = io,
           ba_buffer_size = unat (block_size sb) \<rparr>
     in \<lparr> fs_drive_id = g, fs_entry = entry, io_handler = io, block_allocator = ba,
          group_manager = gm, buffer_size = unat (block_size sb) \<rparr>)"

definition ext2fs_new :: "Guid \<Rightarrow> GPTEntry \<Rightarrow> Ext2Fs fs_io" where
  "ext2fs_new g entry s =
    (case identify_ext2 g entry (disks s) of
       (Ok (Some sb), d) \<Rightarrow>
         bind (lift_res (block_groups_count sb)) (\<lambda>groups.
         bind (modify (\<lambda>s. s \<lparr> disks := d, super_block := sb, allocated_block_indices := [],
             unwritten_freed_blocks := [] \<rparr>)) (\<lambda>_.
         ret (mounted g entry sb groups))) s
     | (Diverge, d) \<Rightarrow> (Diverge, s \<lparr> disks := d \<rparr>)
     | (_, d) \<Rightarrow> (Panic, s \<lparr> disks := d \<rparr>))"

definition fs_len :: "Ext2Fs \<Rightarrow> int" where
  "fs_len fs =
    (let n = uint (ge_end_lba (fs_entry fs) - ge_start_lba (fs_entry fs)) in
     if n < 2 ^ 63 then n else 2 ^ 63 - 1)"

definition block_group_size :: "int \<Rightarrow> int \<Rightarrow> int" where
  "block_group_size bpg bs = i64 (bpg * quot bs 512)"

definition get_block_group_table_lba :: "Ext2Fs \<Rightarrow> SuperBlock \<Rightarrow> int" where
  "get_block_group_table_lba fs sb =
     block_idx_to_lba (io_block_size (io_handler fs)) (s_first_data_block sb + 1)"

section \<open>Inodes\<close>

definition INODE_SIZE :: int where
  "INODE_SIZE = 128"

record InodePlus =
  inode :: Inode
  absolute_idx :: u32
  ip_group_number :: u32
  relative_idx :: u32

definition inode_block_count :: "SuperBlock \<Rightarrow> Inode \<Rightarrow> (HalFsIOErr, u32) res" where
  "inode_block_count sb i =
    (if block_size sb = 0 then Panic else Ok (i_blocks i * 512 div block_size sb))"

definition global_idx_to_inode_plus :: "SuperBlock \<Rightarrow> Inode \<Rightarrow> u32 \<Rightarrow> (HalFsIOErr, InodePlus) res" where
  "global_idx_to_inode_plus sb i idx =
    (if s_inodes_per_group sb = 0 then Panic
     else Ok \<lparr> inode = i, absolute_idx = idx, ip_group_number = (idx - 1) div s_inodes_per_group sb,
       relative_idx = (idx - 1) mod s_inodes_per_group sb \<rparr>)"

definition relative_idx_to_inode_plus :: "SuperBlock \<Rightarrow> Inode \<Rightarrow> u32 \<Rightarrow> u32 \<Rightarrow> InodePlus" where
  "relative_idx_to_inode_plus sb i gr idx =
    \<lparr> inode = i, absolute_idx = gr * s_inodes_per_group sb + idx + 1, ip_group_number = gr,
      relative_idx = idx \<rparr>"

definition inode_sector :: "u32 \<Rightarrow> int" where
  "inode_sector idx = uint idx * INODE_SIZE div 512"

definition inode_offset :: "u32 \<Rightarrow> nat" where
  "inode_offset idx = nat (uint idx * INODE_SIZE mod 512)"

definition get_inode_in_group :: "Ext2Fs \<Rightarrow> u32 \<Rightarrow> u32 \<Rightarrow> InodePlus fs_io" where
  "get_inode_in_group fs gr idx =
     bind (get_group (group_manager fs) (uint gr)) (\<lambda>group.
     bind (read_sectors (io_handler fs) (replicate 512 0)
       (i64 (get_inode_table_lba group + inode_sector idx))) (\<lambda>buf.
     bind (lift_res (slice buf (inode_offset idx) (length buf))) (\<lambda>b.
     bind (lift_res (map_err DeserializationErr (deserialize_inode Little b))) (\<lambda>(i, _).
     bind get_st (\<lambda>s.
     ret \<lparr> inode = i, absolute_idx = s_inodes_per_group (super_block s) * gr + idx + 1,
       ip_group_number = gr, relative_idx = idx \<rparr>)))))"

definition get_nth_inode :: "Ext2Fs \<Rightarrow> u32 \<Rightarrow> InodePlus fs_io" where
  "get_nth_inode fs idx =
     bind get_st (\<lambda>s.
     let ipg = s_inodes_per_group (super_block s) in
     if ipg = 0 then crash
     else get_inode_in_group fs ((idx - 1) div ipg) ((idx - 1) mod ipg))"

text \<open>A serialiser run on the tail of a buffer, its outcome and the buffer afterwards.\<close>

definition serialize_tail :: "ser \<Rightarrow> bytes \<Rightarrow> nat \<Rightarrow> (HalFsIOErr, bytes) res" where
  "serialize_tail f buf off =
    (if off \<le> length buf then
       (case f (drop off buf) of
          (Ok _, t) \<Rightarrow> Ok (take off buf @ t)
        | (Err e, t) \<Rightarrow> Err (SerializationErr e)
        | (Panic, t) \<Rightarrow> Panic
        | (Diverge, t) \<Rightarrow> Diverge)
     else Panic)"

definition overlay :: "bytes \<Rightarrow> bytes \<Rightarrow> (HalFsIOErr, bytes) res" where
  "overlay buf b = (if length b \<le> length buf then Ok (splice_at buf 0 b) else Panic)"

definition count_new_inode :: "Ext2Fs \<Rightarrow> InodePlus \<Rightarrow> bytes \<Rightarrow> unit fs_io" where
  "count_new_inode fs ip buf =
     bind get_st (\<lambda>s.
     let gr = uint (ip_group_number ip);
         lba = i64 (get_block_group_table_lba fs (super_block s) + desc_lba_offset gr)
     in
     bind (read_sectors (io_handler fs) buf lba) (\<lambda>buf.
     bind (lift_res (update_descriptor_at buf (desc_byte_offset gr)
       (\<lambda>d. d \<lparr> bg_free_inodes_count := bg_free_inodes_count d - 1,
               bg_used_dirs_count := bg_used_dirs_count d + (if is_directory (inode ip) then 1 else 0) \<rparr>)))
     (\<lambda>buf.
     bind (write_sectors (io_handler fs) buf lba) (\<lambda>_.
     bind (modify (\<lambda>s. s \<lparr> super_block := (super_block s)
       \<lparr> s_free_inodes_count := s_free_inodes_count (super_block s) - 1 \<rparr> \<rparr>)) (\<lambda>_.
     bind get_st (\<lambda>s.
     bind (lift_res (overlay buf (super_block_bytes (super_block s)))) (\<lambda>buf.
     write_sectors (io_handler fs) buf 3)))))))"

definition do_write_inode :: "Ext2Fs \<Rightarrow> InodePlus \<Rightarrow> bool \<Rightarrow> unit fs_io" where
  "do_write_inode fs ip is_new =
     bind (get_group (group_manager fs) (uint (ip_group_number ip))) (\<lambda>group.
     let lba = i64 (get_inode_table_lba group + inode_sector (relative_idx ip)) in
     bind (read_sectors (io_handler fs) (replicate 512 0) lba) (\<lambda>buf.
     bind (lift_res (serialize_tail (serialize_inode Little (inode ip)) buf
       (inode_offset (relative_idx ip)))) (\<lambda>buf.
     bind (write_sectors (io_handler fs) buf lba) (\<lambda>_.
     if is_new then count_new_inode fs ip buf else ret ()))))"

definition write_inode :: "Ext2Fs \<Rightarrow> InodePlus \<Rightarrow> unit fs_io" where
  "write_inode fs ip = do_write_inode fs ip False"

definition write_new_inode :: "Ext2Fs \<Rightarrow> InodePlus \<Rightarrow> unit fs_io" where
  "write_new_inode fs ip = do_write_inode fs ip True"

section \<open>The partition is a sector store\<close>

text \<open>The bytes of the partition, addressed from its first sector.\<close>

definition part :: "IoHandler \<Rightarrow> ext2 \<Rightarrow> int \<Rightarrow> u8" where
  "part io s = (\<lambda>a. drive_img (drive_id io) (disks s) (512 * start_lba io + a))"

definition set_part :: "IoHandler \<Rightarrow> (int \<Rightarrow> u8) \<Rightarrow> ext2 \<Rightarrow> ext2" where
  "set_part io f s =
     s \<lparr> disks := set_drive_img (drive_id io) (\<lambda>a. f (a - 512 * start_lba io)) (disks s) \<rparr>"

definition part_ok :: "IoHandler \<Rightarrow> ext2 \<Rightarrow> bool" where
  "part_ok io s \<longleftrightarrow> drive_ok (drive_id io) (disks s) \<and> 0 \<le> start_lba io \<and> start_lba io < 2 ^ 62"

definition in_reach :: "IoHandler \<Rightarrow> int \<Rightarrow> bool" where
  "in_reach io lba \<longleftrightarrow> - start_lba io \<le> lba \<and> lba < 2 ^ 62"

lemma dump_shift: "dump (\<lambda>a. F (k + a)) x n = dump F (k + x) n"
  by (simp add: dump_def add.assoc)

lemma patch_shift: "(\<lambda>a. patch (\<lambda>a. F (k + a)) x bs (a - k)) = patch F (k + x) bs"
  by (rule ext) (simp add: patch_def algebra_simps)

lemma absolute_lba:
  assumes "part_ok io s" "in_reach io lba"
  shows "i64 (start_lba io + lba) = start_lba io + lba" "0 \<le> start_lba io + lba" "start_lba io + lba < 9223372036854775808"
  using assms by (simp_all add: part_ok_def in_reach_def i64_id)

interpretation partition: sector_store "read_sectors io" "write_sectors io"
    "part io" "set_part io" "part_ok io" "in_reach io" for io
proof (unfold_locales, goal_cases)
  case (1 s lba buf)
  then have "drive_ok (drive_id io) (disks s)" by (simp add: part_ok_def)
  with 1 show ?case
    by (simp add: read_sectors_def io_read_sectors_def map_err_st_def on_disks_def absolute_lba
        drive.rd_ok part_def dump_shift distrib_left)
next
  case (2 s lba buf)
  then have "drive_ok (drive_id io) (disks s)" by (simp add: part_ok_def)
  with 2 show ?case
    by (simp add: write_sectors_def io_write_sectors_def map_err_st_def on_disks_def absolute_lba
        drive.wr_ok part_def set_part_def patch_shift distrib_left)
next
  case (3 s f)
  then show ?case by (simp add: part_ok_def part_def set_part_def drive.img_set_img)
next
  case (4 s f)
  then show ?case by (simp add: part_ok_def set_part_def drive.ok_set_img)
next
  case (5 s g f)
  then show ?case by (simp add: part_ok_def set_part_def drive.set_img_set_img)
qed

lemma set_part_frame [simp]:
  "super_block (set_part io f s) = super_block s"
  "allocated_block_indices (set_part io f s) = allocated_block_indices s"
  "unwritten_freed_blocks (set_part io f s) = unwritten_freed_blocks s"
  "clock (set_part io f s) = clock s" "clock_reads (set_part io f s) = clock_reads s"
  by (simp_all add: set_part_def)

text \<open>State updates that leave the disk alone.\<close>

lemma part_frame [simp]:
  "part io (s \<lparr> super_block := sb \<rparr>) = part io s"
  "part io (s \<lparr> allocated_block_indices := bs \<rparr>) = part io s"
  "part io (s \<lparr> unwritten_freed_blocks := us \<rparr>) = part io s"
  "part io (s \<lparr> clock_reads := k \<rparr>) = part io s"
  "part_ok io (s \<lparr> super_block := sb \<rparr>) = part_ok io s"
  "part_ok io (s \<lparr> allocated_block_indices := bs \<rparr>) = part_ok io s"
  "part_ok io (s \<lparr> unwritten_freed_blocks := us \<rparr>) = part_ok io s"
  "part_ok io (s \<lparr> clock_reads := k \<rparr>) = part_ok io s"
  by (simp_all add: part_def part_ok_def)

lemma read_block_eq: "read_block io buf idx = read_sectors io buf (block_idx_to_lba (io_block_size io) idx)"
  by (simp add: read_block_def read_sectors_def io_read_block_def)

lemma write_block_eq: "write_block io buf idx = write_sectors io buf (block_idx_to_lba (io_block_size io) idx)"
  by (simp add: write_block_def write_sectors_def io_write_block_def io_write_sectors_def)

section \<open>Reads leave the state alone\<close>

lemma readonly_read_by_guid [readonly_intros]: "readonly (read_sectors_by_guid g buf lba)"
  unfolding read_sectors_by_guid_def read_sectors_by_idx_def by (intro readonly_intros)

lemma readonly_on_disks [readonly_intros]: "readonly m \<Longrightarrow> readonly (on_disks m)"
  by (subst readonly_def) (auto simp: on_disks_def split: prod.splits dest: readonlyD)

lemma readonly_read_sectors [readonly_intros]: "readonly (read_sectors io buf lba)"
  unfolding read_sectors_def io_read_sectors_def by (intro readonly_intros)

lemma readonly_read_block [readonly_intros]: "readonly (read_block io buf idx)"
  by (simp add: read_block_eq readonly_read_sectors)

lemma readonly_get_group [readonly_intros]: "readonly (get_group gm gr)"
  unfolding get_group_def by (intro readonly_intros)

lemma readonly_get_inode_in_group [readonly_intros]: "readonly (get_inode_in_group fs gr idx)"
  unfolding get_inode_in_group_def by (intro readonly_intros)

lemma readonly_get_nth_inode [readonly_intros]: "readonly (get_nth_inode fs idx)"
  unfolding get_nth_inode_def by (intro readonly_intros)

lemma get_inode_in_group_fields:
  assumes "get_inode_in_group fs gr idx s = (Ok ip, s')"
  shows "ip_group_number ip = gr" "relative_idx ip = idx"
    "absolute_idx ip = s_inodes_per_group (super_block s) * gr + idx + 1"
  using assms
  by (auto simp: get_inode_in_group_def bind_def split: prod.splits res.splits
      dest!: readonlyD [OF readonly_get_group] readonlyD [OF readonly_read_sectors])

section \<open>Addresses\<close>

text \<open>Block sizes of ext2: 1, 2, 4, up to 64 KiB.\<close>

definition sane_block_size :: "u32 \<Rightarrow> bool" where
  "sane_block_size bs \<longleftrightarrow> 1024 \<le> unat bs \<and> unat bs \<le> 65536 \<and> 512 dvd unat bs"

lemma uint_lt_u32: "uint (w :: u32) < 2 ^ 32"
  using uint_lt2p [of w] by simp

lemma block_idx_to_lba_eq:
  assumes "sane_block_size bs"
  shows "512 * block_idx_to_lba bs idx = uint idx * uint bs"
    and "0 \<le> block_idx_to_lba bs idx" and "block_idx_to_lba bs idx < 2 ^ 40"
proof -
  obtain k where k: "unat bs = 512 * k" and le: "unat bs \<le> 65536" "1024 \<le> unat bs"
    using assms by (auto simp: sane_block_size_def)
  have bs: "uint bs = 512 * int k" using arg_cong [OF k, of int] by simp
  have idx: "0 \<le> uint idx" "uint idx < 2 ^ 32" by (simp, rule uint_lt_u32)
  have kb: "int k \<le> 128" using k le by simp
  have "uint idx * uint bs \<le> 2 ^ 32 * 65536"
    using idx kb bs by (intro mult_mono) auto
  moreover have "0 \<le> uint idx * uint bs" by simp
  ultimately have "i64 (uint idx * uint bs) = uint idx * uint bs"
    using i64_small [of "uint idx * uint bs"] by linarith
  then have *: "block_idx_to_lba bs idx = uint idx * int k"
    by (simp add: block_idx_to_lba_def bs)
  show "512 * block_idx_to_lba bs idx = uint idx * uint bs" by (simp add: * bs)
  show "0 \<le> block_idx_to_lba bs idx" by (simp add: *)
  have "uint idx * int k \<le> uint idx * 128" using kb by (intro mult_left_mono) simp_all
  then show "block_idx_to_lba bs idx < 2 ^ 40" using idx by (simp add: *)
qed

section \<open>Descriptors and inodes on the partition\<close>

definition wf_gm :: "GroupManager \<Rightarrow> bool" where
  "wf_gm gm \<longleftrightarrow> gm_block_size gm = io_block_size (gm_io_handler gm) \<and> sane_block_size (gm_block_size gm)"

definition wf_fs :: "Ext2Fs \<Rightarrow> bool" where
  "wf_fs fs \<longleftrightarrow> wf_gm (group_manager fs) \<and> gm_io_handler (group_manager fs) = io_handler fs \<and>
     ba_group_manager (block_allocator fs) = group_manager fs \<and>
     ba_io_handler (block_allocator fs) = io_handler fs \<and>
     ba_buffer_size (block_allocator fs) = unat (io_block_size (io_handler fs)) \<and>
     buffer_size fs = unat (io_block_size (io_handler fs))"

lemma wf_fs_mounted: "sane_block_size (block_size sb) \<Longrightarrow> wf_fs (mounted g entry sb groups)"
  by (simp add: wf_fs_def wf_gm_def mounted_def Let_def)

abbreviation fs_block_size :: "Ext2Fs \<Rightarrow> u32" where
  "fs_block_size fs \<equiv> io_block_size (io_handler fs)"

definition desc_pos :: "GroupManager \<Rightarrow> int \<Rightarrow> int" where
  "desc_pos gm gr = uint (first_data_block gm + 1) * uint (gm_block_size gm) + 32 * gr"

definition desc_of :: "GroupManager \<Rightarrow> (int \<Rightarrow> u8) \<Rightarrow> int \<Rightarrow> GroupDescriptor" where
  "desc_of gm f gr = group_descriptor_of (dump f (desc_pos gm gr) 18)"

definition inode_pos :: "Ext2Fs \<Rightarrow> (int \<Rightarrow> u8) \<Rightarrow> u32 \<Rightarrow> u32 \<Rightarrow> int" where
  "inode_pos fs f gr idx =
     uint (bg_inode_table (desc_of (group_manager fs) f (uint gr))) * uint (fs_block_size fs)
     + 128 * uint idx"

lemma desc_offsets:
  assumes "0 \<le> gr" "gr < 2 ^ 32"
  shows "desc_lba_offset gr = 32 * gr div 512" "desc_byte_offset gr = 32 * gr mod 512"
  using assms i64_small [of "32 * gr"]
  by (simp_all add: desc_lba_offset_def desc_byte_offset_def BLOCK_GROUP_DESCRIPTOR_SIZE_def mult.commute)

lemma desc_byte_offset_bound:
  assumes "0 \<le> gr" "gr < 2 ^ 32"
  shows "0 \<le> desc_byte_offset gr" "nat (desc_byte_offset gr) + 18 \<le> 512"
proof -
  show "0 \<le> desc_byte_offset gr" using assms by (simp add: desc_offsets)
  have "32 * gr mod 512 = 32 * (gr mod 16)" using mult_mod_right [of 32 gr 16] by simp
  moreover have "gr mod 16 \<le> 15" by simp
  ultimately show "nat (desc_byte_offset gr) + 18 \<le> 512" using assms by (simp add: desc_offsets)
qed

lemma descriptor_at_dump:
  assumes "0 \<le> off" "nat off + 18 \<le> n"
  shows "descriptor_at (dump f a n) off = Ok (group_descriptor_of (dump f (a + off) 18))"
  using assms dump_inside [of "nat off" 18 n f a]
  by (simp add: descriptor_at_def slice_def GROUP_DESCRIPTOR_LEN_def)

lemma bg_table_lba_eq:
  assumes "wf_gm gm"
  shows "512 * bg_table_lba gm = uint (first_data_block gm + 1) * uint (gm_block_size gm)"
    and "0 \<le> bg_table_lba gm" and "bg_table_lba gm < 2 ^ 40"
  using assms by (auto simp: wf_gm_def bg_table_lba_def block_idx_to_lba_eq
      dest: block_idx_to_lba_eq(3) [of _ "first_data_block gm + 1"])

lemma desc_sector:
  assumes "wf_gm gm" "0 \<le> gr" "gr < 2 ^ 32"
  defines "lba \<equiv> i64 (bg_table_lba gm + desc_lba_offset gr)"
  shows "512 * lba + desc_byte_offset gr = desc_pos gm gr" "0 \<le> lba" "lba < 2 ^ 41"
proof -
  have t: "0 \<le> bg_table_lba gm" "bg_table_lba gm < 2 ^ 40"
    using bg_table_lba_eq [OF assms(1)] by auto
  have "32 * gr div 512 < 2 ^ 32" "0 \<le> 32 * gr div 512" using assms(2,3) by auto
  then have "lba = bg_table_lba gm + 32 * gr div 512"
    unfolding lba_def desc_offsets [OF assms(2,3)] using t by (intro i64_small) auto
  then show "512 * lba + desc_byte_offset gr = desc_pos gm gr" "0 \<le> lba" "lba < 2 ^ 41"
    using t assms(2,3) bg_table_lba_eq(1) [OF assms(1)] mult_div_mod_eq [of 512 "32 * gr"]
    by (auto simp: desc_offsets desc_pos_def distrib_left)
qed

lemma get_group_ok:
  assumes "wf_gm gm" "part_ok (gm_io_handler gm) s" "0 \<le> gr" "gr < 2 ^ 32"
  shows "get_group gm gr s = (Ok (block_group gm gr (desc_of gm (part (gm_io_handler gm) s) gr)), s)"
proof -
  note d = desc_sector [OF assms(1,3,4)] and b = desc_byte_offset_bound [OF assms(3,4)]
  have "in_reach (gm_io_handler gm) (i64 (bg_table_lba gm + desc_lba_offset gr))"
    using d assms(2) by (auto simp: in_reach_def part_ok_def)
  then show ?thesis
    using assms(2) b
    by (simp add: get_group_def bind_def partition.rd_ok get_group_from_buffer_def descriptor_at_dump
        desc_of_def d(1))
qed

lemma group_block_idx_to_lba_eq:
  "wf_gm gm \<Longrightarrow> group_block_idx_to_lba (block_group gm gr d) idx =
     block_idx_to_lba (io_block_size (gm_io_handler gm)) idx"
  by (simp add: group_block_idx_to_lba_def block_group_def block_idx_to_lba_def wf_gm_def)

lemma descriptor_block_group [simp]: "descriptor (block_group gm gr d) = d"
  by (simp add: block_group_def)

text \<open>The sector that holds an inode and the inode's place in it.\<close>

lemma inode_sector_props:
  "512 * inode_sector idx + int (inode_offset idx) = 128 * uint idx"
  "0 \<le> inode_sector idx" "inode_sector idx < 2 ^ 32" "inode_offset idx + 128 \<le> 512"
proof -
  have off: "int (inode_offset idx) = 128 * (uint idx mod 4)"
    using mult_mod_right [of 128 "uint idx" 4] by (simp add: inode_offset_def INODE_SIZE_def mult.commute)
  have sec: "inode_sector idx = uint idx div 4"
    by (simp add: inode_sector_def INODE_SIZE_def)
  show "512 * inode_sector idx + int (inode_offset idx) = 128 * uint idx"
    using off sec by presburger
  show "0 \<le> inode_sector idx" by (simp add: sec pos_imp_zdiv_nonneg_iff)
  show "inode_sector idx < 2 ^ 32"
    using uint_lt_u32 [of idx] by (simp add: inode_sector_def INODE_SIZE_def)
  have "uint idx mod 4 \<le> 3" by simp
  with off show "inode_offset idx + 128 \<le> 512" by linarith
qed

lemma inode_lba:
  fixes gr idx :: u32
  assumes "wf_fs fs" "part_ok (io_handler fs) s"
  defines "d \<equiv> desc_of (group_manager fs) (part (io_handler fs) s) (uint gr)"
  defines "lba \<equiv> i64 (get_inode_table_lba (block_group (group_manager fs) (uint gr) d) + inode_sector idx)"
  shows "512 * lba + int (inode_offset idx) = inode_pos fs (part (io_handler fs) s) gr idx"
    and "in_reach (io_handler fs) lba"
proof -
  let ?t = "block_idx_to_lba (fs_block_size fs) (bg_inode_table d)"
  have bs: "sane_block_size (fs_block_size fs)" "wf_gm (group_manager fs)"
      "gm_io_handler (group_manager fs) = io_handler fs"
    using assms(1) by (auto simp: wf_fs_def wf_gm_def)
  note t = block_idx_to_lba_eq [OF bs(1), of "bg_inode_table d"] and i = inode_sector_props [of idx]
  have "lba = ?t + inode_sector idx"
    unfolding lba_def get_inode_table_lba_def using t i bs
    by (simp add: group_block_idx_to_lba_eq i64_small)
  then show "512 * lba + int (inode_offset idx) = inode_pos fs (part (io_handler fs) s) gr idx"
      "in_reach (io_handler fs) lba"
    using t i assms(2) by (auto simp: inode_pos_def d_def in_reach_def part_ok_def)
qed

lemma get_group_fs:
  assumes "wf_fs fs" "part_ok (io_handler fs) s"
  shows "get_group (group_manager fs) (uint gr) s =
    (Ok (block_group (group_manager fs) (uint gr)
      (desc_of (group_manager fs) (part (io_handler fs) s) (uint (gr :: u32)))), s)"
  using assms get_group_ok [of "group_manager fs" s "uint gr"] uint_lt_u32 [of gr]
  by (simp add: wf_fs_def)

lemma get_inode_in_group_ok:
  assumes "wf_fs fs" "part_ok (io_handler fs) s"
  defines "f \<equiv> part (io_handler fs) s"
  shows "get_inode_in_group fs gr idx s =
    (Ok \<lparr> inode = inode_of (dump f (inode_pos fs f gr idx) 128),
       absolute_idx = s_inodes_per_group (super_block s) * gr + idx + 1, ip_group_number = gr,
       relative_idx = idx \<rparr>, s)"
proof -
  note l = inode_lba [OF assms(1,2), of gr idx] and p = inode_sector_props(4) [of idx]
  have "drop (inode_offset idx) (dump f a 512) =
      dump f (a + int (inode_offset idx)) (512 - inode_offset idx)" for a
    using p by (intro nth_equalityI) (simp_all add: algebra_simps)
  then show ?thesis
    using assms(2) p l(2)
    by (simp add: get_inode_in_group_def bind_def get_group_fs [OF assms(1,2)] partition.rd_ok
        slice_def sub_list_def deserialize_inode_total take_dump l(1) f_def)
qed

lemma serialize_tail_inode:
  assumes "wf_inode i" "off + 128 \<le> length buf"
  shows "serialize_tail (serialize_inode e i) buf off = Ok (splice_at buf off (inode_image e i))"
  using assms
  by (simp add: serialize_tail_def inode.serialize_enough splice_at_def add.commute)

lemma write_inode_ok:
  assumes "wf_fs fs" "part_ok (io_handler fs) s" "wf_inode (inode ip)"
  defines "f \<equiv> part (io_handler fs) s"
  shows "write_inode fs ip s = (Ok (), set_part (io_handler fs)
    (patch f (inode_pos fs f (ip_group_number ip) (relative_idx ip)) (inode_image Little (inode ip))) s)"
proof -
  note l = inode_lba [OF assms(1,2), of "ip_group_number ip" "relative_idx ip"]
    and p = inode_sector_props(4) [of "relative_idx ip"]
  show ?thesis
    using assms(2,3) p l(2)
    by (simp add: write_inode_def do_write_inode_def bind_def get_group_fs [OF assms(1,2)]
        partition.rd_ok partition.wr_ok serialize_tail_inode patch_splice l(1) f_def Let_def)
qed

section \<open>Properties\<close>

text \<open>Two byte ranges of the partition that do not meet.\<close>

definition apart :: "int \<Rightarrow> int \<Rightarrow> int \<Rightarrow> int \<Rightarrow> bool" where
  "apart a n b m \<longleftrightarrow> a + n \<le> b \<or> b + m \<le> a"

lemma dump_patch_apart: "apart a (int (length bs)) b (int n) \<Longrightarrow> dump (patch f a bs) b n = dump f b n"
  by (rule dump_patch_disjoint) (auto simp: apart_def)

lemma inode_pos_patch:
  assumes "apart p (int (length bs)) (desc_pos (group_manager fs) (uint gr)) 18"
  shows "inode_pos fs (patch f p bs) gr idx = inode_pos fs f gr idx"
  using assms by (simp add: inode_pos_def desc_of_def dump_patch_apart)

text \<open>
  A reliable drive with the given partition content, and a file system of one
  group of 1 KiB blocks mounted on it; the witnesses of this and of the
  following theories use them.
\<close>

definition sample_guid :: Guid where
  "sample_guid = guid_from_bytes (replicate 16 0)"

definition sample_partition :: GPTEntry where
  "sample_partition = \<lparr> ge_type_guid = replicate 16 0, ge_unique_guid = replicate 16 0,
     ge_start_lba = 8, ge_end_lba = 16384, ge_flags = 0, ge_name1 = replicate 32 0,
     ge_name2 = replicate 4 0 \<rparr>"

definition sample_super_block :: SuperBlock where
  "sample_super_block = (super_block_of (replicate 264 0)) \<lparr> s_log_block_size := 0, s_blocks_count := 8192,
     s_blocks_per_group := 8192, s_inodes_per_group := 64, s_first_data_block := 1,
     s_free_blocks_count := 100, s_free_inodes_count := 50, s_magic := 0xEF53 \<rparr>"

definition sample_fs :: Ext2Fs where
  "sample_fs = mounted sample_guid sample_partition sample_super_block 1"

definition sample_ext2 :: "(int \<Rightarrow> u8) \<Rightarrow> ext2" where
  "sample_ext2 f = \<lparr>
     disks = \<lparr> STORAGE_DEVICES_BY_IDX = Some [0 \<mapsto> \<lparr> sectors = 20000, content = (\<lambda>a. f (a - 4096)),
         read_fault = (\<lambda>_ _. None), write_fault = (\<lambda>_ _. None) \<rparr>],
       STORAGE_DEVICES_BY_GUID = Some [sample_guid \<mapsto> 0] \<rparr>,
     super_block = sample_super_block, allocated_block_indices = [], unwritten_freed_blocks = [],
     clock = (\<lambda>_. Some \<lparr> second = 0, minute = 0, hour = 0, day = 1, month = 1, year = 2000, weekday = 7 \<rparr>),
     clock_reads = 0 \<rparr>"

lemma sample_fs_fields [simp]:
  "drive_id (io_handler sample_fs) = sample_guid" "start_lba (io_handler sample_fs) = 8"
  "io_block_size (io_handler sample_fs) = 1024"
  "blocks_per_group (group_manager sample_fs) = 8192" "first_data_block (group_manager sample_fs) = 1"
  "gm_block_size (group_manager sample_fs) = 1024"
  "ba_block_groups_count (block_allocator sample_fs) = 1"
  "gm_io_handler (group_manager sample_fs) = io_handler sample_fs"
  by (simp_all add: sample_fs_def mounted_def sample_partition_def sample_super_block_def block_size_def Let_def)

lemma sample_wf_fs: "wf_fs sample_fs"
  unfolding sample_fs_def
  by (rule wf_fs_mounted)
    (simp add: sane_block_size_def block_size_def sample_super_block_def)

lemma sample_part [simp]:
  "part (io_handler sample_fs) (sample_ext2 f) = f" "part_ok (io_handler sample_fs) (sample_ext2 f)"
  "super_block (sample_ext2 f) = sample_super_block" "allocated_block_indices (sample_ext2 f) = []"
  "unwritten_freed_blocks (sample_ext2 f) = []"
  by (simp_all add: part_def part_ok_def drive_img_def drive_ok_def drive_of_def sample_ext2_def reliable_def)

lemma zero_descriptor: "desc_of gm (\<lambda>_. 0) gr = \<lparr> bg_block_bitmap = 0, bg_inode_bitmap = 0,
    bg_inode_table = 0, bg_free_blocks_count = 0, bg_free_inodes_count = 0, bg_used_dirs_count = 0 \<rparr>"
  by (simp add: desc_of_def group_descriptor_of_def from_le_def)

text \<open>C20. Writing an inode and reading it back gives the inode that was written, and every inode
  stored elsewhere is read as before, provided the record does not lie on the group descriptors
  involved.\<close>

theorem write_inode_read_back:
  fixes fs ip s
  defines "f \<equiv> part (io_handler fs) s"
  defines "p \<equiv> inode_pos fs f (ip_group_number ip) (relative_idx ip)"
  assumes "wf_fs fs" "part_ok (io_handler fs) s" "wf_inode (inode ip)"
    and "apart p 128 (desc_pos (group_manager fs) (uint (ip_group_number ip))) 18"
  shows "\<exists>s'. write_inode fs ip s = (Ok (), s') \<and>
    get_inode_in_group fs (ip_group_number ip) (relative_idx ip) s' =
      (Ok (ip \<lparr> absolute_idx := s_inodes_per_group (super_block s) * ip_group_number ip + relative_idx ip + 1 \<rparr>), s') \<and>
    (\<forall>gr idx. apart p 128 (desc_pos (group_manager fs) (uint gr)) 18 \<longrightarrow>
       apart p 128 (inode_pos fs f gr idx) 128 \<longrightarrow>
       fst (get_inode_in_group fs gr idx s') = fst (get_inode_in_group fs gr idx s))"
proof -
  let ?s = "set_part (io_handler fs) (patch f p (inode_image Little (inode ip))) s"
  have w: "write_inode fs ip s = (Ok (), ?s)"
    using write_inode_ok [OF assms(3,4,5)] by (simp add: f_def p_def)
  have ok: "part_ok (io_handler fs) ?s" and img: "part (io_handler fs) ?s = patch f p (inode_image Little (inode ip))"
    using assms(4) by (simp_all add: partition.ok_set_img partition.img_set_img)
  have pos: "inode_pos fs (part (io_handler fs) ?s) gr idx = inode_pos fs f gr idx"
    if "apart p 128 (desc_pos (group_manager fs) (uint gr)) 18" for gr idx
    using that assms(5) unfolding img by (intro inode_pos_patch) simp
  have "inode_of (inode_image Little (inode ip)) = inode ip"
    using deserialize_inode_total [of "inode_image Little (inode ip)"] assms(5)
      deserialize_inode_image [of "inode ip" Little "[]"] by simp
  then have "get_inode_in_group fs (ip_group_number ip) (relative_idx ip) ?s =
      (Ok (ip \<lparr> absolute_idx := s_inodes_per_group (super_block s) * ip_group_number ip + relative_idx ip + 1 \<rparr>), ?s)"
    using get_inode_in_group_ok [OF assms(3) ok] pos [OF assms(6)] assms(5)
    by (simp add: img dump_patch_same flip: p_def)
  moreover have "fst (get_inode_in_group fs gr idx ?s) = fst (get_inode_in_group fs gr idx s)"
    if "apart p 128 (desc_pos (group_manager fs) (uint gr)) 18" "apart p 128 (inode_pos fs f gr idx) 128" for gr idx
    using get_inode_in_group_ok [OF assms(3) ok] get_inode_in_group_ok [OF assms(3,4)] pos [OF that(1)]
      that(2) assms(5) by (simp add: img dump_patch_apart flip: f_def)
  ultimately show ?thesis using w by blast
qed

theorem write_inode_read_back_witness:
  "\<exists>s'. write_inode sample_fs \<lparr> inode = inode_default, absolute_idx = 5, ip_group_number = 0,
      relative_idx = 4 \<rparr> (sample_ext2 (\<lambda>_. 0)) = (Ok (), s')"
proof -
  let ?ip = "\<lparr> inode = inode_default, absolute_idx = 5, ip_group_number = 0, relative_idx = 4 \<rparr>"
  have "apart (inode_pos sample_fs (\<lambda>_. 0) 0 4) 128 (desc_pos (group_manager sample_fs) (uint (0 :: u32))) 18"
    by (simp add: apart_def inode_pos_def desc_pos_def zero_descriptor)
  then show ?thesis
    using write_inode_read_back [OF sample_wf_fs sample_part(2), of ?ip "\<lambda>_. 0"] by auto
qed

text \<open>The inode returned for a number carries that number, and its group and index in the
  group are those the conversions between global and relative numbers give.\<close>

theorem get_nth_inode_numbering:
  assumes "get_nth_inode fs idx s = (Ok ip, s')"
  shows "absolute_idx ip = idx \<and>
    global_idx_to_inode_plus (super_block s) (inode ip) idx = Ok ip \<and>
    relative_idx_to_inode_plus (super_block s) (inode ip) (ip_group_number ip) (relative_idx ip) = ip"
proof -
  let ?n = "s_inodes_per_group (super_block s)"
  have n: "?n \<noteq> 0" and g: "get_inode_in_group fs ((idx - 1) div ?n) ((idx - 1) mod ?n) s = (Ok ip, s')"
    using assms by (auto simp: get_nth_inode_def Let_def split: if_splits)
  note f = get_inode_in_group_fields [OF g]
  have "?n * ((idx - 1) div ?n) + (idx - 1) mod ?n = idx - 1"
    by (rule mult_div_mod_eq)
  then have a: "absolute_idx ip = idx" using f(3) by simp
  have "ip = \<lparr> inode = inode ip, absolute_idx = idx, ip_group_number = (idx - 1) div ?n,
      relative_idx = (idx - 1) mod ?n \<rparr>"
    using f(1,2) a by (intro InodePlus.equality) simp_all
  then have "global_idx_to_inode_plus (super_block s) (inode ip) idx = Ok ip"
    using n by (simp add: global_idx_to_inode_plus_def)
  moreover have "relative_idx_to_inode_plus (super_block s) (inode ip) (ip_group_number ip) (relative_idx ip) = ip"
    unfolding relative_idx_to_inode_plus_def using f by (intro InodePlus.equality) (simp_all add: mult.commute)
  ultimately show ?thesis using a by blast
qed

theorem get_nth_inode_numbering_witness:
  "\<exists>ip. get_nth_inode sample_fs 2 (sample_ext2 (\<lambda>_. 0)) = (Ok ip, sample_ext2 (\<lambda>_. 0)) \<and> absolute_idx ip = 2"
proof -
  have "s_inodes_per_group sample_super_block = 64"
    by (simp add: sample_super_block_def)
  then obtain ip where "get_nth_inode sample_fs 2 (sample_ext2 (\<lambda>_. 0)) = (Ok ip, sample_ext2 (\<lambda>_. 0))"
    using get_inode_in_group_ok [OF sample_wf_fs sample_part(2), of "1 div 64" "1 mod 64" "\<lambda>_. 0"]
    by (simp add: get_nth_inode_def)
  with get_nth_inode_numbering [OF this] show ?thesis by blast
qed

end
