(* ===== verification/Ext2Alloc.thy ===== *)
theory Ext2Alloc
  imports Ext2Disk Bits
begin

text \<open>
  The block allocator of the ext2 driver (\<^verbatim>\<open>drivers/fs/ext2/allocator.rs\<close>).
  Blocks handed out are kept in a pending set until their bitmap bits and
  group counters are written back; freed blocks are kept in another set.
\<close>

section \<open>Ordered sets\<close>

text \<open>The pending set is ordered by address alone, so membership looks at the address only.\<close>

definition set_contains :: "AllocatedBlock \<Rightarrow> AllocatedBlock list \<Rightarrow> bool" where
  "set_contains b bs \<longleftrightarrow> list_ex (\<lambda>x. addr x = addr b) bs"

definition set_insert :: "AllocatedBlock \<Rightarrow> AllocatedBlock list \<Rightarrow> AllocatedBlock list" where
  "set_insert b bs = (if set_contains b bs then bs else insort_key addr b bs)"

fun bump :: "int \<Rightarrow> (int \<times> int) list \<Rightarrow> (int \<times> int) list" where
  "bump g [] = [(g, 1)]"
| "bump g ((k, v) # m) =
    (if k = g then (k, i64 (v + 1)) # m
     else if g < k then (g, 1) # (k, v) # m
     else (k, v) # bump g m)"

section \<open>Allocation\<close>

definition allocated_block :: "BlockAllocator \<Rightarrow> Ext2BlockGroup \<Rightarrow> int \<Rightarrow> nat \<Rightarrow> AllocatedBlock" where
  "allocated_block ba grp gr i =
    \<lparr> addr = i64 (get_group_lba grp + int i * sectors_per_block grp),
      block_global_idx = as_u32 gr * blocks_per_group (ba_group_manager ba) + word_of_nat i,
      block_relatve_idx = word_of_nat i, gr_number = gr \<rparr>"

fun allocate_scan_bits :: "(nat \<Rightarrow> AllocatedBlock) \<Rightarrow> (nat \<times> Bit) list \<Rightarrow> nat \<Rightarrow>
    AllocatedBlock list \<Rightarrow> AllocatedBlock list \<Rightarrow>
    nat \<times> AllocatedBlock list \<times> AllocatedBlock list" where
  "allocate_scan_bits mk [] remaining pending acc = (remaining, pending, acc)"
| "allocate_scan_bits mk ((i, v) # rest) remaining pending acc =
    (if remaining = 0 then (remaining, pending, acc)
     else if v = One then allocate_scan_bits mk rest remaining pending acc
     else let b = mk i in
       if set_contains b pending then allocate_scan_bits mk rest remaining pending acc
       else allocate_scan_bits mk rest (remaining - 1) (set_insert b pending) (acc @ [b]))"

definition allocate_from_group :: "BlockAllocator \<Rightarrow> int \<Rightarrow> nat \<Rightarrow> AllocatedBlock list \<Rightarrow>
    (nat \<times> AllocatedBlock list) fs_io" where
  "allocate_from_group ba gr remaining acc =
     bind (get_group (ba_group_manager ba) gr) (\<lambda>group.
     bind (read_sectors (ba_io_handler ba) (get_buffer (ba_buffer_size ba)) (get_block_bitmap_lba group))
     (\<lambda>buf.
     bind get_st (\<lambda>s.
     case allocate_scan_bits (allocated_block ba group gr)
         (List.enumerate 0 (bit_collect (bit_iterator_new buf))) remaining
         (allocated_block_indices s) acc of
       (remaining, pending, acc) \<Rightarrow>
         bind (modify (\<lambda>s. s \<lparr> allocated_block_indices := pending \<rparr>)) (\<lambda>_. ret (remaining, acc)))))"

fun allocate_groups :: "BlockAllocator \<Rightarrow> int \<Rightarrow> int list \<Rightarrow> nat \<Rightarrow> AllocatedBlock list \<Rightarrow>
    (nat \<times> AllocatedBlock list) fs_io" where
  "allocate_groups ba exclude [] remaining acc = ret (remaining, acc)"
| "allocate_groups ba exclude (gr # grs) remaining acc =
    (if gr = exclude then allocate_groups ba exclude grs remaining acc
     else if remaining = 0 then ret (remaining, acc)
     else bind (allocate_from_group ba gr remaining acc)
       (\<lambda>(remaining, acc). allocate_groups ba exclude grs remaining acc))"

definition allocate_n_blocks :: "BlockAllocator \<Rightarrow> int \<Rightarrow> nat \<Rightarrow> AllocatedBlock list fs_io" where
  "allocate_n_blocks ba exclude remaining_blocks =
     bind (allocate_groups ba exclude [0..ba_block_groups_count ba - 1] remaining_blocks [])
     (\<lambda>(remaining, acc). if 0 < remaining then fail NoSpaceLeft else ret acc)"

definition allocate_n_blocks_in_group :: "BlockAllocator \<Rightarrow> int \<Rightarrow> nat \<Rightarrow> AllocatedBlock list fs_io" where
  "allocate_n_blocks_in_group ba gr num =
     bind (allocate_from_group ba gr num []) (\<lambda>(num, acc).
     if num = 0 then ret acc
     else bind (allocate_n_blocks ba gr num) (\<lambda>more. ret (acc @ more)))"

section \<open>Writing the bookkeeping back\<close>

definition set_bit_in :: "bytes \<Rightarrow> nat \<Rightarrow> (HalFsIOErr, bytes) res" where
  "set_bit_in buf i = (if i div 8 < length buf then Ok (set_bit_at buf i) else Panic)"

fun mark_allocated :: "BlockAllocator \<Rightarrow> AllocatedBlock list \<Rightarrow> int \<Rightarrow> bytes \<Rightarrow> (int \<times> int) list \<Rightarrow>
    (int \<times> bytes \<times> (int \<times> int) list) fs_io" where
  "mark_allocated ba [] cur buf counts = ret (cur, buf, counts)"
| "mark_allocated ba (b # bs) cur buf counts =
     bind (get_group (ba_group_manager ba) (gr_number b)) (\<lambda>group.
     let lba = get_block_bitmap_lba group in
     bind (if cur \<noteq> lba then
         bind (if cur \<noteq> - 1 then write_sectors (ba_io_handler ba) buf cur else ret ()) (\<lambda>_.
         bind (read_sectors (ba_io_handler ba) buf lba) (\<lambda>buf. ret (lba, buf)))
       else ret (cur, buf)) (\<lambda>(cur, buf).
     bind (lift_res (set_bit_in buf (unat (block_global_idx b)))) (\<lambda>buf.
     mark_allocated ba bs cur buf (bump (gr_number b) counts))))"

text \<open>
  Both write-back functions walk group numbers and keep the current sector of
  descriptors in the buffer, writing it when they move to another one.
\<close>

fun update_descriptors :: "BlockAllocator \<Rightarrow> (int \<times> u16) list \<Rightarrow> int \<Rightarrow> bytes \<Rightarrow> (int \<times> bytes) fs_io" where
  "update_descriptors ba [] cur buf = ret (cur, buf)"
| "update_descriptors ba ((gr, n) # rest) cur buf =
    (let lba = i64 (bg_table_lba (ba_group_manager ba) + desc_lba_offset gr) in
     bind (if lba \<noteq> cur then
         bind (if cur \<noteq> - 1 then write_sectors (ba_io_handler ba) buf cur else ret ()) (\<lambda>_.
         bind (read_sectors (ba_io_handler ba) buf lba) (\<lambda>buf. ret (lba, buf)))
       else ret (cur, buf)) (\<lambda>(cur, buf).
     bind (lift_res (update_descriptor_at buf (desc_byte_offset gr)
       (\<lambda>d. d \<lparr> bg_free_blocks_count := bg_free_blocks_count d - n \<rparr>))) (\<lambda>buf.
     update_descriptors ba rest cur buf)))"

definition write_newly_allocated_blocks :: "BlockAllocator \<Rightarrow> bytes \<Rightarrow> unit fs_io" where
  "write_newly_allocated_blocks ba buf =
     bind get_st (\<lambda>s.
     bind (mark_allocated ba (allocated_block_indices s) (- 1) buf []) (\<lambda>(cur, buf, counts).
     bind (write_sectors (ba_io_handler ba) buf cur) (\<lambda>_.
     bind (update_descriptors ba (map (\<lambda>(g, n). (g, word_of_int n)) counts) (- 1) buf) (\<lambda>(cur, buf).
     bind (write_sectors (ba_io_handler ba) buf cur) (\<lambda>_.
     modify (\<lambda>s. s \<lparr> allocated_block_indices := [] \<rparr>))))))"

definition add_freed_block :: "u32 \<Rightarrow> unit fs_io" where
  "add_freed_block b =
     modify (\<lambda>s. s \<lparr> unwritten_freed_blocks := insort_insert b (unwritten_freed_blocks s) \<rparr>)"

definition write_freed_blocks :: "BlockAllocator \<Rightarrow> unit fs_io" where
  "write_freed_blocks ba =
     bind get_st (\<lambda>s.
     if unwritten_freed_blocks s \<noteq> [] \<and> blocks_per_group (ba_group_manager ba) = 0 then crash
     else
       bind (update_descriptors ba
         (map (\<lambda>b. (uint b div uint (blocks_per_group (ba_group_manager ba)), 1)) (unwritten_freed_blocks s))
         (- 1) (get_buffer (ba_buffer_size ba))) (\<lambda>_.
       modify (\<lambda>s. s \<lparr> unwritten_freed_blocks := [] \<rparr>)))"

section \<open>What an allocation takes\<close>

definition wf_ba :: "BlockAllocator \<Rightarrow> bool" where
  "wf_ba ba \<longleftrightarrow> wf_gm (ba_group_manager ba) \<and> gm_io_handler (ba_group_manager ba) = ba_io_handler ba \<and>
     ba_buffer_size ba = unat (io_block_size (ba_io_handler ba))"

lemma wf_ba_fs: "wf_fs fs \<Longrightarrow> wf_ba (block_allocator fs)"
  by (simp add: wf_fs_def wf_ba_def)

abbreviation ba_desc :: "BlockAllocator \<Rightarrow> (int \<Rightarrow> u8) \<Rightarrow> int \<Rightarrow> GroupDescriptor" where
  "ba_desc ba \<equiv> desc_of (ba_group_manager ba)"

definition bitmap_pos :: "BlockAllocator \<Rightarrow> (int \<Rightarrow> u8) \<Rightarrow> int \<Rightarrow> int" where
  "bitmap_pos ba f gr = uint (bg_block_bitmap (ba_desc ba f gr)) * uint (io_block_size (ba_io_handler ba))"

definition block_bitmap :: "BlockAllocator \<Rightarrow> (int \<Rightarrow> u8) \<Rightarrow> int \<Rightarrow> bytes" where
  "block_bitmap ba f gr = dump f (bitmap_pos ba f gr) (ba_buffer_size ba)"

definition nth_block :: "BlockAllocator \<Rightarrow> (int \<Rightarrow> u8) \<Rightarrow> int \<Rightarrow> nat \<Rightarrow> AllocatedBlock" where
  "nth_block ba f gr = allocated_block ba (block_group (ba_group_manager ba) gr (ba_desc ba f gr)) gr"

text \<open>A block whose bit is clear in the bitmap of its group.\<close>

definition free_on_disk :: "BlockAllocator \<Rightarrow> (int \<Rightarrow> u8) \<Rightarrow> AllocatedBlock \<Rightarrow> bool" where
  "free_on_disk ba f b \<longleftrightarrow> (\<exists>gr i. i < 8 * ba_buffer_size ba \<and> b = nth_block ba f gr i \<and>
     \<not> bit_at (block_bitmap ba f gr) i)"

definition took :: "BlockAllocator \<Rightarrow> (int \<Rightarrow> u8) \<Rightarrow> AllocatedBlock list \<Rightarrow> AllocatedBlock list \<Rightarrow>
    AllocatedBlock list \<Rightarrow> bool" where
  "took ba f P new P' \<longleftrightarrow> distinct (map addr new) \<and> set P' = set P \<union> set new \<and>
     (\<forall>b \<in> set new. addr b \<notin> addr ` set P \<and> free_on_disk ba f b)"

text \<open>Every clear bit of the group belongs to a pending block.\<close>

definition exhausted :: "BlockAllocator \<Rightarrow> (int \<Rightarrow> u8) \<Rightarrow> AllocatedBlock list \<Rightarrow> int \<Rightarrow> bool" where
  "exhausted ba f P gr \<longleftrightarrow> (\<forall>i < 8 * ba_buffer_size ba. \<not> bit_at (block_bitmap ba f gr) i \<longrightarrow>
     addr (nth_block ba f gr i) \<in> addr ` set P)"

lemma took_refl [simp]: "took ba f P [] P"
  by (simp add: took_def)

lemma took_trans: "took ba f P n1 P1 \<Longrightarrow> took ba f P1 n2 P2 \<Longrightarrow> took ba f P (n1 @ n2) P2"
  by (auto simp: took_def image_Un) (metis imageI)

lemma exhausted_mono: "exhausted ba f P gr \<Longrightarrow> took ba f P new P' \<Longrightarrow> exhausted ba f P' gr"
  by (auto simp: exhausted_def took_def image_Un)

lemma set_contains_iff: "set_contains b bs \<longleftrightarrow> addr b \<in> addr ` set bs"
  unfolding set_contains_def list_ex_iff by (metis image_iff)

lemma set_set_insert: "set (set_insert b bs) = (if set_contains b bs then set bs else insert b (set bs))"
  by (simp add: set_insert_def set_insort_key)

definition scan_post :: "(nat \<Rightarrow> AllocatedBlock) \<Rightarrow> (nat \<times> Bit) list \<Rightarrow> nat \<Rightarrow> AllocatedBlock list \<Rightarrow>
    nat \<Rightarrow> AllocatedBlock list \<Rightarrow> AllocatedBlock list \<Rightarrow> bool" where
  "scan_post mk ivs n P r P' new \<longleftrightarrow> length new + r = n \<and> distinct (map addr new) \<and>
     set P' = set P \<union> set new \<and>
     (\<forall>b \<in> set new. addr b \<notin> addr ` set P \<and> (\<exists>i. (i, Zero) \<in> set ivs \<and> b = mk i)) \<and>
     (0 < r \<longrightarrow> (\<forall>i. (i, Zero) \<in> set ivs \<longrightarrow> addr (mk i) \<in> addr ` set P'))"

lemma scan_post_skip:
  assumes "scan_post mk rest n P r P' new" "v = One \<or> set_contains (mk i) P"
  shows "scan_post mk ((i, v) # rest) n P r P' new"
  using assms by (auto simp: scan_post_def set_contains_iff image_Un)

lemma scan_post_take:
  assumes "scan_post mk rest (n - 1) (set_insert (mk i) P) r P' new" "n \<noteq> 0" "v = Zero"
    "\<not> set_contains (mk i) P"
  shows "scan_post mk ((i, v) # rest) n P r P' (mk i # new)"
  using assms by (auto simp: scan_post_def set_contains_iff set_set_insert image_Un)

lemma allocate_scan_bits_spec:
  assumes "allocate_scan_bits mk ivs n P acc = (r, P', acc')"
  shows "\<exists>new. acc' = acc @ new \<and> scan_post mk ivs n P r P' new"
  using assms
proof (induction ivs arbitrary: n P acc)
  case Nil
  then show ?case by (intro exI [of _ "[]"]) (simp add: scan_post_def)
next
  case (Cons iv rest)
  obtain i v where iv: "iv = (i, v)" by fastforce
  consider "n = 0" | "n \<noteq> 0" "v = One \<or> set_contains (mk i) P" | "n \<noteq> 0" "v = Zero" "\<not> set_contains (mk i) P"
    by (cases v) auto
  then show ?case
  proof cases
    case 1
    with Cons.prems show ?thesis by (intro exI [of _ "[]"]) (simp add: iv scan_post_def)
  next
    case 2
    then have "allocate_scan_bits mk rest n P acc = (r, P', acc')"
      using Cons.prems by (auto simp: iv Let_def split: if_splits)
    from Cons.IH [OF this] obtain new where "acc' = acc @ new" "scan_post mk rest n P r P' new" by blast
    with scan_post_skip [OF this(2) 2(2)] show ?thesis unfolding iv by blast
  next
    case 3
    then have "allocate_scan_bits mk rest (n - 1) (set_insert (mk i) P) (acc @ [mk i]) = (r, P', acc')"
      using Cons.prems by (simp add: iv Let_def)
    from Cons.IH [OF this] obtain new where
      "acc' = (acc @ [mk i]) @ new" "scan_post mk rest (n - 1) (set_insert (mk i) P) r P' new" by blast
    with scan_post_take [OF this(2) 3] show ?thesis unfolding iv by (intro exI [of _ "mk i # new"]) simp
  qed
qed

lemma bitmap_lba:
  fixes f gr
  assumes "wf_ba ba"
  defines "lba \<equiv> get_block_bitmap_lba (block_group (ba_group_manager ba) gr (ba_desc ba f gr))"
  shows "512 * lba = bitmap_pos ba f gr" "0 \<le> lba" "lba < 2 ^ 40" "512 dvd ba_buffer_size ba"
    "ba_buffer_size ba < 33554432"
proof -
  have w: "wf_gm (ba_group_manager ba)" "sane_block_size (io_block_size (ba_io_handler ba))"
      "gm_io_handler (ba_group_manager ba) = ba_io_handler ba"
    using assms(1) by (auto simp: wf_ba_def wf_gm_def)
  note l = block_idx_to_lba_eq [OF w(2), of "bg_block_bitmap (ba_desc ba f gr)"]
  have "lba = block_idx_to_lba (io_block_size (ba_io_handler ba)) (bg_block_bitmap (ba_desc ba f gr))"
    unfolding lba_def get_block_bitmap_lba_def using w by (simp add: group_block_idx_to_lba_eq)
  with l show "512 * lba = bitmap_pos ba f gr" "0 \<le> lba" "lba < 2 ^ 40"
    by (auto simp: bitmap_pos_def)
  show "512 dvd ba_buffer_size ba" "ba_buffer_size ba < 33554432" using assms(1) w(2) by (simp_all add: wf_ba_def sane_block_size_def)
qed

lemma read_bitmap_ok:
  assumes "wf_ba ba" "part_ok (ba_io_handler ba) s" "length buf = ba_buffer_size ba"
  defines "f \<equiv> part (ba_io_handler ba) s"
  shows "read_sectors (ba_io_handler ba) buf
      (get_block_bitmap_lba (block_group (ba_group_manager ba) gr (ba_desc ba f gr))) s =
    (Ok (block_bitmap ba f gr), s)"
proof -
  note l = bitmap_lba(1-3) [where f = f and gr = gr, OF assms(1)] bitmap_lba(4,5) [OF assms(1)]
  have "in_reach (ba_io_handler ba) (get_block_bitmap_lba (block_group (ba_group_manager ba) gr (ba_desc ba f gr)))"
    using l assms(2) by (auto simp: in_reach_def part_ok_def)
  then show ?thesis
    using assms(2,3) l by (simp add: partition.rd_ok block_bitmap_def f_def)
qed

lemma allocate_from_group_ok:
  assumes "wf_ba ba" "part_ok (ba_io_handler ba) s" "0 \<le> gr" "gr < 2 ^ 32"
  defines "f \<equiv> part (ba_io_handler ba) s"
  shows "\<exists>r new P. allocate_from_group ba gr n acc s = (Ok (r, acc @ new), s \<lparr> allocated_block_indices := P \<rparr>) \<and>
    length new + r = n \<and> took ba f (allocated_block_indices s) new P \<and> (0 < r \<longrightarrow> exhausted ba f P gr)"
proof -
  let ?B = "block_bitmap ba f gr" and ?g = "block_group (ba_group_manager ba) gr (ba_desc ba f gr)"
  let ?ivs = "List.enumerate 0 (bit_collect (bit_iterator_new ?B))"
  have lB: "length ?B = ba_buffer_size ba" by (simp add: block_bitmap_def)
  have ivs: "(i, Zero) \<in> set ?ivs \<longleftrightarrow> i < 8 * ba_buffer_size ba \<and> \<not> bit_at ?B i" for i
    by (auto simp: bit_collect_bytes in_set_enumerate_eq lB bit_of_def)
  have g: "get_group (ba_group_manager ba) gr s = (Ok ?g, s)"
    using get_group_ok [of "ba_group_manager ba" s gr] assms by (simp add: wf_ba_def)
  obtain r P acc' where scan: "allocate_scan_bits (nth_block ba f gr) ?ivs n (allocated_block_indices s) acc = (r, P, acc')"
    by (metis prod_cases3)
  obtain new where new: "acc' = acc @ new" "scan_post (nth_block ba f gr) ?ivs n (allocated_block_indices s) r P new"
    using allocate_scan_bits_spec [OF scan] by blast
  have "allocate_from_group ba gr n acc s = (Ok (r, acc @ new), s \<lparr> allocated_block_indices := P \<rparr>)"
    using scan new(1) read_bitmap_ok [OF assms(1,2), of "get_buffer (ba_buffer_size ba)" gr]
    by (simp add: allocate_from_group_def bind_def g get_buffer_def nth_block_def flip: f_def)
  moreover have "took ba f (allocated_block_indices s) new P"
    using new(2) unfolding scan_post_def took_def free_on_disk_def ivs by blast
  moreover have "0 < r \<longrightarrow> exhausted ba f P gr"
    using new(2) unfolding scan_post_def exhausted_def ivs by blast
  ultimately show ?thesis using new(2) by (auto simp: scan_post_def)
qed

lemma allocate_groups_ok:
  assumes "wf_ba ba" "part_ok (ba_io_handler ba) s" "\<forall>gr \<in> set grs. 0 \<le> gr \<and> gr < 2 ^ 32"
  shows "\<exists>r new P. allocate_groups ba ex grs n acc s = (Ok (r, acc @ new), s \<lparr> allocated_block_indices := P \<rparr>) \<and>
    length new + r = n \<and> took ba (part (ba_io_handler ba) s) (allocated_block_indices s) new P \<and>
    (0 < r \<longrightarrow> (\<forall>gr \<in> set grs - {ex}. exhausted ba (part (ba_io_handler ba) s) P gr))"
  using assms(2,3)
proof (induction grs arbitrary: n acc s)
  case Nil
  then show ?case
    by (intro exI [of _ n] exI [of _ "[]"] exI [of _ "allocated_block_indices s"]) simp
next
  case (Cons gr grs)
  let ?f = "part (ba_io_handler ba) s"
  consider "gr = ex" | "gr \<noteq> ex" "n = 0" | "gr \<noteq> ex" "n \<noteq> 0" by blast
  then show ?case
  proof cases
    case 1
    then show ?thesis using Cons by simp
  next
    case 2
    then show ?thesis
      by (intro exI [of _ 0] exI [of _ "[]"] exI [of _ "allocated_block_indices s"]) simp
  next
    case 3
    obtain r1 n1 P1 where 1: "allocate_from_group ba gr n acc s = (Ok (r1, acc @ n1), s \<lparr> allocated_block_indices := P1 \<rparr>)"
        "length n1 + r1 = n" "took ba ?f (allocated_block_indices s) n1 P1" "0 < r1 \<longrightarrow> exhausted ba ?f P1 gr"
      using allocate_from_group_ok [OF assms(1) Cons.prems(1), of gr n acc] Cons.prems(2) by auto
    obtain r n2 P where 2: "allocate_groups ba ex grs r1 (acc @ n1) (s \<lparr> allocated_block_indices := P1 \<rparr>) =
          (Ok (r, (acc @ n1) @ n2), s \<lparr> allocated_block_indices := P \<rparr>)"
        "length n2 + r = r1" "took ba ?f P1 n2 P" "0 < r \<longrightarrow> (\<forall>gr \<in> set grs - {ex}. exhausted ba ?f P gr)"
      using Cons.IH [of "s \<lparr> allocated_block_indices := P1 \<rparr>" r1 "acc @ n1"] Cons.prems by auto
    have "allocate_groups ba ex (gr # grs) n acc s = (Ok (r, acc @ (n1 @ n2)), s \<lparr> allocated_block_indices := P \<rparr>)"
      using 3 1(1) 2(1) by (simp add: bind_Ok)
    moreover have "0 < r \<longrightarrow> exhausted ba ?f P gr"
      using 1(4) 2(2,3) exhausted_mono by auto
    ultimately show ?thesis
      using 1(2) 2(2,4) took_trans [OF 1(3) 2(3)]
      by (intro exI [of _ r] exI [of _ "n1 @ n2"] exI [of _ P]) auto
  qed
qed

section \<open>Write-back\<close>

text \<open>Moving the bitmap buffer from one group to another.\<close>

definition cur_ok :: "int \<Rightarrow> bool" where
  "cur_ok cur \<longleftrightarrow> cur = - 1 \<or> (0 \<le> cur \<and> cur < 2 ^ 41)"

definition move_buffer :: "IoHandler \<Rightarrow> int \<Rightarrow> bytes \<Rightarrow> int \<Rightarrow> (int \<times> bytes) fs_io" where
  "move_buffer io cur buf lba =
    (if cur \<noteq> lba then
       bind (if cur \<noteq> - 1 then write_sectors io buf cur else ret ()) (\<lambda>_.
       bind (read_sectors io buf lba) (\<lambda>buf. ret (lba, buf)))
     else ret (cur, buf))"

lemma mark_allocated_step:
  "mark_allocated ba (b # bs) cur buf counts =
     bind (get_group (ba_group_manager ba) (gr_number b)) (\<lambda>grp.
     bind (move_buffer (ba_io_handler ba) cur buf (get_block_bitmap_lba grp)) (\<lambda>(cur, buf).
     bind (lift_res (set_bit_in buf (unat (block_global_idx b)))) (\<lambda>buf.
     mark_allocated ba bs cur buf (bump (gr_number b) counts))))"
  by (simp add: move_buffer_def Let_def)

lemma update_descriptors_step:
  "update_descriptors ba ((gr, n) # rest) cur buf =
     bind (move_buffer (ba_io_handler ba) cur buf (i64 (bg_table_lba (ba_group_manager ba) + desc_lba_offset gr)))
     (\<lambda>(cur, buf).
     bind (lift_res (update_descriptor_at buf (desc_byte_offset gr)
       (\<lambda>d. d \<lparr> bg_free_blocks_count := bg_free_blocks_count d - n \<rparr>))) (\<lambda>buf.
     update_descriptors ba rest cur buf))"
  by (simp add: move_buffer_def Let_def eq_commute)

lemma in_reach_small: "part_ok io s \<Longrightarrow> 0 \<le> lba \<Longrightarrow> lba < 2 ^ 41 \<Longrightarrow> in_reach io lba"
  by (auto simp: in_reach_def part_ok_def)

lemma move_buffer_ok:
  assumes "part_ok io s" "cur_ok cur" "0 \<le> lba" "lba < 2 ^ 41" "512 dvd length buf" "length buf < 33554432"
  shows "\<exists>buf' s'. move_buffer io cur buf lba s = (Ok (lba, buf'), s') \<and> part_ok io s' \<and>
    length buf' = length buf"
  using assms in_reach_small [OF assms(1)]
  by (auto simp: move_buffer_def cur_ok_def bind_def partition.rd_ok partition.wr_ok partition.ok_set_img)

lemma move_buffer_first:
  assumes "part_ok io s" "0 \<le> lba" "lba < 2 ^ 41" "512 dvd length buf" "length buf < 33554432"
  shows "move_buffer io (- 1) buf lba s = (Ok (lba, dump (part io s) (512 * lba) (length buf)), s)"
  using assms in_reach_small [OF assms(1-3)] by (simp add: move_buffer_def bind_def partition.rd_ok)

lemma move_buffer_stay [simp]: "move_buffer io cur buf cur = ret (cur, buf)"
  by (simp add: move_buffer_def)

lemma mark_allocated_panics:
  assumes "wf_ba ba" "part_ok (ba_io_handler ba) s" "cur_ok cur" "length buf = ba_buffer_size ba"
    and "\<forall>b \<in> set bs. 0 \<le> gr_number b \<and> gr_number b < 2 ^ 32"
    and "\<exists>b \<in> set bs. 8 * ba_buffer_size ba \<le> unat (block_global_idx b)"
  shows "\<exists>s'. mark_allocated ba bs cur buf counts s = (Panic, s')"
  using assms(2-6)
proof (induction bs arbitrary: cur buf counts s)
  case (Cons b bs)
  let ?f = "part (ba_io_handler ba) s"
  let ?g = "block_group (ba_group_manager ba) (gr_number b) (ba_desc ba ?f (gr_number b))"
  have g: "get_group (ba_group_manager ba) (gr_number b) s = (Ok ?g, s)"
    using get_group_ok [of "ba_group_manager ba" s "gr_number b"] Cons.prems assms(1) by (simp add: wf_ba_def)
  note l = bitmap_lba(2,3) [where f = ?f and gr = "gr_number b", OF assms(1)] bitmap_lba(4,5) [OF assms(1)]
  obtain buf' s' where m: "move_buffer (ba_io_handler ba) cur buf (get_block_bitmap_lba ?g) s =
      (Ok (get_block_bitmap_lba ?g, buf'), s')" "part_ok (ba_io_handler ba) s'" "length buf' = ba_buffer_size ba"
    using move_buffer_ok [OF Cons.prems(1,2), of "get_block_bitmap_lba ?g" buf] l Cons.prems(3) by auto
  show ?case
  proof (cases "unat (block_global_idx b) div 8 < ba_buffer_size ba")
    case True
    then have "\<exists>b \<in> set bs. 8 * ba_buffer_size ba \<le> unat (block_global_idx b)"
      using Cons.prems(5) by auto
    moreover have "cur_ok (get_block_bitmap_lba ?g)" using l by (simp add: cur_ok_def)
    ultimately obtain t where "mark_allocated ba bs (get_block_bitmap_lba ?g)
        (set_bit_at buf' (unat (block_global_idx b))) (bump (gr_number b) counts) s' = (Panic, t)"
      using Cons.IH [OF m(2), of "get_block_bitmap_lba ?g" "set_bit_at buf' (unat (block_global_idx b))"
          "bump (gr_number b) counts"] m(3) Cons.prems(4) by auto
    then show ?thesis
      using True m(3) by (simp add: mark_allocated_step bind_def g m(1) set_bit_in_def del: mark_allocated.simps(2))
  next
    case False
    then show ?thesis
      using m(3) by (simp add: mark_allocated_step bind_def g m(1) set_bit_in_def del: mark_allocated.simps(2))
  qed
qed simp

text \<open>Blocks of one group: the bitmap is read once and every bit is set in it.\<close>

definition mark_bits :: "bytes \<Rightarrow> AllocatedBlock list \<Rightarrow> bytes" where
  "mark_bits buf bs = foldl (\<lambda>buf b. set_bit_at buf (unat (block_global_idx b))) buf bs"

lemma length_mark_bits [simp]: "length (mark_bits buf bs) = length buf"
  by (induction bs arbitrary: buf) (simp_all add: mark_bits_def)

lemma bit_at_mark_bits:
  assumes "\<forall>b \<in> set bs. unat (block_global_idx b) < 8 * length buf" "i < 8 * length buf"
  shows "bit_at (mark_bits buf bs) i \<longleftrightarrow> bit_at buf i \<or> (\<exists>b \<in> set bs. unat (block_global_idx b) = i)"
  using assms
proof (induction bs arbitrary: buf)
  case (Cons b bs)
  then show ?case
    using Cons.IH [of "set_bit_at buf (unat (block_global_idx b))"]
    by (auto simp: mark_bits_def bit_at_set_bit_at)
qed (simp add: mark_bits_def)

lemma mark_allocated_same_group:
  assumes "wf_ba ba" "part_ok (ba_io_handler ba) s" "0 \<le> gr" "gr < 2 ^ 32"
    and "\<forall>b \<in> set bs. gr_number b = gr \<and> unat (block_global_idx b) < 8 * length buf"
    and "0 \<le> k" "k + int (length bs) < 2 ^ 32"
  defines "lba \<equiv> get_block_bitmap_lba (block_group (ba_group_manager ba) gr
      (ba_desc ba (part (ba_io_handler ba) s) gr))"
  shows "mark_allocated ba bs lba buf [(gr, k)] s = (Ok (lba, mark_bits buf bs, [(gr, k + int (length bs))]), s)"
  using assms(5,6,7)
proof (induction bs arbitrary: buf k)
  case Nil
  then show ?case by (simp add: mark_bits_def)
next
  case (Cons b bs)
  have g: "get_group (ba_group_manager ba) gr s =
      (Ok (block_group (ba_group_manager ba) gr (ba_desc ba (part (ba_io_handler ba) s) gr)), s)"
    using get_group_ok [of "ba_group_manager ba" s gr] assms(1-4) by (simp add: wf_ba_def)
  have "i64 (k + 1) = k + 1" using Cons.prems(2,3) by (intro i64_small) auto
  moreover have "mark_allocated ba bs lba (set_bit_at buf (unat (block_global_idx b))) [(gr, k + 1)] s =
      (Ok (lba, mark_bits (set_bit_at buf (unat (block_global_idx b))) bs, [(gr, k + 1 + int (length bs))]), s)"
    using Cons.prems by (intro Cons.IH) auto
  ultimately show ?case
    using Cons.prems(1)
    by (auto simp: mark_allocated_step bind_def g set_bit_in_def lba_def [symmetric] mark_bits_def add_ac
        simp del: mark_allocated.simps(2))
qed

lemma mark_allocated_group:
  assumes "wf_ba ba" "part_ok (ba_io_handler ba) s" "0 \<le> gr" "gr < 2 ^ 32" "bs \<noteq> []"
    and "\<forall>b \<in> set bs. gr_number b = gr \<and> unat (block_global_idx b) < 8 * length buf"
    and "length bs < 2 ^ 32" "length buf = ba_buffer_size ba"
  defines "f \<equiv> part (ba_io_handler ba) s"
  shows "mark_allocated ba bs (- 1) buf [] s =
    (Ok (get_block_bitmap_lba (block_group (ba_group_manager ba) gr (ba_desc ba f gr)),
      mark_bits (block_bitmap ba f gr) bs, [(gr, int (length bs))]), s)"
proof -
  obtain b bs' where bs: "bs = b # bs'" using assms(5) by (cases bs) auto
  let ?g = "block_group (ba_group_manager ba) gr (ba_desc ba f gr)"
  have g: "get_group (ba_group_manager ba) gr s = (Ok ?g, s)"
    using get_group_ok [of "ba_group_manager ba" s gr] assms(1-4) by (simp add: wf_ba_def f_def)
  note l = bitmap_lba(1-3) [where f = f and gr = gr, OF assms(1)] bitmap_lba(4,5) [OF assms(1)]
  have "move_buffer (ba_io_handler ba) (- 1) buf (get_block_bitmap_lba ?g) s =
      (Ok (get_block_bitmap_lba ?g, block_bitmap ba f gr), s)"
    using move_buffer_first [OF assms(2), of "get_block_bitmap_lba ?g" buf] l assms(8)
    by (simp add: block_bitmap_def f_def)
  moreover have "mark_allocated ba bs' (get_block_bitmap_lba ?g)
      (set_bit_at (block_bitmap ba f gr) (unat (block_global_idx b))) [(gr, 1)] s =
    (Ok (get_block_bitmap_lba ?g, mark_bits (set_bit_at (block_bitmap ba f gr) (unat (block_global_idx b))) bs',
      [(gr, 1 + int (length bs'))]), s)"
    using assms(6-8) unfolding f_def
    by (intro mark_allocated_same_group [OF assms(1-4)]) (auto simp: bs block_bitmap_def)
  moreover have "unat (block_global_idx b) div 8 < ba_buffer_size ba"
    using assms(6,8) by (simp add: bs less_mult_imp_div_less mult.commute)
  ultimately show ?thesis
    using assms(6,8)
    by (simp add: bs mark_allocated_step bind_def g set_bit_in_def mark_bits_def block_bitmap_def
        del: mark_allocated.simps(2))
qed

lemma update_descriptors_one:
  assumes "wf_ba ba" "part_ok (ba_io_handler ba) s" "0 \<le> gr" "gr < 2 ^ 32"
    and "length buf = ba_buffer_size ba"
  defines "f \<equiv> part (ba_io_handler ba) s"
  shows "\<exists>lba. update_descriptors ba [(gr, n)] (- 1) buf s = (Ok (lba,
      splice_at (dump f (512 * lba) (ba_buffer_size ba)) (nat (desc_byte_offset gr))
        (group_descriptor_bytes ((ba_desc ba f gr)
          \<lparr> bg_free_blocks_count := bg_free_blocks_count (ba_desc ba f gr) - n \<rparr>))), s) \<and>
    512 * lba + desc_byte_offset gr = desc_pos (ba_group_manager ba) gr \<and> 0 \<le> lba \<and> lba < 2 ^ 41"
proof -
  let ?lba = "i64 (bg_table_lba (ba_group_manager ba) + desc_lba_offset gr)"
  have w: "wf_gm (ba_group_manager ba)" "512 dvd ba_buffer_size ba" "1024 \<le> ba_buffer_size ba"
      "ba_buffer_size ba < 33554432"
    using assms(1) by (auto simp: wf_ba_def wf_gm_def sane_block_size_def)
  note d = desc_sector [OF w(1) assms(3,4)] and b = desc_byte_offset_bound [OF assms(3,4)]
  have "move_buffer (ba_io_handler ba) (- 1) buf ?lba s = (Ok (?lba, dump f (512 * ?lba) (ba_buffer_size ba)), s)"
    using move_buffer_first [OF assms(2) d(2,3), of buf] assms(5) w(2,4) by (simp add: f_def)
  moreover have "descriptor_at (dump f (512 * ?lba) (ba_buffer_size ba)) (desc_byte_offset gr) = Ok (ba_desc ba f gr)"
    using descriptor_at_dump [of "desc_byte_offset gr" "ba_buffer_size ba" f "512 * ?lba"] b w(3) d(1)
    by (simp add: desc_of_def)
  ultimately show ?thesis
    using d by (intro exI [of _ ?lba])
      (simp add: update_descriptors_step bind_def update_descriptor_at_def del: update_descriptors.simps(2))
qed

lemma update_descriptor_write:
  assumes "wf_ba ba" "part_ok (ba_io_handler ba) s" "0 \<le> gr" "gr < 2 ^ 32"
    and "length buf = ba_buffer_size ba"
  defines "f \<equiv> part (ba_io_handler ba) s"
  shows "bind (update_descriptors ba [(gr, n)] (- 1) buf) (\<lambda>(cur, buf). write_sectors (ba_io_handler ba) buf cur) s =
    (Ok (), set_part (ba_io_handler ba) (patch f (desc_pos (ba_group_manager ba) gr)
      (group_descriptor_bytes ((ba_desc ba f gr)
        \<lparr> bg_free_blocks_count := bg_free_blocks_count (ba_desc ba f gr) - n \<rparr>))) s)"
proof -
  let ?n = "ba_buffer_size ba" and ?o = "desc_byte_offset gr"
  let ?d = "group_descriptor_bytes ((ba_desc ba f gr)
        \<lparr> bg_free_blocks_count := bg_free_blocks_count (ba_desc ba f gr) - n \<rparr>)"
  obtain lba where u: "update_descriptors ba [(gr, n)] (- 1) buf s =
      (Ok (lba, splice_at (dump f (512 * lba) ?n) (nat ?o) ?d), s)"
      "512 * lba + ?o = desc_pos (ba_group_manager ba) gr" "0 \<le> lba" "lba < 2 ^ 41"
    using update_descriptors_one [OF assms(1-5), of n] by (auto simp: f_def)
  have b: "0 \<le> ?o" "nat ?o + 18 \<le> ?n" "512 dvd ?n" "?n < 33554432"
    using desc_byte_offset_bound [OF assms(3,4)] bitmap_lba(4,5) [OF assms(1)] assms(1)
    by (auto simp: wf_ba_def wf_gm_def sane_block_size_def)
  then have "patch f (512 * lba) (splice_at (dump f (512 * lba) ?n) (nat ?o) ?d) =
      patch f (desc_pos (ba_group_manager ba) gr) ?d"
    using patch_splice [of "nat ?o" ?d ?n f "512 * lba"] u(2) by simp
  then show ?thesis
    using u(1) b partition.wr_ok [OF assms(2) in_reach_small [OF assms(2) u(3,4)],
        of "splice_at (dump f (512 * lba) ?n) (nat ?o) ?d"]
    by (simp add: bind_def f_def)
qed

lemma write_newly_allocated_image:
  fixes ba s buf
  defines "f \<equiv> part (ba_io_handler ba) s" and "bs \<equiv> allocated_block_indices s"
  assumes "wf_ba ba" "part_ok (ba_io_handler ba) s" "length buf = ba_buffer_size ba"
    and "bs \<noteq> []" "length bs < 2 ^ 32"
    and "\<forall>b \<in> set bs. gr_number b = 0 \<and> unat (block_global_idx b) < 8 * length buf"
    and "apart (bitmap_pos ba f 0) (int (ba_buffer_size ba)) (desc_pos (ba_group_manager ba) 0) 18"
  shows "write_newly_allocated_blocks ba buf s = (Ok (), (set_part (ba_io_handler ba)
    (patch (patch f (bitmap_pos ba f 0) (mark_bits (block_bitmap ba f 0) bs)) (desc_pos (ba_group_manager ba) 0)
      (group_descriptor_bytes ((ba_desc ba f 0)
        \<lparr> bg_free_blocks_count := bg_free_blocks_count (ba_desc ba f 0) - word_of_nat (length bs) \<rparr>))) s)
    \<lparr> allocated_block_indices := [] \<rparr>)"
proof -
  let ?io = "ba_io_handler ba" and ?B = "mark_bits (block_bitmap ba f 0) bs"
  let ?f1 = "patch f (bitmap_pos ba f 0) ?B"
  have lB: "length ?B = ba_buffer_size ba" by (simp add: block_bitmap_def)
  define lba where "lba = get_block_bitmap_lba (block_group (ba_group_manager ba) 0 (ba_desc ba f 0))"
  have l: "512 * lba = bitmap_pos ba f 0" "0 \<le> lba" "lba < 2 ^ 41" "512 dvd ba_buffer_size ba"
      "ba_buffer_size ba < 33554432"
    using bitmap_lba(1-3) [where f = f and gr = 0, OF assms(3)] bitmap_lba(4,5) [OF assms(3)]
    by (simp_all add: lba_def)
  have mark: "mark_allocated ba bs (- 1) buf [] s = (Ok (lba, ?B, [(0, int (length bs))]), s)"
    using mark_allocated_group [OF assms(3,4), of 0 bs buf] assms(5-8) by (simp add: f_def lba_def)
  have w1: "write_sectors ?io ?B lba s = (Ok (), set_part ?io ?f1 s)"
    using partition.wr_ok [OF assms(4) in_reach_small [OF assms(4) l(2,3)], of ?B] lB l(1,4,5)
    by (simp add: f_def)
  have ok1: "part_ok ?io (set_part ?io ?f1 s)" "part ?io (set_part ?io ?f1 s) = ?f1"
    using assms(4) by (simp_all add: partition.ok_set_img partition.img_set_img)
  have "ba_desc ba ?f1 0 = ba_desc ba f 0"
    unfolding desc_of_def using assms(9) lB by (simp add: dump_patch_apart)
  then have u: "bind (update_descriptors ba [(0, word_of_nat (length bs))] (- 1) ?B)
      (\<lambda>y. write_sectors ?io (snd y) (fst y)) (set_part ?io ?f1 s) =
    (Ok (), set_part ?io (patch ?f1 (desc_pos (ba_group_manager ba) 0)
      (group_descriptor_bytes ((ba_desc ba f 0)
        \<lparr> bg_free_blocks_count := bg_free_blocks_count (ba_desc ba f 0) - word_of_nat (length bs) \<rparr>))) s)"
    using update_descriptor_write [OF assms(3) ok1(1), of 0 ?B "word_of_nat (length bs)"] lB assms(4)
    by (simp add: ok1(2) partition.set_img_set_img split_def del: update_descriptors.simps)
  show ?thesis
    unfolding write_newly_allocated_blocks_def
    by (simp add: split_def bind_Ok [where m = "mark_allocated ba bs (- 1) buf []", OF mark]
        bind_Ok [where m = "write_sectors ?io ?B lba", OF w1] bind_then [OF u]
        flip: bs_def del: update_descriptors.simps)
qed

lemma block_global_idx_value:
  assumes "0 \<le> gr" "i < unat (blocks_per_group (ba_group_manager ba))"
    and "(gr + 1) * uint (blocks_per_group (ba_group_manager ba)) \<le> 2 ^ 32"
  shows "uint (block_global_idx (nth_block ba f gr i)) =
    gr * uint (blocks_per_group (ba_group_manager ba)) + int i"
proof -
  let ?b = "blocks_per_group (ba_group_manager ba)"
  have eq: "block_global_idx (nth_block ba f gr i) = word_of_int (gr * uint ?b + int i)"
    by (simp add: nth_block_def allocated_block_def as_u32_def)
  moreover have "0 \<le> gr * uint ?b" using assms(1) by simp
  moreover have "int i < uint ?b" using assms(2) by (simp add: less_unat_iff)
  ultimately have "uint (word_of_int (gr * uint ?b + int i) :: u32) = gr * uint ?b + int i"
    unfolding uint_word_of_int using assms(3) by (intro mod_pos_pos_trivial) (simp_all add: distrib_right)
  with eq show ?thesis by simp
qed

lemma get_group_lba_1k:
  assumes "gm_block_size gm = 1024" "0 \<le> gr" "gr * uint (blocks_per_group gm) < 2 ^ 32"
  shows "get_group_lba (block_group gm gr d) = 2 * (gr * uint (blocks_per_group gm)) + 2"
proof (cases "gr = 0")
  case True
  then show ?thesis by (simp add: get_group_lba_def block_group_def RESERVED_BOOT_RECORD_OFFSET_def)
next
  case False
  let ?n = "uint (blocks_per_group gm)"
  have "uint (gm_block_size gm) div 512 = 2" using assms(1) by simp
  then have "get_group_lba (block_group gm gr d) = i64 (2 + (?n - 1) * 2 + 2 + (gr - 1) * ?n * 2)"
    using False by (simp add: get_group_lba_def block_group_def RESERVED_BOOT_RECORD_OFFSET_def)
  also have "2 + (?n - 1) * 2 + 2 + (gr - 1) * ?n * 2 = 2 * (gr * ?n) + 2" by (simp add: algebra_simps)
  also have "i64 \<dots> = \<dots>" using assms by (intro i64_small) simp_all
  finally show ?thesis .
qed

lemma keep_pending: "allocated_block_indices s = [] \<Longrightarrow> s \<lparr> allocated_block_indices := [] \<rparr> = s"
  by simp

abbreviation sample_ba :: BlockAllocator where
  "sample_ba \<equiv> block_allocator sample_fs"

lemma sample_ba_fields [simp]:
  "wf_ba sample_ba" "ba_io_handler sample_ba = io_handler sample_fs" "ba_buffer_size sample_ba = 1024"
  "ba_group_manager sample_ba = group_manager sample_fs"
  using wf_ba_fs [OF sample_wf_fs] sample_wf_fs by (simp_all add: wf_fs_def)

section \<open>Properties\<close>

text \<open>C5. On a reliable drive an allocation of \<open>num\<close> blocks either returns \<open>num\<close> blocks with pairwise
  different addresses, each free in the bitmap of its group and not handed out before, which are
  then pending and nothing else changes; or it reports that no space is left, and then every clear
  bitmap bit of every group belongs to a pending block.  It never fails otherwise.\<close>

theorem allocate_n_blocks_in_group_spec:
  fixes ba s
  defines "f \<equiv> part (ba_io_handler ba) s"
  assumes "wf_ba ba" "part_ok (ba_io_handler ba) s" "0 \<le> gr" "gr < 2 ^ 32"
    and "ba_block_groups_count ba < 2 ^ 32"
  shows "case allocate_n_blocks_in_group ba gr num s of
      (Ok bs, s') \<Rightarrow> length bs = num \<and> took ba f (allocated_block_indices s) bs (allocated_block_indices s') \<and>
        s' = s \<lparr> allocated_block_indices := allocated_block_indices s' \<rparr>
    | (Err e, s') \<Rightarrow> e = NoSpaceLeft \<and> s' = s \<lparr> allocated_block_indices := allocated_block_indices s' \<rparr> \<and>
        (\<forall>g \<in> insert gr {0..<ba_block_groups_count ba}. exhausted ba f (allocated_block_indices s') g)
    | (Panic, s') \<Rightarrow> False
    | (Diverge, s') \<Rightarrow> False"
proof -
  obtain r1 n1 P1 where 1: "allocate_from_group ba gr num [] s = (Ok (r1, n1), s \<lparr> allocated_block_indices := P1 \<rparr>)"
      "length n1 + r1 = num" "took ba f (allocated_block_indices s) n1 P1" "0 < r1 \<longrightarrow> exhausted ba f P1 gr"
    using allocate_from_group_ok [OF assms(2,3,4,5), of num "[]"] by (auto simp: f_def)
  obtain r n2 P where 2: "allocate_groups ba gr [0..ba_block_groups_count ba - 1] r1 [] (s \<lparr> allocated_block_indices := P1 \<rparr>) =
        (Ok (r, n2), s \<lparr> allocated_block_indices := P \<rparr>)"
      "length n2 + r = r1" "took ba f P1 n2 P"
      "0 < r \<longrightarrow> (\<forall>g \<in> {0..ba_block_groups_count ba - 1} - {gr}. exhausted ba f P g)"
    using allocate_groups_ok [OF assms(2), of "s \<lparr> allocated_block_indices := P1 \<rparr>"
        "[0..ba_block_groups_count ba - 1]" gr r1 "[]"] assms(3,6) by (auto simp: f_def)
  show ?thesis
  proof (cases "r1 = 0")
    case True
    then show ?thesis using 1 by (simp add: allocate_n_blocks_in_group_def bind_Ok)
  next
    case False
    then have "exhausted ba f P gr" using 1(4) 2(3) exhausted_mono by auto
    then show ?thesis
      using False 1 2 took_trans [OF 1(3) 2(3)]
      by (auto simp: allocate_n_blocks_in_group_def allocate_n_blocks_def bind_def)
  qed
qed

theorem allocate_n_blocks_in_group_spec_witness:
  "fst (allocate_n_blocks_in_group sample_ba 0 2 (sample_ext2 (\<lambda>_. 0))) \<noteq> Panic"
  using allocate_n_blocks_in_group_spec [of sample_ba "sample_ext2 (\<lambda>_. 0)" 0 2]
  by (auto split: prod.splits res.splits)

text \<open>C21. Writing the pending blocks of group 0 back sets exactly their bits in the group's bitmap,
  lowers the group's free-block count by their number, empties the pending set, and changes no
  other byte of the partition.\<close>

theorem write_newly_allocated_group_0:
  fixes ba s buf
  defines "f \<equiv> part (ba_io_handler ba) s" and "bs \<equiv> allocated_block_indices s"
  assumes "wf_ba ba" "part_ok (ba_io_handler ba) s" "length buf = ba_buffer_size ba"
    and "bs \<noteq> []" "length bs < 2 ^ 32"
    and "\<forall>b \<in> set bs. gr_number b = 0 \<and> unat (block_global_idx b) < 8 * length buf"
    and "apart (bitmap_pos ba f 0) (int (ba_buffer_size ba)) (desc_pos (ba_group_manager ba) 0) 18"
  shows "\<exists>s'. write_newly_allocated_blocks ba buf s = (Ok (), s') \<and> allocated_block_indices s' = [] \<and>
    (\<forall>i < 8 * ba_buffer_size ba. bit_at (block_bitmap ba (part (ba_io_handler ba) s') 0) i \<longleftrightarrow>
       bit_at (block_bitmap ba f 0) i \<or> (\<exists>b \<in> set bs. unat (block_global_idx b) = i)) \<and>
    ba_desc ba (part (ba_io_handler ba) s') 0 = (ba_desc ba f 0)
      \<lparr> bg_free_blocks_count := bg_free_blocks_count (ba_desc ba f 0) - word_of_nat (length bs) \<rparr> \<and>
    (\<forall>x. apart x 1 (bitmap_pos ba f 0) (int (ba_buffer_size ba)) \<longrightarrow>
       apart x 1 (desc_pos (ba_group_manager ba) 0) 18 \<longrightarrow> part (ba_io_handler ba) s' x = f x)"
proof -
  let ?io = "ba_io_handler ba" and ?p = "desc_pos (ba_group_manager ba) 0" and ?n = "ba_buffer_size ba"
  let ?B = "mark_bits (block_bitmap ba f 0) bs" and ?d = "ba_desc ba f 0"
  let ?d' = "?d \<lparr> bg_free_blocks_count := bg_free_blocks_count ?d - word_of_nat (length bs) \<rparr>"
  define f2 where "f2 = patch (patch f (bitmap_pos ba f 0) ?B) ?p (group_descriptor_bytes ?d')"
  let ?s = "(set_part ?io f2 s) \<lparr> allocated_block_indices := [] \<rparr>"
  have lB: "length ?B = ?n" "length (block_bitmap ba f 0) = ?n" by (simp_all add: block_bitmap_def)
  have run: "write_newly_allocated_blocks ba buf s = (Ok (), ?s)"
    using write_newly_allocated_image [OF assms(3-9) [unfolded f_def bs_def]] by (simp add: f2_def f_def bs_def)
  have img: "part ?io ?s = f2" using assms(4) by (simp add: partition.img_set_img)
  have d2: "ba_desc ba f2 0 = ?d'"
    using group_descriptor_roundtrip [of ?d' "[]"] unfolding desc_of_def f2_def
    by (simp add: dump_patch_same)
  have "bitmap_pos ba f2 0 = bitmap_pos ba f 0" by (simp add: bitmap_pos_def d2)
  then have "block_bitmap ba f2 0 = ?B"
    using assms(9) lB dump_patch_same [of ?n ?B f "bitmap_pos ba f 0"]
    by (simp add: block_bitmap_def f2_def dump_patch_disjoint apart_def disj_commute)
  moreover have "f2 x = f x" if "apart x 1 (bitmap_pos ba f 0) (int ?n)" "apart x 1 ?p 18" for x
    using that lB by (auto simp: f2_def patch_def apart_def)
  ultimately show ?thesis
    using run img d2 bit_at_mark_bits [of bs "block_bitmap ba f 0"] assms(5,8) lB
    by (intro exI [of _ ?s]) auto
qed

theorem write_newly_allocated_group_0_witness:
  "\<exists>s'. write_newly_allocated_blocks sample_ba (replicate 1024 0) ((sample_ext2 (\<lambda>_. 0))
      \<lparr> allocated_block_indices := [\<lparr> addr = 12, block_global_idx = 5, block_relatve_idx = 5, gr_number = 0 \<rparr>] \<rparr>) = (Ok (), s') \<and>
    bit_at (block_bitmap sample_ba (part (io_handler sample_fs) s') 0) 5"
proof -
  let ?s = "(sample_ext2 (\<lambda>_. 0))
      \<lparr> allocated_block_indices := [\<lparr> addr = 12, block_global_idx = 5, block_relatve_idx = 5, gr_number = 0 \<rparr>] \<rparr>"
  have "apart (bitmap_pos sample_ba (\<lambda>_. 0) 0) 1024 (desc_pos (group_manager sample_fs) 0) 18"
    by (simp add: apart_def bitmap_pos_def zero_descriptor desc_pos_def)
  then show ?thesis
    using write_newly_allocated_group_0 [of sample_ba ?s "replicate 1024 0"] by auto
qed

text \<open>On a file system whose groups are as large as one bitmap block, writing back crashes as soon
  as a block of any group but the first is pending: the group-relative bitmap is indexed with the
  block's global number.\<close>

theorem write_newly_allocated_panics:
  fixes ba s
  defines "f \<equiv> part (ba_io_handler ba) s"
  assumes "wf_ba ba" "part_ok (ba_io_handler ba) s" "length buf = ba_buffer_size ba"
    and "\<forall>b \<in> set (allocated_block_indices s). 0 \<le> gr_number b \<and> gr_number b < 2 ^ 32"
    and "unat (blocks_per_group (ba_group_manager ba)) = 8 * ba_buffer_size ba"
    and "nth_block ba f gr i \<in> set (allocated_block_indices s)" "i < 8 * ba_buffer_size ba"
    and "1 \<le> gr" "(gr + 1) * uint (blocks_per_group (ba_group_manager ba)) \<le> 2 ^ 32"
  shows "\<exists>s'. write_newly_allocated_blocks ba buf s = (Panic, s')"
proof -
  let ?b = "nth_block ba f gr i" and ?n = "blocks_per_group (ba_group_manager ba)"
  have "uint (block_global_idx ?b) = gr * uint ?n + int i"
    using assms(6,8,9,10) by (intro block_global_idx_value) auto
  moreover have "1 * uint ?n \<le> gr * uint ?n" using assms(9) by (intro mult_right_mono) auto
  ultimately have "uint ?n \<le> uint (block_global_idx ?b)" by simp
  then have "8 * ba_buffer_size ba \<le> unat (block_global_idx ?b)"
    unfolding assms(6) [symmetric] unat_le_iff .
  then obtain t where "mark_allocated ba (allocated_block_indices s) (- 1) buf [] s = (Panic, t)"
    using mark_allocated_panics [OF assms(2,3) _ assms(4,5), of "- 1" "[]"] assms(7)
    by (auto simp: cur_ok_def)
  then show ?thesis by (simp add: write_newly_allocated_blocks_def bind_def)
qed

theorem write_newly_allocated_panics_witness:
  "\<exists>s'. write_newly_allocated_blocks sample_ba (replicate 1024 0) ((sample_ext2 (\<lambda>_. 0))
      \<lparr> allocated_block_indices := [nth_block sample_ba (\<lambda>_. 0) 1 0] \<rparr>) = (Panic, s')"
  by (rule write_newly_allocated_panics [where gr = 1 and i = 0])
    (simp_all add: nth_block_def allocated_block_def)

text \<open>With nothing pending, writing back overwrites the sector before the partition and the
  sectors after it with the caller's buffer.\<close>

theorem write_newly_allocated_nothing:
  assumes "wf_ba ba" "part_ok (ba_io_handler ba) s" "length buf = ba_buffer_size ba"
    and "allocated_block_indices s = []" "1 \<le> start_lba (ba_io_handler ba)"
  shows "write_newly_allocated_blocks ba buf s =
    (Ok (), set_part (ba_io_handler ba) (patch (part (ba_io_handler ba) s) (- 512) buf) s)"
proof -
  let ?io = "ba_io_handler ba"
  let ?s = "set_part ?io (patch (part ?io s) (- 512) buf) s"
  have r: "in_reach ?io (- 1)" using assms(5) by (simp add: in_reach_def)
  have d: "512 dvd length buf" "length buf < 2 ^ 25" using assms(3) bitmap_lba(4,5) [OF assms(1)] by simp_all
  have 1: "write_sectors ?io buf (- 1) s = (Ok (), ?s)"
    using partition.wr_ok [OF assms(2) r d] by simp
  have "write_sectors ?io buf (- 1) ?s = (Ok (), ?s)"
    using partition.wr_ok [OF partition.ok_set_img [OF assms(2)] r d] assms(2)
    by (simp add: partition.img_set_img partition.set_img_set_img patch_patch_same)
  with 1 show ?thesis
    using assms(4) by (simp add: write_newly_allocated_blocks_def bind_def keep_pending)
qed

theorem write_newly_allocated_nothing_witness:
  "write_newly_allocated_blocks sample_ba (replicate 1024 0) (sample_ext2 (\<lambda>_. 7)) =
    (Ok (), set_part (io_handler sample_fs) (patch (\<lambda>_. 7) (- 512) (replicate 1024 0)) (sample_ext2 (\<lambda>_. 7)))"
  using write_newly_allocated_nothing [of sample_ba "sample_ext2 (\<lambda>_. 7)" "replicate 1024 0"]
  by simp

text \<open>With 1 KiB blocks the address of the \<open>i\<close>-th block of a group is that of the block
  numbered one more than its global index: the index leaves out the boot block in front of group 0.\<close>

theorem allocated_block_address:
  assumes "wf_ba ba" "gm_block_size (ba_group_manager ba) = 1024" "0 \<le> gr"
    and "i < unat (blocks_per_group (ba_group_manager ba))"
    and "(gr + 1) * uint (blocks_per_group (ba_group_manager ba)) < 2 ^ 32"
  shows "addr (nth_block ba f gr i) =
    block_idx_to_lba 1024 (block_global_idx (nth_block ba f gr i) + 1)"
proof -
  let ?n = "uint (blocks_per_group (ba_group_manager ba))"
  let ?g = "gr * ?n + int i"
  have i: "int i < ?n" using assms(4) by (simp add: less_unat_iff)
  have g: "0 \<le> gr * ?n" "?g + 1 < 2 ^ 32" using assms(3,5) i by (simp_all add: distrib_right)
  have "uint (block_global_idx (nth_block ba f gr i)) = ?g"
    using assms(3-5) by (intro block_global_idx_value) auto
  then have "uint (block_global_idx (nth_block ba f gr i) + 1) = ?g + 1"
    using g by (simp add: uint_word_ariths)
  then have "512 * block_idx_to_lba 1024 (block_global_idx (nth_block ba f gr i) + 1) = (?g + 1) * 1024"
    by (subst block_idx_to_lba_eq(1)) (simp_all add: sane_block_size_def)
  moreover have "addr (nth_block ba f gr i) = 2 * ?g + 2"
  proof -
    let ?grp = "block_group (ba_group_manager ba) gr (ba_desc ba f gr)"
    have "sectors_per_block ?grp = 2" using assms(2) by (simp add: block_group_def)
    moreover have "get_group_lba ?grp = 2 * (gr * ?n) + 2"
      using assms(2,3) g by (intro get_group_lba_1k) auto
    ultimately have "addr (nth_block ba f gr i) = i64 (2 * ?g + 2)"
      by (simp add: nth_block_def allocated_block_def algebra_simps)
    also have "\<dots> = 2 * ?g + 2" using g by (intro i64_small) auto
    finally show ?thesis .
  qed
  ultimately show ?thesis by simp
qed

theorem allocated_block_address_witness:
  "addr (nth_block sample_ba (\<lambda>_. 0) 0 3) =
    block_idx_to_lba 1024 (block_global_idx (nth_block sample_ba (\<lambda>_. 0) 0 3) + 1)"
  by (rule allocated_block_address) simp_all

end
