(* ===== verification/Ext2Iter.thy ===== *)
theory Ext2Iter
  imports Ext2Alloc
begin

text \<open>
  The block iterator of the ext2 driver (\<^verbatim>\<open>drivers/fs/ext2/block_iterator.rs\<close>
  and the limits of \<^verbatim>\<open>read.rs\<close>): the blocks of an inode in file order, read
  through the direct pointers and up to three levels of indirect blocks, and
  the allocation of missing ones.  The iterator caches one block of pointers
  per level.  After an error its callers drop it, so it is returned on success
  only.

  The pointers in a cached block are read by casting four bytes, which panics
  on a misaligned address; the heap aligns the buffers themselves.
\<close>

section \<open>Limits\<close>

definition BLOCK_SIZE :: nat where "BLOCK_SIZE = 1024"

definition INODE_BLOCK_LIMIT :: nat where "INODE_BLOCK_LIMIT = 12"

definition IND_BLOCK_ADDR_COUNT :: nat where "IND_BLOCK_ADDR_COUNT = BLOCK_SIZE div 4"

definition INODE_IND_BLOCK_LIMIT :: nat where
  "INODE_IND_BLOCK_LIMIT = INODE_BLOCK_LIMIT + IND_BLOCK_ADDR_COUNT"

definition INODE_DOUBLE_IND_BLOCK_LIMIT :: nat where
  "INODE_DOUBLE_IND_BLOCK_LIMIT = INODE_IND_BLOCK_LIMIT + IND_BLOCK_ADDR_COUNT * IND_BLOCK_ADDR_COUNT"

definition INODE_TRIPLE_IND_BLOCK_LIMIT :: nat where
  "INODE_TRIPLE_IND_BLOCK_LIMIT = INODE_DOUBLE_IND_BLOCK_LIMIT +
     IND_BLOCK_ADDR_COUNT * IND_BLOCK_ADDR_COUNT * IND_BLOCK_ADDR_COUNT"

lemmas limit_defs = BLOCK_SIZE_def INODE_BLOCK_LIMIT_def IND_BLOCK_ADDR_COUNT_def
  INODE_IND_BLOCK_LIMIT_def INODE_DOUBLE_IND_BLOCK_LIMIT_def INODE_TRIPLE_IND_BLOCK_LIMIT_def

section \<open>State\<close>

record InodeBlockIterator =
  it_blocks :: "u32 list"
  it_group_number :: int
  it_block_size :: nat
  it_io_handler :: IoHandler
  it_block_allocator :: BlockAllocator
  cur_ind_buf :: "bytes option"
  cur_ind_buf_block_idx :: u32
  cur_double_ind_buf :: "bytes option"
  cur_double_ind_buf_block_idx :: u32
  cur_triple_ind_buf :: "bytes option"
  cur_triple_ind_buf_block_idx :: u32
  blocks_limit :: nat
  cur_idx :: nat
  cur_block_idx :: u32

record BlockIterElement =
  el_buf :: bytes
  is_terminated :: bool
  el_block_idx :: u32

record BlockIterSetRes =
  allocated_blocks :: "AllocatedBlock list"
  set_block_idx :: u32

definition create_block_iterator :: "Ext2Fs \<Rightarrow> SuperBlock \<Rightarrow> Inode \<Rightarrow> int \<Rightarrow> ('e, InodeBlockIterator) res" where
  "create_block_iterator fs sb i gr =
     bind_res (div_ceil_u32 (i_size i) (block_size sb)) (\<lambda>limit.
     Ok \<lparr> it_blocks = i_block i, it_group_number = gr, it_block_size = unat (block_size sb),
       it_io_handler = io_handler fs, it_block_allocator = block_allocator fs,
       cur_ind_buf = None, cur_ind_buf_block_idx = 0, cur_double_ind_buf = None,
       cur_double_ind_buf_block_idx = 0, cur_triple_ind_buf = None, cur_triple_ind_buf_block_idx = 0,
       blocks_limit = unat limit, cur_idx = 0, cur_block_idx = 0 \<rparr>)"

section \<open>Reading\<close>

definition u32_at :: "bytes \<Rightarrow> nat \<Rightarrow> ('e, u32) res" where
  "u32_at buf off =
    (if off + 4 \<le> length buf \<and> 4 dvd off then Ok (from_le (sub_list buf off (off + 4))) else Panic)"

definition handle_block :: "InodeBlockIterator \<Rightarrow> bytes \<Rightarrow> u32 \<Rightarrow> (bytes \<times> InodeBlockIterator) fs_io" where
  "handle_block it buf block_idx =
    (let it = it \<lparr> cur_block_idx := block_idx \<rparr> in
     if block_idx = 0 then ret (replicate (length buf) 0, it)
     else bind (read_block (it_io_handler it) buf block_idx) (\<lambda>buf. ret (buf, it)))"

definition handle_ind_block :: "InodeBlockIterator \<Rightarrow> bytes \<Rightarrow> nat \<Rightarrow> u32 \<Rightarrow>
    (bytes \<times> InodeBlockIterator) fs_io" where
  "handle_ind_block it buf off ind_block_idx =
    (if ind_block_idx = 0 then ret (replicate (length buf) 0, it)
     else
       bind (case cur_ind_buf it of
           None \<Rightarrow>
             bind (read_block (it_io_handler it) (replicate (it_block_size it) 0) (it_blocks it ! 12))
               (\<lambda>b. ret (it \<lparr> cur_ind_buf_block_idx := it_blocks it ! 12, cur_ind_buf := Some b \<rparr>))
         | Some _ \<Rightarrow> ret it) (\<lambda>it.
       bind (if ind_block_idx \<noteq> cur_ind_buf_block_idx it then
           bind (read_block (it_io_handler it) (the (cur_ind_buf it)) ind_block_idx)
             (\<lambda>b. ret (it \<lparr> cur_ind_buf_block_idx := ind_block_idx, cur_ind_buf := Some b \<rparr>))
         else ret it) (\<lambda>it.
       bind (lift_res (u32_at (the (cur_ind_buf it)) off)) (\<lambda>block_idx.
       handle_block it buf block_idx))))"

definition handle_double_ind_block :: "InodeBlockIterator \<Rightarrow> bytes \<Rightarrow> nat \<Rightarrow> nat \<Rightarrow> u32 \<Rightarrow>
    (bytes \<times> InodeBlockIterator) fs_io" where
  "handle_double_ind_block it buf double_off off double_ind_block_idx =
    (if double_ind_block_idx = 0 then ret (replicate (length buf) 0, it)
     else
       bind (case cur_double_ind_buf it of
           None \<Rightarrow>
             bind (read_block (it_io_handler it) (replicate (it_block_size it) 0) (it_blocks it ! 13))
               (\<lambda>b. ret (it \<lparr> cur_double_ind_buf_block_idx := it_blocks it ! 13, cur_double_ind_buf := Some b \<rparr>))
         | Some _ \<Rightarrow> ret it) (\<lambda>it.
       bind (if double_ind_block_idx \<noteq> cur_double_ind_buf_block_idx it then
           bind (read_block (it_io_handler it) (the (cur_double_ind_buf it)) double_ind_block_idx)
             (\<lambda>b. ret (it \<lparr> cur_double_ind_buf_block_idx := double_ind_block_idx, cur_double_ind_buf := Some b \<rparr>))
         else ret it) (\<lambda>it.
       bind (lift_res (u32_at (the (cur_double_ind_buf it)) double_off)) (\<lambda>ind_block_idx.
       handle_ind_block it buf off ind_block_idx))))"

definition handle_triple_ind_block :: "InodeBlockIterator \<Rightarrow> bytes \<Rightarrow> (bytes \<times> InodeBlockIterator) fs_io" where
  "handle_triple_ind_block it buf =
    (let n = it_block_size it div 4; k = cur_idx it - INODE_DOUBLE_IND_BLOCK_LIMIT in
     if it_blocks it ! 14 = 0 then ret (replicate (length buf) 0, it)
     else
       bind (case cur_triple_ind_buf it of
           None \<Rightarrow>
             bind (read_block (it_io_handler it) (replicate (it_block_size it) 0) (it_blocks it ! 14))
               (\<lambda>b. ret (it \<lparr> cur_triple_ind_buf := Some b \<rparr>))
         | Some _ \<Rightarrow> ret it) (\<lambda>it.
       bind (lift_res (u32_at (the (cur_triple_ind_buf it)) (k div (n * n) * 4))) (\<lambda>double_ind_block_idx.
       handle_double_ind_block it buf (k div n mod n * 4) (k mod n * 4) double_ind_block_idx)))"

text \<open>
  \<^verbatim>\<open>get\<close> compares the low 32 bits of the index with the limits, indexes with all
  of it, and divides by the number of pointers in a block.
\<close>

definition iter_get :: "InodeBlockIterator \<Rightarrow> bytes \<Rightarrow> (BlockIterElement \<times> InodeBlockIterator) fs_io" where
  "iter_get it buf =
    (let n = it_block_size it div 4; i = cur_idx it; i32 = i mod 2 ^ 32;
         done = (\<lambda>(buf, it). ret (\<lparr> el_buf = buf, is_terminated = False, el_block_idx = cur_block_idx it \<rparr>, it))
     in
     if i32 < INODE_BLOCK_LIMIT then
       (if i < length (it_blocks it) then bind (handle_block it buf (it_blocks it ! i)) done else crash)
     else if i32 < INODE_IND_BLOCK_LIMIT then
       bind (handle_ind_block it buf (i - INODE_BLOCK_LIMIT) (it_blocks it ! 12)) done
     else if i32 < INODE_DOUBLE_IND_BLOCK_LIMIT then
       (if n = 0 then crash
        else bind (handle_double_ind_block it buf ((i - INODE_IND_BLOCK_LIMIT) div n * 4)
          ((i - INODE_IND_BLOCK_LIMIT) mod n * 4) (it_blocks it ! 13)) done)
     else if i32 < INODE_TRIPLE_IND_BLOCK_LIMIT then
       (if n = 0 \<and> it_blocks it ! 14 \<noteq> 0 then crash else bind (handle_triple_ind_block it buf) done)
     else ret (\<lparr> el_buf = buf, is_terminated = True, el_block_idx = 0 \<rparr>, it))"

definition iter_next :: "InodeBlockIterator \<Rightarrow> bytes \<Rightarrow> (BlockIterElement \<times> InodeBlockIterator) fs_io" where
  "iter_next it buf =
    (if blocks_limit it \<le> cur_idx it then ret (\<lparr> el_buf = buf, is_terminated = True, el_block_idx = 0 \<rparr>, it)
     else bind (iter_get it buf) (\<lambda>(res, it). ret (res, it \<lparr> cur_idx := cur_idx it + 1 \<rparr>)))"

definition iter_skip :: "nat \<Rightarrow> InodeBlockIterator \<Rightarrow> InodeBlockIterator" where
  "iter_skip count it = it \<lparr> cur_idx := cur_idx it + count \<rparr>"

definition skip_to_end :: "InodeBlockIterator \<Rightarrow> InodeBlockIterator" where
  "skip_to_end it = it \<lparr> cur_idx := blocks_limit it \<rparr>"

section \<open>Allocating\<close>

text \<open>One block from the iterator's group; the result vector is indexed at 0.\<close>

definition allocate_one_block :: "InodeBlockIterator \<Rightarrow> AllocatedBlock fs_io" where
  "allocate_one_block it =
     bind (allocate_n_blocks_in_group (it_block_allocator it) (it_group_number it) 1)
       (\<lambda>bs. case bs of [] \<Rightarrow> crash | b # _ \<Rightarrow> ret b)"

definition put_u32_at :: "bytes \<Rightarrow> nat \<Rightarrow> u32 \<Rightarrow> bytes" where
  "put_u32_at buf off v = splice_at buf off (to_le v)"

definition clear_block :: "InodeBlockIterator \<Rightarrow> u32 \<Rightarrow> unit fs_io" where
  "clear_block it block_idx = write_block (it_io_handler it) (replicate (it_block_size it) 0) block_idx"

definition handle_set_block :: "InodeBlockIterator \<Rightarrow> u32 \<Rightarrow> nat \<Rightarrow> AllocatedBlock list \<Rightarrow>
    (InodeBlockIterator \<times> AllocatedBlock list) fs_io" where
  "handle_set_block it ind_block_idx off acc =
     bind (if cur_ind_buf_block_idx it \<noteq> ind_block_idx then
         bind (read_block (it_io_handler it) (replicate (it_block_size it) 0) ind_block_idx)
           (\<lambda>b. ret (it \<lparr> cur_ind_buf_block_idx := ind_block_idx, cur_ind_buf := Some b \<rparr>))
       else ret it) (\<lambda>it.
     case cur_ind_buf it of None \<Rightarrow> crash | Some buf \<Rightarrow>
     bind (lift_res (u32_at buf (off * 4))) (\<lambda>v.
     if v = 0 then
       bind (allocate_one_block it) (\<lambda>block.
       let v = block_global_idx block; buf = put_u32_at buf (off * 4) v in
       bind (write_block (it_io_handler it) buf (cur_ind_buf_block_idx it)) (\<lambda>_.
       ret (it \<lparr> cur_ind_buf := Some buf, cur_block_idx := v \<rparr>, acc @ [block])))
     else ret (it \<lparr> cur_block_idx := v \<rparr>, acc)))"

definition handle_set_indirect_block :: "InodeBlockIterator \<Rightarrow> u32 \<Rightarrow> nat \<Rightarrow> nat \<Rightarrow> AllocatedBlock list \<Rightarrow>
    (InodeBlockIterator \<times> AllocatedBlock list) fs_io" where
  "handle_set_indirect_block it double_ind_block_idx double_off off acc =
     bind (if cur_double_ind_buf_block_idx it \<noteq> double_ind_block_idx then
         bind (read_block (it_io_handler it) (replicate (it_block_size it) 0) double_ind_block_idx)
           (\<lambda>b. ret (it \<lparr> cur_double_ind_buf_block_idx := double_ind_block_idx, cur_double_ind_buf := Some b \<rparr>))
       else ret it) (\<lambda>it.
     case cur_double_ind_buf it of None \<Rightarrow> crash | Some buf \<Rightarrow>
     bind (lift_res (u32_at buf (double_off * 4))) (\<lambda>v.
     if v = 0 then
       bind (allocate_one_block it) (\<lambda>block.
       let v = block_global_idx block; buf = put_u32_at buf (double_off * 4) v in
       bind (write_block (it_io_handler it) buf (cur_double_ind_buf_block_idx it)) (\<lambda>_.
       bind (clear_block it v) (\<lambda>_.
       handle_set_block (it \<lparr> cur_double_ind_buf := Some buf \<rparr>) v off (acc @ [block]))))
     else handle_set_block it v off acc))"

definition handle_set_double_indirect_block :: "InodeBlockIterator \<Rightarrow> nat \<Rightarrow> nat \<Rightarrow> nat \<Rightarrow>
    AllocatedBlock list \<Rightarrow> (InodeBlockIterator \<times> AllocatedBlock list) fs_io" where
  "handle_set_double_indirect_block it triple_off double_off off acc =
    (case cur_triple_ind_buf it of None \<Rightarrow> crash | Some buf \<Rightarrow>
     bind (lift_res (u32_at buf (triple_off * 4))) (\<lambda>v.
     if v = 0 then
       bind (allocate_one_block it) (\<lambda>block.
       let v = block_global_idx block; buf = put_u32_at buf (triple_off * 4) v in
       bind (write_block (it_io_handler it) buf (cur_triple_ind_buf_block_idx it)) (\<lambda>_.
       bind (clear_block it v) (\<lambda>_.
       handle_set_indirect_block (it \<lparr> cur_triple_ind_buf := Some buf \<rparr>) v double_off off (acc @ [block]))))
     else handle_set_indirect_block it v double_off off acc))"

definition handle_block_in_blocks_array :: "InodeBlockIterator \<Rightarrow> nat \<Rightarrow> AllocatedBlock list \<Rightarrow>
    (InodeBlockIterator \<times> AllocatedBlock list) fs_io" where
  "handle_block_in_blocks_array it k acc =
    (if it_blocks it ! k = 0 then
       bind (allocate_one_block it) (\<lambda>block.
       let it = it \<lparr> it_blocks := (it_blocks it)[k := block_global_idx block] \<rparr> in
       bind (clear_block it (it_blocks it ! k)) (\<lambda>_. ret (it, acc @ [block])))
     else ret (it, acc))"

definition set_direct :: "InodeBlockIterator \<Rightarrow> (InodeBlockIterator \<times> AllocatedBlock list) fs_io" where
  "set_direct it =
     bind (if it_blocks it ! cur_idx it = 0 then
         bind (allocate_one_block it) (\<lambda>block.
         ret (it \<lparr> it_blocks := (it_blocks it)[cur_idx it := block_global_idx block] \<rparr>, [block]))
       else ret (it, [])) (\<lambda>(it, acc).
     ret (it \<lparr> cur_block_idx := it_blocks it ! cur_idx it \<rparr>, acc))"

definition set_indirect :: "InodeBlockIterator \<Rightarrow> (InodeBlockIterator \<times> AllocatedBlock list) fs_io" where
  "set_indirect it =
     bind (handle_block_in_blocks_array it 12 []) (\<lambda>(it, acc).
     bind (case cur_ind_buf it of
         None \<Rightarrow> bind (read_block (it_io_handler it) (replicate (it_block_size it) 0) (it_blocks it ! 12))
           (\<lambda>b. ret (it \<lparr> cur_ind_buf := Some b, cur_ind_buf_block_idx := it_blocks it ! 12 \<rparr>))
       | Some _ \<Rightarrow> ret it) (\<lambda>it.
     handle_set_block it (it_blocks it ! 12) (cur_idx it - INODE_BLOCK_LIMIT) acc))"

definition set_double_indirect :: "InodeBlockIterator \<Rightarrow> (InodeBlockIterator \<times> AllocatedBlock list) fs_io" where
  "set_double_indirect it =
    (let n = it_block_size it div 4; k = cur_idx it - INODE_IND_BLOCK_LIMIT in
     bind (handle_block_in_blocks_array it 13 []) (\<lambda>(it, acc).
     bind (case cur_double_ind_buf it of
         None \<Rightarrow> bind (read_block (it_io_handler it) (replicate (it_block_size it) 0) (it_blocks it ! 13))
           (\<lambda>b. ret (it \<lparr> cur_double_ind_buf := Some b, cur_double_ind_buf_block_idx := it_blocks it ! 13 \<rparr>))
       | Some _ \<Rightarrow> ret it) (\<lambda>it.
     if n = 0 then crash
     else handle_set_indirect_block it (it_blocks it ! 13) (k div n) (k mod n) acc)))"

definition set_triple_indirect :: "InodeBlockIterator \<Rightarrow> (InodeBlockIterator \<times> AllocatedBlock list) fs_io" where
  "set_triple_indirect it =
    (let n = it_block_size it div 4; k = cur_idx it - INODE_DOUBLE_IND_BLOCK_LIMIT in
     bind (handle_block_in_blocks_array it 14 []) (\<lambda>(it, acc).
     bind (case cur_triple_ind_buf it of
         None \<Rightarrow> bind (read_block (it_io_handler it) (replicate (it_block_size it) 0) (it_blocks it ! 14))
           (\<lambda>b. ret (it \<lparr> cur_triple_ind_buf := Some b, cur_triple_ind_buf_block_idx := it_blocks it ! 14 \<rparr>))
       | Some _ \<Rightarrow> ret it) (\<lambda>it.
     if n = 0 then crash
     else handle_set_double_indirect_block it (k div (n * n)) (k div n mod n) (k mod n) acc)))"

definition iter_set :: "InodeBlockIterator \<Rightarrow> (BlockIterSetRes \<times> InodeBlockIterator) fs_io" where
  "iter_set it =
     bind (if cur_idx it < INODE_BLOCK_LIMIT then set_direct it
       else if cur_idx it < INODE_IND_BLOCK_LIMIT then set_indirect it
       else if cur_idx it < INODE_DOUBLE_IND_BLOCK_LIMIT then set_double_indirect it
       else set_triple_indirect it) (\<lambda>(it, acc).
     ret (\<lparr> allocated_blocks = acc, set_block_idx = cur_block_idx it \<rparr>, it))"

definition next_set :: "InodeBlockIterator \<Rightarrow> (BlockIterSetRes \<times> InodeBlockIterator) fs_io" where
  "next_set it =
     bind (iter_set it) (\<lambda>(res, it). ret (res, it \<lparr> cur_idx := cur_idx it + 1 \<rparr>))"

definition get_blocks_array :: "InodeBlockIterator \<Rightarrow> u32 list" where
  "get_blocks_array it = it_blocks it"

section \<open>The block map\<close>

text \<open>
  The map of ext2 for blocks of 1 KiB, 256 pointers each: the block that holds
  the i-th block of a file, or 0 for a hole.  \<open>f\<close> is the content of the
  partition.
\<close>

definition block_at :: "(int \<Rightarrow> u8) \<Rightarrow> u32 \<Rightarrow> bytes" where
  "block_at f b = dump f (uint b * 1024) 1024"

definition pointer :: "(int \<Rightarrow> u8) \<Rightarrow> u32 \<Rightarrow> nat \<Rightarrow> u32" where
  "pointer f b k = (if b = 0 then 0 else from_le (dump f (uint b * 1024 + 4 * int k) 4))"

definition file_block :: "(int \<Rightarrow> u8) \<Rightarrow> u32 list \<Rightarrow> nat \<Rightarrow> u32" where
  "file_block f blocks i =
    (if i < 12 then blocks ! i
     else if i < 268 then pointer f (blocks ! 12) (i - 12)
     else if i < 65804 then
       let k = i - 268 in pointer f (pointer f (blocks ! 13) (k div 256)) (k mod 256)
     else
       let k = i - 65804 in
       pointer f (pointer f (pointer f (blocks ! 14) (k div 65536)) (k div 256 mod 256)) (k mod 256))"

definition block_content :: "(int \<Rightarrow> u8) \<Rightarrow> u32 \<Rightarrow> bytes" where
  "block_content f b = (if b = 0 then replicate 1024 0 else block_at f b)"

text \<open>An iterator over 1 KiB blocks whose cached pointer blocks agree with the disk.\<close>

definition iter_ok :: "InodeBlockIterator \<Rightarrow> (int \<Rightarrow> u8) \<Rightarrow> bool" where
  "iter_ok it f \<longleftrightarrow> length (it_blocks it) = 15 \<and> it_block_size it = 1024 \<and>
     io_block_size (it_io_handler it) = 1024 \<and>
     (cur_ind_buf it = None \<longrightarrow> cur_ind_buf_block_idx it = 0) \<and>
     (cur_double_ind_buf it = None \<longrightarrow> cur_double_ind_buf_block_idx it = 0) \<and>
     (\<forall>b. cur_ind_buf it = Some b \<longrightarrow> b = block_at f (cur_ind_buf_block_idx it)) \<and>
     (\<forall>b. cur_double_ind_buf it = Some b \<longrightarrow> b = block_at f (cur_double_ind_buf_block_idx it)) \<and>
     (\<forall>b. cur_triple_ind_buf it = Some b \<longrightarrow> b = block_at f (it_blocks it ! 14))"

text \<open>What reading leaves alone.\<close>

definition same_file :: "InodeBlockIterator \<Rightarrow> InodeBlockIterator \<Rightarrow> bool" where
  "same_file it it' \<longleftrightarrow> it_blocks it' = it_blocks it \<and> it_group_number it' = it_group_number it \<and>
     it_block_size it' = it_block_size it \<and> it_io_handler it' = it_io_handler it \<and>
     it_block_allocator it' = it_block_allocator it \<and> blocks_limit it' = blocks_limit it \<and>
     cur_idx it' = cur_idx it"

lemma same_file_refl [simp]: "same_file it it"
  by (simp add: same_file_def)

lemma same_file_trans: "same_file a b \<Longrightarrow> same_file b c \<Longrightarrow> same_file a c"
  by (simp add: same_file_def)

lemma length_block_at [simp]: "length (block_at f b) = 1024"
  by (simp add: block_at_def)

lemma length_block_content [simp]: "length (block_content f b) = 1024"
  by (simp add: block_content_def)

lemma sane_1024 [simp]: "sane_block_size 1024"
  by (simp add: sane_block_size_def)

lemma read_block_1024:
  assumes "part_ok io s" "io_block_size io = 1024" "length buf = 1024"
  shows "read_block io buf b s = (Ok (block_at (part io s) b), s)"
proof -
  note l = block_idx_to_lba_eq [OF sane_1024, of b]
  have "in_reach io (block_idx_to_lba 1024 b)"
    using l(2,3) assms(1) by (auto simp: in_reach_def part_ok_def)
  moreover have "512 * block_idx_to_lba 1024 b = uint b * 1024" using l(1) by simp
  ultimately show ?thesis
    using assms by (simp add: read_block_eq partition.rd_ok block_at_def mult.commute)
qed

lemma u32_at_block: "k < 256 \<Longrightarrow> b \<noteq> 0 \<Longrightarrow> u32_at (block_at f b) (k * 4) = Ok (pointer f b k)"
  using dump_inside [of "k * 4" 4 1024 f "uint b * 1024"]
  by (simp add: u32_at_def block_at_def pointer_def mult.commute)

lemma handle_block_ok:
  assumes "part_ok (it_io_handler it) s" "iter_ok it (part (it_io_handler it) s)" "length buf = 1024"
  shows "handle_block it buf b s =
    (Ok (block_content (part (it_io_handler it) s) b, it \<lparr> cur_block_idx := b \<rparr>), s)"
  using assms read_block_1024 [of "it_io_handler it" s buf b]
  by (cases "b = 0") (simp_all add: handle_block_def block_content_def Let_def bind_def iter_ok_def)

text \<open>The outcome of reading the block \<open>b\<close> with iterator \<open>it\<close>.\<close>

definition reads_block :: "InodeBlockIterator \<Rightarrow> (int \<Rightarrow> u8) \<Rightarrow> u32 \<Rightarrow> ext2 \<Rightarrow>
    (HalFsIOErr, bytes \<times> InodeBlockIterator) res \<times> ext2 \<Rightarrow> bool" where
  "reads_block it f b s r \<longleftrightarrow> (\<exists>it'. r = (Ok (block_content f b, it'), s) \<and> iter_ok it' f \<and>
     same_file it it' \<and> (b \<noteq> 0 \<longrightarrow> cur_block_idx it' = b))"

lemma reads_block_hole:
  "iter_ok it f \<Longrightarrow> length buf = 1024 \<Longrightarrow> reads_block it f 0 s (ret (replicate (length buf) 0, it) s)"
  by (simp add: reads_block_def block_content_def)

lemma reads_block_handle:
  assumes "part_ok (it_io_handler it) s" "f = part (it_io_handler it) s" "iter_ok it f" "length buf = 1024"
  shows "reads_block it f b s (handle_block it buf b s)"
  using assms by (simp add: handle_block_ok reads_block_def) (simp add: iter_ok_def same_file_def)

lemma reads_block_same_file: "reads_block it' f b s r \<Longrightarrow> same_file it it' \<Longrightarrow> reads_block it f b s r"
  unfolding reads_block_def by (metis same_file_trans)

text \<open>Both levels of \<^verbatim>\<open>handle_*_ind_block\<close> bring their cache to a pointer block first.\<close>

definition load_ind :: "InodeBlockIterator \<Rightarrow> u32 \<Rightarrow> InodeBlockIterator fs_io" where
  "load_ind it b =
     bind (case cur_ind_buf it of
         None \<Rightarrow> bind (read_block (it_io_handler it) (replicate (it_block_size it) 0) (it_blocks it ! 12))
           (\<lambda>c. ret (it \<lparr> cur_ind_buf_block_idx := it_blocks it ! 12, cur_ind_buf := Some c \<rparr>))
       | Some _ \<Rightarrow> ret it) (\<lambda>it.
     if b \<noteq> cur_ind_buf_block_idx it then
         bind (read_block (it_io_handler it) (the (cur_ind_buf it)) b)
           (\<lambda>c. ret (it \<lparr> cur_ind_buf_block_idx := b, cur_ind_buf := Some c \<rparr>))
       else ret it)"

definition load_double :: "InodeBlockIterator \<Rightarrow> u32 \<Rightarrow> InodeBlockIterator fs_io" where
  "load_double it b =
     bind (case cur_double_ind_buf it of
         None \<Rightarrow> bind (read_block (it_io_handler it) (replicate (it_block_size it) 0) (it_blocks it ! 13))
           (\<lambda>c. ret (it \<lparr> cur_double_ind_buf_block_idx := it_blocks it ! 13, cur_double_ind_buf := Some c \<rparr>))
       | Some _ \<Rightarrow> ret it) (\<lambda>it.
     if b \<noteq> cur_double_ind_buf_block_idx it then
         bind (read_block (it_io_handler it) (the (cur_double_ind_buf it)) b)
           (\<lambda>c. ret (it \<lparr> cur_double_ind_buf_block_idx := b, cur_double_ind_buf := Some c \<rparr>))
       else ret it)"

lemma handle_ind_block_step:
  "handle_ind_block it buf off b =
    (if b = 0 then ret (replicate (length buf) 0, it)
     else bind (load_ind it b) (\<lambda>it. bind (lift_res (u32_at (the (cur_ind_buf it)) off)) (handle_block it buf)))"
  by (simp add: handle_ind_block_def load_ind_def bind_assoc)

lemma handle_double_ind_block_step:
  "handle_double_ind_block it buf double_off off b =
    (if b = 0 then ret (replicate (length buf) 0, it)
     else bind (load_double it b) (\<lambda>it.
       bind (lift_res (u32_at (the (cur_double_ind_buf it)) double_off)) (handle_ind_block it buf off)))"
  by (simp add: handle_double_ind_block_def load_double_def bind_assoc)

lemma load_ind_ok:
  assumes "part_ok (it_io_handler it) s" "f = part (it_io_handler it) s" "iter_ok it f"
  shows "\<exists>it1. load_ind it b s = (Ok it1, s) \<and> iter_ok it1 f \<and> same_file it it1 \<and>
    cur_ind_buf it1 = Some (block_at f b)"
proof -
  have io: "io_block_size (it_io_handler it) = 1024" and bs: "it_block_size it = 1024"
    using assms(3) by (simp_all add: iter_ok_def)
  note rd = read_block_1024 [OF assms(1) io]
  show ?thesis
    using assms(2,3)
    by (cases "cur_ind_buf it") (auto simp: load_ind_def bind_def rd bs iter_ok_def same_file_def)
qed

lemma load_double_ok:
  assumes "part_ok (it_io_handler it) s" "f = part (it_io_handler it) s" "iter_ok it f"
  shows "\<exists>it1. load_double it b s = (Ok it1, s) \<and> iter_ok it1 f \<and> same_file it it1 \<and>
    cur_double_ind_buf it1 = Some (block_at f b)"
proof -
  have io: "io_block_size (it_io_handler it) = 1024" and bs: "it_block_size it = 1024"
    using assms(3) by (simp_all add: iter_ok_def)
  note rd = read_block_1024 [OF assms(1) io]
  show ?thesis
    using assms(2,3)
    by (cases "cur_double_ind_buf it") (auto simp: load_double_def bind_def rd bs iter_ok_def same_file_def)
qed

lemma handle_ind_block_ok:
  assumes "part_ok (it_io_handler it) s" "f = part (it_io_handler it) s" "iter_ok it f"
    and "length buf = 1024" "k < 256"
  shows "reads_block it f (pointer f b k) s (handle_ind_block it buf (k * 4) b s)"
proof (cases "b = 0")
  case True
  then show ?thesis
    using reads_block_hole [OF assms(3,4)] by (simp add: handle_ind_block_step pointer_def)
next
  case False
  obtain it1 where 1: "load_ind it b s = (Ok it1, s)" "iter_ok it1 f" "same_file it it1"
      "cur_ind_buf it1 = Some (block_at f b)"
    using load_ind_ok [OF assms(1-3)] by blast
  have "it_io_handler it1 = it_io_handler it" using 1(3) by (simp add: same_file_def)
  then have "reads_block it1 f (pointer f b k) s (handle_block it1 buf (pointer f b k) s)"
    using assms 1(2) by (intro reads_block_handle) simp_all
  from reads_block_same_file [OF this 1(3)] show ?thesis
    using False 1(1,4) assms(5)
    by (simp add: handle_ind_block_step bind_def u32_at_block)
qed

lemma handle_double_ind_block_ok:
  assumes "part_ok (it_io_handler it) s" "f = part (it_io_handler it) s" "iter_ok it f"
    and "length buf = 1024" "k < 256" "j < 256"
  shows "reads_block it f (pointer f (pointer f b j) k) s (handle_double_ind_block it buf (j * 4) (k * 4) b s)"
proof (cases "b = 0")
  case True
  then show ?thesis
    using reads_block_hole [OF assms(3,4)] by (simp add: handle_double_ind_block_step pointer_def)
next
  case False
  obtain it1 where 1: "load_double it b s = (Ok it1, s)" "iter_ok it1 f" "same_file it it1"
      "cur_double_ind_buf it1 = Some (block_at f b)"
    using load_double_ok [OF assms(1-3)] by blast
  have "it_io_handler it1 = it_io_handler it" using 1(3) by (simp add: same_file_def)
  then have "reads_block it1 f (pointer f (pointer f b j) k) s (handle_ind_block it1 buf (k * 4) (pointer f b j) s)"
    using assms 1(2) by (intro handle_ind_block_ok) simp_all
  from reads_block_same_file [OF this 1(3)] show ?thesis
    using False 1(1,4) assms(6)
    by (simp add: handle_double_ind_block_step bind_def u32_at_block)
qed

definition load_triple :: "InodeBlockIterator \<Rightarrow> InodeBlockIterator fs_io" where
  "load_triple it = (case cur_triple_ind_buf it of
       None \<Rightarrow> bind (read_block (it_io_handler it) (replicate (it_block_size it) 0) (it_blocks it ! 14))
         (\<lambda>b. ret (it \<lparr> cur_triple_ind_buf := Some b \<rparr>))
     | Some _ \<Rightarrow> ret it)"

lemma load_triple_ok:
  assumes "part_ok (it_io_handler it) s" "f = part (it_io_handler it) s" "iter_ok it f"
  shows "\<exists>it1. load_triple it s = (Ok it1, s) \<and> iter_ok it1 f \<and> same_file it it1 \<and>
    cur_triple_ind_buf it1 = Some (block_at f (it_blocks it ! 14))"
proof -
  have io: "io_block_size (it_io_handler it) = 1024" and bs: "it_block_size it = 1024"
    using assms(3) by (simp_all add: iter_ok_def)
  note rd = read_block_1024 [OF assms(1) io]
  show ?thesis
    using assms(2,3)
    by (cases "cur_triple_ind_buf it") (auto simp: load_triple_def bind_def rd bs iter_ok_def same_file_def)
qed

lemma handle_triple_ind_block_ok:
  assumes "part_ok (it_io_handler it) s" "f = part (it_io_handler it) s" "iter_ok it f"
    and "length buf = 1024" "65804 \<le> cur_idx it" "cur_idx it < 16843020"
  shows "reads_block it f (file_block f (it_blocks it) (cur_idx it)) s (handle_triple_ind_block it buf s)"
proof (cases "it_blocks it ! 14 = 0")
  case True
  then show ?thesis
    using reads_block_hole [OF assms(3,4)] assms(5)
    by (simp add: handle_triple_ind_block_def file_block_def pointer_def Let_def)
next
  case False
  let ?k = "cur_idx it - 65804" and ?b = "it_blocks it ! 14"
  have k: "?k div 65536 < 256" "?k div 256 mod 256 < 256" "?k mod 256 < 256" using assms(6) by auto
  obtain it1 where 1: "load_triple it s = (Ok it1, s)" "iter_ok it1 f" "same_file it it1"
      "cur_triple_ind_buf it1 = Some (block_at f ?b)"
    using load_triple_ok [OF assms(1-3)] by blast
  let ?d = "pointer f ?b (?k div 65536)"
  have "it_io_handler it1 = it_io_handler it" using 1(3) by (simp add: same_file_def)
  then have "reads_block it1 f (pointer f (pointer f ?d (?k div 256 mod 256)) (?k mod 256)) s
      (handle_double_ind_block it1 buf (?k div 256 mod 256 * 4) (?k mod 256 * 4) ?d s)"
    using assms 1(2) k by (intro handle_double_ind_block_ok) simp_all
  from reads_block_same_file [OF this 1(3)] show ?thesis
    using False 1(1,4) k assms(3,5)
    by (simp add: handle_triple_ind_block_def bind_def iter_ok_def file_block_def Let_def limit_defs
        u32_at_block [OF k(1) False] flip: load_triple_def)
qed

text \<open>Setting a block that exists: nothing is allocated and the disk is only read.\<close>

definition finds_block :: "InodeBlockIterator \<Rightarrow> (int \<Rightarrow> u8) \<Rightarrow> u32 \<Rightarrow> AllocatedBlock list \<Rightarrow> ext2 \<Rightarrow>
    (HalFsIOErr, InodeBlockIterator \<times> AllocatedBlock list) res \<times> ext2 \<Rightarrow> bool" where
  "finds_block it f b acc s r \<longleftrightarrow> (\<exists>it'. r = (Ok (it', acc), s) \<and> iter_ok it' f \<and>
     same_file it it' \<and> cur_block_idx it' = b)"

lemma finds_block_same_file: "finds_block it' f b acc s r \<Longrightarrow> same_file it it' \<Longrightarrow> finds_block it f b acc s r"
  unfolding finds_block_def by (metis same_file_trans)

lemma pointer_nonzero: "pointer f b k \<noteq> 0 \<Longrightarrow> b \<noteq> 0"
  by (auto simp: pointer_def)

lemma handle_set_block_mapped:
  assumes "part_ok (it_io_handler it) s" "f = part (it_io_handler it) s" "iter_ok it f"
    and "k < 256" "pointer f b k \<noteq> 0"
  shows "finds_block it f (pointer f b k) acc s (handle_set_block it b k acc s)"
proof -
  have io: "io_block_size (it_io_handler it) = 1024" and bs: "it_block_size it = 1024"
    using assms(3) by (simp_all add: iter_ok_def)
  note rd = read_block_1024 [OF assms(1) io] and b = pointer_nonzero [OF assms(5)]
  show ?thesis
  proof (cases "cur_ind_buf_block_idx it = b")
    case True
    then have "cur_ind_buf it = Some (block_at f b)" using assms(3) b by (auto simp: iter_ok_def)
    with True show ?thesis
      using assms(3-5) b
      by (simp add: handle_set_block_def bind_def u32_at_block finds_block_def)
        (simp add: iter_ok_def same_file_def)
  next
    case False
    then show ?thesis
      using assms(2-5) b bs
      by (simp add: handle_set_block_def bind_def rd u32_at_block finds_block_def)
        (simp add: iter_ok_def same_file_def)
  qed
qed

lemma handle_set_indirect_block_mapped:
  assumes "part_ok (it_io_handler it) s" "f = part (it_io_handler it) s" "iter_ok it f"
    and "j < 256" "k < 256" "pointer f (pointer f b j) k \<noteq> 0"
  shows "finds_block it f (pointer f (pointer f b j) k) acc s (handle_set_indirect_block it b j k acc s)"
proof -
  have io: "io_block_size (it_io_handler it) = 1024" and bs: "it_block_size it = 1024"
    using assms(3) by (simp_all add: iter_ok_def)
  note rd = read_block_1024 [OF assms(1) io] and p = pointer_nonzero [OF assms(6)]
  note b = pointer_nonzero [OF p]
  let ?it = "if cur_double_ind_buf_block_idx it \<noteq> b
    then it \<lparr> cur_double_ind_buf_block_idx := b, cur_double_ind_buf := Some (block_at f b) \<rparr> else it"
  have ok: "iter_ok ?it f" "same_file it ?it" "cur_double_ind_buf ?it = Some (block_at f b)"
    using assms(3) b by (auto simp: iter_ok_def same_file_def)
  have "handle_set_indirect_block it b j k acc s = handle_set_block ?it (pointer f b j) k acc s"
    using ok(3) p b assms(2,4) bs
    by (auto simp: handle_set_indirect_block_def bind_def rd u32_at_block)
  moreover have "finds_block ?it f (pointer f (pointer f b j) k) acc s (handle_set_block ?it (pointer f b j) k acc s)"
    using assms ok by (intro handle_set_block_mapped) (simp_all add: same_file_def)
  ultimately show ?thesis using finds_block_same_file ok(2) by metis
qed

lemma set_direct_mapped:
  assumes "iter_ok it f" "cur_idx it < 12" "file_block f (it_blocks it) (cur_idx it) \<noteq> 0"
  shows "finds_block it f (file_block f (it_blocks it) (cur_idx it)) [] s (set_direct it s)"
  using assms by (simp add: set_direct_def finds_block_def file_block_def)
    (simp add: iter_ok_def same_file_def)

lemma set_indirect_mapped:
  assumes "part_ok (it_io_handler it) s" "f = part (it_io_handler it) s" "iter_ok it f"
    and "12 \<le> cur_idx it" "cur_idx it < 268" "file_block f (it_blocks it) (cur_idx it) \<noteq> 0"
  shows "finds_block it f (file_block f (it_blocks it) (cur_idx it)) [] s (set_indirect it s)"
proof -
  let ?b = "it_blocks it ! 12" and ?k = "cur_idx it - 12"
  have io: "io_block_size (it_io_handler it) = 1024" and bs: "it_block_size it = 1024"
    using assms(3) by (simp_all add: iter_ok_def)
  have p: "file_block f (it_blocks it) (cur_idx it) = pointer f ?b ?k" "pointer f ?b ?k \<noteq> 0" "?k < 256"
    using assms(4-6) by (auto simp: file_block_def)
  note b = pointer_nonzero [OF p(2)] and rd = read_block_1024 [OF assms(1) io]
  obtain it1 where 1: "iter_ok it1 f" "same_file it it1"
      and eq: "set_indirect it s = handle_set_block it1 ?b ?k [] s"
  proof (cases "cur_ind_buf it")
    case None
    show ?thesis
      using None assms(2,3) b bs
      by (intro that [of "it \<lparr> cur_ind_buf := Some (block_at f ?b), cur_ind_buf_block_idx := ?b \<rparr>"])
        (simp_all add: set_indirect_def handle_block_in_blocks_array_def bind_def rd limit_defs Let_def iter_ok_def
          same_file_def)
  next
    case (Some c)
    show ?thesis
      using Some assms(3) b bs
      by (intro that [of it])
        (simp_all add: set_indirect_def handle_block_in_blocks_array_def bind_def limit_defs Let_def iter_ok_def)
  qed
  have "it_io_handler it1 = it_io_handler it" using 1(2) by (simp add: same_file_def)
  then have "finds_block it1 f (pointer f ?b ?k) [] s (handle_set_block it1 ?b ?k [] s)"
    using assms(1,2) 1(1) p by (intro handle_set_block_mapped) simp_all
  from finds_block_same_file [OF this 1(2)] show ?thesis by (simp add: eq p(1))
qed

lemma set_double_indirect_mapped:
  assumes "part_ok (it_io_handler it) s" "f = part (it_io_handler it) s" "iter_ok it f"
    and "268 \<le> cur_idx it" "cur_idx it < 65804" "file_block f (it_blocks it) (cur_idx it) \<noteq> 0"
  shows "finds_block it f (file_block f (it_blocks it) (cur_idx it)) [] s (set_double_indirect it s)"
proof -
  let ?b = "it_blocks it ! 13" and ?k = "cur_idx it - 268"
  have io: "io_block_size (it_io_handler it) = 1024" and bs: "it_block_size it = 1024"
    using assms(3) by (simp_all add: iter_ok_def)
  let ?p = "pointer f (pointer f ?b (?k div 256)) (?k mod 256)"
  have p: "file_block f (it_blocks it) (cur_idx it) = ?p" "?p \<noteq> 0" "?k div 256 < 256"
    using assms(4-6) by (auto simp: file_block_def Let_def)
  note b = pointer_nonzero [OF pointer_nonzero [OF p(2)]] and rd = read_block_1024 [OF assms(1) io]
  obtain it1 where 1: "iter_ok it1 f" "same_file it it1"
      and eq: "set_double_indirect it s = handle_set_indirect_block it1 ?b (?k div 256) (?k mod 256) [] s"
  proof (cases "cur_double_ind_buf it")
    case None
    show ?thesis
      using None assms(2,3) b bs
      by (intro that [of "it \<lparr> cur_double_ind_buf := Some (block_at f ?b), cur_double_ind_buf_block_idx := ?b \<rparr>"])
        (simp_all add: set_double_indirect_def handle_block_in_blocks_array_def bind_def rd limit_defs Let_def iter_ok_def
          same_file_def)
  next
    case (Some c)
    show ?thesis
      using Some assms(3) b bs
      by (intro that [of it])
        (simp_all add: set_double_indirect_def handle_block_in_blocks_array_def bind_def limit_defs Let_def iter_ok_def)
  qed
  have "it_io_handler it1 = it_io_handler it" using 1(2) by (simp add: same_file_def)
  then have "finds_block it1 f ?p [] s (handle_set_indirect_block it1 ?b (?k div 256) (?k mod 256) [] s)"
    using assms(1,2) 1(1) p by (intro handle_set_indirect_block_mapped) simp_all
  from finds_block_same_file [OF this 1(2)] show ?thesis by (simp add: eq p(1))
qed

lemma set_triple_indirect_mapped:
  assumes "part_ok (it_io_handler it) s" "f = part (it_io_handler it) s" "iter_ok it f"
    and "65804 \<le> cur_idx it" "cur_idx it < 16843020" "file_block f (it_blocks it) (cur_idx it) \<noteq> 0"
  shows "finds_block it f (file_block f (it_blocks it) (cur_idx it)) [] s (set_triple_indirect it s)"
proof -
  let ?b = "it_blocks it ! 14" and ?k = "cur_idx it - 65804"
  have io: "io_block_size (it_io_handler it) = 1024" and bs: "it_block_size it = 1024"
    using assms(3) by (simp_all add: iter_ok_def)
  let ?d = "pointer f ?b (?k div 65536)" and ?j = "?k div 256 mod 256" and ?i = "?k mod 256"
  let ?p = "pointer f (pointer f ?d ?j) ?i"
  have p: "file_block f (it_blocks it) (cur_idx it) = ?p" "?p \<noteq> 0" "?k div 65536 < 256"
    using assms(4-6) by (auto simp: file_block_def Let_def)
  note d = pointer_nonzero [OF pointer_nonzero [OF p(2)]] and rd = read_block_1024 [OF assms(1) io]
  note b = pointer_nonzero [OF d]
  obtain it1 where 1: "iter_ok it1 f" "same_file it it1"
      and eq: "set_triple_indirect it s = handle_set_indirect_block it1 ?d ?j ?i [] s"
  proof (cases "cur_triple_ind_buf it")
    case None
    show ?thesis
      using None assms(2,3) b bs d
      by (intro that [of "it \<lparr> cur_triple_ind_buf := Some (block_at f ?b), cur_triple_ind_buf_block_idx := ?b \<rparr>"])
        (simp_all add: set_triple_indirect_def handle_block_in_blocks_array_def bind_def rd limit_defs Let_def iter_ok_def
          same_file_def handle_set_double_indirect_block_def u32_at_block [OF p(3) b])
  next
    case (Some c)
    show ?thesis
      using Some assms(3) b bs d
      by (intro that [of it])
        (simp_all add: set_triple_indirect_def handle_block_in_blocks_array_def bind_def limit_defs Let_def iter_ok_def handle_set_double_indirect_block_def u32_at_block [OF p(3) b])
  qed
  have "it_io_handler it1 = it_io_handler it" using 1(2) by (simp add: same_file_def)
  then have "finds_block it1 f ?p [] s (handle_set_indirect_block it1 ?d ?j ?i [] s)"
    using assms(1,2) 1(1) p by (intro handle_set_indirect_block_mapped) simp_all
  from finds_block_same_file [OF this 1(2)] show ?thesis by (simp add: eq p(1))
qed

section \<open>Properties\<close>

lemma limits [simp]: "INODE_BLOCK_LIMIT = 12" "INODE_IND_BLOCK_LIMIT = 268"
    "INODE_DOUBLE_IND_BLOCK_LIMIT = 65804" "INODE_TRIPLE_IND_BLOCK_LIMIT = 16843020"
  by (simp_all add: limit_defs)

text \<open>The element \<^verbatim>\<open>get\<close> makes of the outcome of one of its ranges.\<close>

lemma reads_block_element:
  assumes "reads_block it f b s (m s)"
  shows "\<exists>it'. bind m (\<lambda>(buf, it). ret (\<lparr> el_buf = buf, is_terminated = False,
      el_block_idx = cur_block_idx it \<rparr>, it)) s =
    (Ok (\<lparr> el_buf = block_content f b, is_terminated = False, el_block_idx = cur_block_idx it' \<rparr>, it'), s) \<and>
    iter_ok it' f \<and> same_file it it' \<and> (b \<noteq> 0 \<longrightarrow> cur_block_idx it' = b)"
  using assms by (auto simp: reads_block_def bind_def)

lemma iter_get_ok:
  fixes it s
  defines "f \<equiv> part (it_io_handler it) s"
  defines "b \<equiv> file_block f (it_blocks it) (cur_idx it)"
  assumes "part_ok (it_io_handler it) s" "iter_ok it f" "length buf = 1024"
    and "cur_idx it \<le> 12 \<or> 268 \<le> cur_idx it" "cur_idx it < 16843020"
  shows "\<exists>it'. iter_get it buf s =
      (Ok (\<lparr> el_buf = block_content f b, is_terminated = False, el_block_idx = cur_block_idx it' \<rparr>, it'), s) \<and>
    iter_ok it' f \<and> same_file it it' \<and> (b \<noteq> 0 \<longrightarrow> cur_block_idx it' = b)"
proof -
  let ?i = "cur_idx it"
  have wf: "length (it_blocks it) = 15" "it_block_size it = 1024" using assms(4) by (auto simp: iter_ok_def)
  have i: "?i mod 2 ^ 32 = ?i" using assms(7) by simp
  consider "?i < 12" | "?i = 12" | "268 \<le> ?i" "?i < 65804" | "65804 \<le> ?i" using assms(6) by linarith
  then show ?thesis
  proof cases
    case 1
    have "reads_block it f b s (handle_block it buf (it_blocks it ! ?i) s)"
      unfolding b_def using 1 assms(3-5) f_def
      by (simp add: file_block_def reads_block_handle)
    from reads_block_element [where m = "handle_block it buf (it_blocks it ! ?i)", OF this] show ?thesis
      using 1 wf i by (simp add: iter_get_def Let_def)
  next
    case 2
    have "reads_block it f b s (handle_ind_block it buf (0 * 4) (it_blocks it ! 12) s)"
      unfolding b_def using 2 handle_ind_block_ok [OF assms(3) f_def [THEN meta_eq_to_obj_eq] assms(4,5), of 0]
      by (simp add: file_block_def)
    from reads_block_element [where m = "handle_ind_block it buf (0 * 4) (it_blocks it ! 12)", OF this] show ?thesis
      using 2 wf i by (simp add: iter_get_def Let_def)
  next
    case 3
    let ?k = "?i - 268"
    have "reads_block it f b s (handle_double_ind_block it buf (?k div 256 * 4) (?k mod 256 * 4) (it_blocks it ! 13) s)"
      unfolding b_def using 3 handle_double_ind_block_ok [OF assms(3) f_def [THEN meta_eq_to_obj_eq] assms(4,5), of "?k mod 256" "?k div 256"]
      by (simp add: file_block_def Let_def)
    from reads_block_element [where m = "handle_double_ind_block it buf (?k div 256 * 4) (?k mod 256 * 4) (it_blocks it ! 13)", OF this] show ?thesis
      using 3 wf i by (simp add: iter_get_def Let_def)
  next
    case 4
    have "reads_block it f b s (handle_triple_ind_block it buf s)"
      unfolding b_def using 4 assms(7) handle_triple_ind_block_ok [OF assms(3) f_def [THEN meta_eq_to_obj_eq] assms(4,5)] by simp
    from reads_block_element [where m = "handle_triple_ind_block it buf", OF this] show ?thesis
      using 4 assms(7) wf i by (simp add: iter_get_def Let_def)
  qed
qed

text \<open>C14. On a file system of 1 KiB blocks, \<^verbatim>\<open>get\<close> at a direct, double- or triple-indirect index returns
  the content of the block the ext2 block map assigns to it, zeros for a hole, and its number; the
  disk is not changed and the cached pointer blocks stay in agreement with it.\<close>

theorem iter_get_reads_block:
  fixes it s
  defines "f \<equiv> part (it_io_handler it) s"
  defines "b \<equiv> file_block f (it_blocks it) (cur_idx it)"
  assumes "part_ok (it_io_handler it) s" "iter_ok it f" "length buf = 1024"
    and "cur_idx it \<le> 12 \<or> 268 \<le> cur_idx it" "cur_idx it < 16843020"
  shows "\<exists>it'. iter_get it buf s =
      (Ok (\<lparr> el_buf = block_content f b, is_terminated = False, el_block_idx = cur_block_idx it' \<rparr>, it'), s) \<and>
    iter_ok it' f \<and> same_file it it' \<and> (b \<noteq> 0 \<longrightarrow> cur_block_idx it' = b)"
  unfolding b_def f_def using assms by (intro iter_get_ok) simp_all

text \<open>A file whose double-indirect block is block 5, on a partition where the first pointer of
  block 5 is 7 and that of block 7 is 9.\<close>

definition sample_iter :: "nat \<Rightarrow> InodeBlockIterator" where
  "sample_iter i = \<lparr> it_blocks = (replicate 15 0)[12 := 7, 13 := 5], it_group_number = 0, it_block_size = 1024,
     it_io_handler = io_handler sample_fs, it_block_allocator = block_allocator sample_fs,
     cur_ind_buf = None, cur_ind_buf_block_idx = 0, cur_double_ind_buf = None,
     cur_double_ind_buf_block_idx = 0, cur_triple_ind_buf = None, cur_triple_ind_buf_block_idx = 0,
     blocks_limit = 16843020, cur_idx = i, cur_block_idx = 0 \<rparr>"

definition sample_pointers :: "int \<Rightarrow> u8" where
  "sample_pointers = (\<lambda>a. if a = 5120 then 7 else if a = 7168 then 9 else 0)"

lemma sample_pointer: "pointer sample_pointers 5 0 = 7" "pointer sample_pointers 7 0 = 9"
  by (simp_all add: pointer_def sample_pointers_def dump_def from_le_def upt_rec)

lemma sample_iter_ok: "iter_ok (sample_iter i) f"
  by (simp add: iter_ok_def sample_iter_def)

lemma sample_iter_fields [simp]: "it_io_handler (sample_iter i) = io_handler sample_fs"
    "cur_idx (sample_iter i) = i" "it_blocks (sample_iter i) = (replicate 15 0)[12 := 7, 13 := 5]"
  by (simp_all add: sample_iter_def)

lemma sample_file_block: "file_block sample_pointers ((replicate 15 0)[12 := 7, 13 := 5]) 268 = 9"
  by (simp add: file_block_def sample_pointer)

theorem iter_get_reads_block_witness:
  "\<exists>it'. iter_get (sample_iter 268) (replicate 1024 0) (sample_ext2 sample_pointers) =
    (Ok (\<lparr> el_buf = block_content sample_pointers 9, is_terminated = False, el_block_idx = 9 \<rparr>, it'),
     sample_ext2 sample_pointers)"
  using iter_get_reads_block [of "sample_iter 268" "sample_ext2 sample_pointers" "replicate 1024 0"]
  by (auto simp: sample_iter_ok sample_file_block)

text \<open>In the single-indirect range \<^verbatim>\<open>get\<close> uses the index of the pointer as its byte offset: it
  panics on every index that is not a multiple of four, and on the others returns the block of
  another index.\<close>

theorem iter_get_single_indirect:
  fixes it s
  defines "f \<equiv> part (it_io_handler it) s"
  assumes "part_ok (it_io_handler it) s" "iter_ok it f" "length buf = 1024"
    and "12 \<le> cur_idx it" "cur_idx it < 268" "it_blocks it ! 12 \<noteq> 0"
  shows "if 4 dvd cur_idx it
    then \<exists>idx it'. iter_get it buf s = (Ok (\<lparr> el_buf =
        block_content f (file_block f (it_blocks it) (12 + (cur_idx it - 12) div 4)),
        is_terminated = False, el_block_idx = idx \<rparr>, it'), s)
    else fst (iter_get it buf s) = Panic"
proof -
  let ?i = "cur_idx it" and ?b = "it_blocks it ! 12"
  have eq: "iter_get it buf = bind (handle_ind_block it buf (?i - 12) ?b) (\<lambda>(buf, it).
      ret (\<lparr> el_buf = buf, is_terminated = False, el_block_idx = cur_block_idx it \<rparr>, it))"
    using assms(5,6) by (simp add: iter_get_def Let_def)
  show ?thesis
  proof (cases "4 dvd ?i")
    case True
    define k where "k = ?i div 4 - 3"
    have k: "?i = 12 + k * 4" "k < 256" using True assms(5,6) unfolding k_def by presburger+
    then have "reads_block it f (pointer f ?b k) s (handle_ind_block it buf (k * 4) ?b s)"
      using handle_ind_block_ok assms(2-4) f_def by blast
    from reads_block_element [where m = "handle_ind_block it buf (k * 4) ?b", OF this]
    show ?thesis using True k by (auto simp: eq file_block_def)
  next
    case False
    then have n: "\<not> 4 dvd (?i - 12)" using assms(5) by presburger
    obtain it1 where "load_ind it ?b s = (Ok it1, s)" "cur_ind_buf it1 = Some (block_at f ?b)"
      using load_ind_ok [OF assms(2) f_def [THEN meta_eq_to_obj_eq] assms(3)] by blast
    then show ?thesis
      using False n assms(7) by (simp add: eq handle_ind_block_step bind_def u32_at_def)
  qed
qed

theorem iter_get_single_indirect_witness:
  "fst (iter_get (sample_iter 13) (replicate 1024 0) (sample_ext2 sample_pointers)) = Panic"
  using iter_get_single_indirect [of "sample_iter 13" "sample_ext2 sample_pointers" "replicate 1024 0"]
  by (simp add: sample_iter_ok)

text \<open>Where the ext2 block map has a block for the index, in any of the four ranges, \<^verbatim>\<open>set\<close> returns
  that block, allocates nothing and leaves the disk and the inode's pointers alone.\<close>

theorem iter_set_mapped:
  fixes it s
  defines "f \<equiv> part (it_io_handler it) s"
  defines "b \<equiv> file_block f (it_blocks it) (cur_idx it)"
  assumes "part_ok (it_io_handler it) s" "iter_ok it f" "cur_idx it < 16843020" "b \<noteq> 0"
  shows "\<exists>it'. iter_set it s = (Ok (\<lparr> allocated_blocks = [], set_block_idx = b \<rparr>, it'), s) \<and>
    iter_ok it' f \<and> same_file it it'"
proof -
  note f = f_def [THEN meta_eq_to_obj_eq] and b = assms(6) [unfolded b_def]
  let ?m = "if cur_idx it < INODE_BLOCK_LIMIT then set_direct it
       else if cur_idx it < INODE_IND_BLOCK_LIMIT then set_indirect it
       else if cur_idx it < INODE_DOUBLE_IND_BLOCK_LIMIT then set_double_indirect it
       else set_triple_indirect it"
  consider "cur_idx it < 12" | "12 \<le> cur_idx it" "cur_idx it < 268" | "268 \<le> cur_idx it" "cur_idx it < 65804"
    | "65804 \<le> cur_idx it" by linarith
  then have "finds_block it f b [] s (?m s)"
  proof cases
    case 1
    then show ?thesis using set_direct_mapped [OF assms(4)] b by (simp add: b_def)
  next
    case 2
    then show ?thesis using set_indirect_mapped [OF assms(3) f assms(4)] b by (simp add: b_def)
  next
    case 3
    then show ?thesis using set_double_indirect_mapped [OF assms(3) f assms(4)] b by (simp add: b_def)
  next
    case 4
    then show ?thesis using set_triple_indirect_mapped [OF assms(3) f assms(4)] b assms(5) by (simp add: b_def)
  qed
  then show ?thesis unfolding iter_set_def finds_block_def by (auto simp: bind_def)
qed

theorem iter_set_mapped_witness:
  "\<exists>it'. iter_set (sample_iter 268) (sample_ext2 sample_pointers) =
    (Ok (\<lparr> allocated_blocks = [], set_block_idx = 9 \<rparr>, it'), sample_ext2 sample_pointers)"
  using iter_set_mapped [of "sample_iter 268" "sample_ext2 sample_pointers"]
  by (auto simp: sample_iter_ok sample_file_block)

end
