(* ===== verification/Ext2File.thy ===== *)
theory Ext2File
  imports Ext2Iter
begin

text \<open>
  Reading and writing regular files (\<^verbatim>\<open>drivers/fs/ext2/read.rs\<close> and \<^verbatim>\<open>write.rs\<close>).
  What a call mutates through a reference is part of the state of its monad:
  a read updates the caller's buffer and the file position, a write the
  caller's inode and the file position, also when it fails half way.
\<close>

record Progress =
  pg_block_idx :: u32
  pg_offset :: u32
  bytes_written :: nat

record HalIOCtx =
  head :: u64

definition HalIOCtx_new :: HalIOCtx where
  "HalIOCtx_new = \<lparr> head = 0 \<rparr>"

text \<open>A file-system call inside code that also owns \<open>'c\<close>.\<close>

definition on_fs :: "'a fs_io \<Rightarrow> (ext2 \<times> 'c, HalFsIOErr, 'a) st" where
  "on_fs m = (\<lambda>(s, c). case m s of (r, s') \<Rightarrow> (r, s', c))"

section \<open>Addresses\<close>

text \<open>\<^verbatim>\<open>*bytemuck::from_bytes(&buf[off..])\<close> as a \<^verbatim>\<open>u32\<close>: the rest of the buffer must be exactly one.\<close>

definition u32_tail :: "bytes \<Rightarrow> nat \<Rightarrow> ('e, u32) res" where
  "u32_tail buf off =
    (if off + 4 = length buf \<and> 4 dvd off then Ok (from_le (drop off buf)) else Panic)"

definition deserialize_u32_at :: "bytes \<Rightarrow> nat \<Rightarrow> (HalFsIOErr, u32) res" where
  "deserialize_u32_at buf off =
    (if off \<le> length buf then map_err DeserializationErr
       (bind_res (deserialize_int Little (drop off buf)) (\<lambda>(v, _). Ok v))
     else Panic)"

definition ADDR_PER_BLOCK :: nat where
  "ADDR_PER_BLOCK = BLOCK_SIZE div 4"

definition get_block_lba :: "Ext2Fs \<Rightarrow> Inode \<Rightarrow> u32 \<Rightarrow> u32 fs_io" where
  "get_block_lba fs ino index =
    (let i = unat index; buf = replicate BLOCK_SIZE 0;
         lba_of = (\<lambda>b. as_u32 (block_idx_to_lba (fs_block_size fs) b)) in
     if i < INODE_BLOCK_LIMIT then ret (i_block ino ! i)
     else if i < INODE_IND_BLOCK_LIMIT then
       let i = i - INODE_BLOCK_LIMIT in
       bind (read_sectors (io_handler fs) buf (uint (i_block ino ! 12))) (\<lambda>buf.
       bind (lift_res (u32_tail buf (i * 4))) (\<lambda>b. ret (lba_of b)))
     else if i < INODE_DOUBLE_IND_BLOCK_LIMIT then
       let i = i - INODE_IND_BLOCK_LIMIT in
       bind (read_sectors (io_handler fs) buf (uint (i_block ino ! 14))) (\<lambda>buf.
       bind (lift_res (deserialize_u32_at buf (i div ADDR_PER_BLOCK * 4))) (\<lambda>ind_block_addr.
       bind (read_sectors (io_handler fs) buf (uint ind_block_addr)) (\<lambda>buf.
       bind (lift_res (u32_tail buf (i mod ADDR_PER_BLOCK * 4))) (\<lambda>b. ret (lba_of b)))))
     else if i < INODE_TRIPLE_IND_BLOCK_LIMIT then
       let i = i - INODE_DOUBLE_IND_BLOCK_LIMIT; n2 = ADDR_PER_BLOCK * ADDR_PER_BLOCK in
       bind (read_sectors (io_handler fs) buf (uint (i_block ino ! 13))) (\<lambda>buf.
       bind (lift_res (deserialize_u32_at buf (i div ADDR_PER_BLOCK div ADDR_PER_BLOCK * 4)))
         (\<lambda>double_ind_block_addr.
       bind (read_sectors (io_handler fs) buf (uint double_ind_block_addr)) (\<lambda>buf.
       bind (lift_res (deserialize_u32_at buf (i mod n2 div ADDR_PER_BLOCK * 4))) (\<lambda>ind_block_addr.
       bind (read_sectors (io_handler fs) buf (uint ind_block_addr)) (\<lambda>buf.
       bind (lift_res (u32_tail buf (i mod n2 mod ADDR_PER_BLOCK * 4))) (\<lambda>b. ret (lba_of b)))))))
     else fail FileTooLarge)"

section \<open>Reading\<close>

type_synonym 'a read_io = "(ext2 \<times> bytes \<times> HalIOCtx, HalFsIOErr, 'a) st"

text \<open>The copy loop over the positions of a block; the flag tells that it ran to the end.\<close>

fun copy_out :: "Inode \<Rightarrow> bytes \<Rightarrow> nat list \<Rightarrow> Progress \<Rightarrow> (Progress \<times> bool) read_io" where
  "copy_out ino buf [] pg c = (Ok (pg, True), c)"
| "copy_out ino buf (i # rest) pg (s, target, ctx) =
    (if i_size ino \<le> ucast (head ctx) then (Ok (pg, False), s, target, ctx)
     else if length target \<le> bytes_written pg then (Ok (pg, False), s, target, ctx)
     else if i < length buf then
       copy_out ino buf rest (pg \<lparr> bytes_written := bytes_written pg + 1 \<rparr>)
         (s, target[bytes_written pg := buf ! i], ctx \<lparr> head := head ctx + 1 \<rparr>)
     else (Panic, s, target, ctx))"

definition read_till_next_block :: "Inode \<Rightarrow> Progress \<Rightarrow> bytes \<Rightarrow> Progress read_io" where
  "read_till_next_block ino pg buf = (\<lambda>(s, c).
     bind (copy_out ino buf [unat (pg_offset pg)..<unat (block_size (super_block s))] pg) (\<lambda>(pg, complete).
     ret (if complete then pg \<lparr> pg_block_idx := pg_block_idx pg + 1, pg_offset := 0 \<rparr> else pg)) (s, c))"

text \<open>
  The loop of \<^verbatim>\<open>read\<close>.  Every turn advances the iterator, which stops at
  \<open>blocks_limit\<close>, so as many turns as blocks are left suffice; after them
  the iterator only reports its end.
\<close>

fun read_loop :: "nat \<Rightarrow> Inode \<Rightarrow> InodeBlockIterator \<Rightarrow> bytes \<Rightarrow> Progress \<Rightarrow> nat read_io" where
  "read_loop 0 ino it block_buf pg = ret (bytes_written pg)"
| "read_loop (Suc n) ino it block_buf pg = (\<lambda>(s, target, ctx).
    (if ucast (head ctx) < i_size ino \<and> bytes_written pg < length target then
       bind (on_fs (iter_next it block_buf)) (\<lambda>(el, it).
       if is_terminated el then ret (bytes_written pg)
       else bind (read_till_next_block ino pg (el_buf el)) (\<lambda>pg. read_loop n ino it (el_buf el) pg))
     else ret (bytes_written pg)) (s, target, ctx))"

definition ext2_read :: "Ext2Fs \<Rightarrow> InodePlus \<Rightarrow> nat read_io" where
  "ext2_read fs ip = (\<lambda>(s, target, ctx).
    (let ino = inode ip; bs = block_size (super_block s) in
     if is_directory ino then fail IsDirectory
     else if min (length target) (unat (i_size ino) - unat (head ctx)) = 0 then ret 0
     else if bs = 0 then crash
     else
       bind (lift_res (create_block_iterator fs (super_block s) ino (uint (ip_group_number ip)))) (\<lambda>it.
       read_loop (blocks_limit it - cur_idx it) ino it (get_buffer (buffer_size fs))
         \<lparr> pg_block_idx = ucast (head ctx) div bs, pg_offset = ucast (head ctx) mod bs,
           bytes_written = 0 \<rparr>)) (s, target, ctx))"

section \<open>Writing\<close>

type_synonym 'a write_io = "(ext2 \<times> InodePlus \<times> HalIOCtx, HalFsIOErr, 'a) st"

definition update_inode :: "(Inode \<Rightarrow> Inode) \<Rightarrow> InodePlus \<Rightarrow> InodePlus" where
  "update_inode f ip = ip \<lparr> inode := f (inode ip) \<rparr>"

fun copy_in :: "bytes \<Rightarrow> nat list \<Rightarrow> bytes \<Rightarrow> Progress \<Rightarrow> (bytes \<times> Progress) write_io" where
  "copy_in input [] buf pg c = (Ok (buf, pg), c)"
| "copy_in input (i # rest) buf pg (s, ip, ctx) =
    (let ip = (if i_size (inode ip) \<le> ucast (head ctx)
         then update_inode (\<lambda>ino. ino \<lparr> i_size := i_size ino + 1 \<rparr>) ip else ip) in
     if length input \<le> bytes_written pg then (Ok (buf, pg), s, ip, ctx)
     else if i < length buf then
       copy_in input rest (buf[i := input ! bytes_written pg])
         (pg \<lparr> bytes_written := bytes_written pg + 1 \<rparr>) (s, ip, ctx \<lparr> head := head ctx + 1 \<rparr>)
     else (Panic, s, ip, ctx))"

definition write_till_next_block :: "Ext2Fs \<Rightarrow> bytes \<Rightarrow> u32 \<Rightarrow> Progress \<Rightarrow> Progress write_io" where
  "write_till_next_block fs input block_idx pg =
     bind (if pg_offset pg \<noteq> 0 then on_fs (read_block (io_handler fs) (replicate BLOCK_SIZE 0) block_idx)
       else ret (replicate BLOCK_SIZE 0)) (\<lambda>buf.
     bind (\<lambda>(s, c). copy_in input [unat (pg_offset pg)..<unat (block_size (super_block s))] buf pg (s, c))
     (\<lambda>(buf, pg).
     bind (on_fs (write_block (io_handler fs) buf block_idx)) (\<lambda>_.
     ret (pg \<lparr> pg_block_idx := pg_block_idx pg + 1, pg_offset := 0 \<rparr>))))"

text \<open>Every turn of the loop of \<^verbatim>\<open>write\<close> consumes a byte, so as many turns as bytes suffice.\<close>

fun write_loop :: "nat \<Rightarrow> Ext2Fs \<Rightarrow> bytes \<Rightarrow> InodeBlockIterator \<Rightarrow> Progress \<Rightarrow> nat \<Rightarrow>
    (InodeBlockIterator \<times> Progress \<times> nat) write_io" where
  "write_loop 0 fs input it pg count = ret (it, pg, count)"
| "write_loop (Suc n) fs input it pg count =
    (if bytes_written pg < length input then
       bind (on_fs (next_set it)) (\<lambda>(res, it).
       bind (write_till_next_block fs input (set_block_idx res) pg) (\<lambda>pg.
       write_loop n fs input it pg (count + length (allocated_blocks res))))
     else ret (it, pg, count))"

text \<open>\<^verbatim>\<open>Rtc::new().read_datetime().expect(..)\<close>\<close>

definition posix_now :: "u32 fs_io" where
  "posix_now = bind read_clock (\<lambda>t. case t of None \<Rightarrow> crash | Some dt \<Rightarrow> ret (rtc_to_posix dt))"

definition finish_write :: "Ext2Fs \<Rightarrow> InodeBlockIterator \<Rightarrow> nat \<Rightarrow> unit write_io" where
  "finish_write fs it count =
     bind (on_fs posix_now) (\<lambda>time.
     bind (modify (\<lambda>(s, ip, ctx). (s, update_inode (\<lambda>ino. ino \<lparr> i_mtime := time, i_block := get_blocks_array it,
         i_blocks := i_blocks ino + word_of_nat count * block_size (super_block s) \<rparr>) ip, ctx))) (\<lambda>_.
     bind (\<lambda>(s, ip, ctx). on_fs (write_inode fs ip) (s, ip, ctx)) (\<lambda>_.
     on_fs (write_newly_allocated_blocks (block_allocator fs) (get_buffer (buffer_size fs))))))"

definition ext2_write :: "Ext2Fs \<Rightarrow> bytes \<Rightarrow> nat write_io" where
  "ext2_write fs input = (\<lambda>(s, ip, ctx).
    (let ino = inode ip; bs = block_size (super_block s) in
     if is_directory ino then fail IsDirectory
     else if bs = 0 then crash
     else
       let pg = \<lparr> pg_block_idx = ucast (head ctx) div bs, pg_offset = ucast (head ctx) mod bs,
         bytes_written = 0 \<rparr> in
       bind (lift_res (create_block_iterator fs (super_block s) ino (uint (ip_group_number ip)))) (\<lambda>it.
       bind (write_loop (length input) fs input (iter_skip (unat (pg_block_idx pg)) it) pg 0) (\<lambda>(it, pg, count).
       bind (finish_write fs it count) (\<lambda>_. ret (bytes_written pg))))) (s, ip, ctx))"

section \<open>What a read returns\<close>

text \<open>The bytes of a file of 1 KiB blocks.\<close>

definition file_byte :: "(int \<Rightarrow> u8) \<Rightarrow> u32 list \<Rightarrow> nat \<Rightarrow> u8" where
  "file_byte f blocks p = block_content f (file_block f blocks (p div 1024)) ! (p mod 1024)"

definition file_range :: "(int \<Rightarrow> u8) \<Rightarrow> u32 list \<Rightarrow> nat \<Rightarrow> nat \<Rightarrow> bytes" where
  "file_range f blocks p n = map (file_byte f blocks) [p..<p + n]"

lemma length_file_range [simp]: "length (file_range f bl p n) = n"
  by (simp add: file_range_def)

lemma file_range_0 [simp]: "file_range f bl p 0 = []"
  by (simp add: file_range_def)

lemma file_range_append: "file_range f bl p m @ file_range f bl (p + m) n = file_range f bl p (m + n)"
  using upt_add_eq_append [of p "p + m" n] by (simp add: file_range_def add.assoc flip: map_append)

lemma file_range_block:
  assumes "a + m \<le> 1024"
  shows "sub_list (block_content f (file_block f bl j)) a (a + m) = file_range f bl (j * 1024 + a) m"
  using assms
  by (intro nth_equalityI) (simp_all add: file_range_def file_byte_def sub_list_def add.assoc)

lemma splice_splice:
  assumes "w + length xs + length ys \<le> length t"
  shows "splice_at (splice_at t w xs) (w + length xs) ys = splice_at t w (xs @ ys)"
  using assms by (simp add: splice_at_def min_absorb1 ac_simps)

lemma splice_update:
  "w < length t \<Longrightarrow> w + Suc (length xs) \<le> length t \<Longrightarrow>
   splice_at (t[w := x]) (Suc w) xs = splice_at t w (x # xs)"
  by (simp add: splice_at_def take_Suc_conv_app_nth)

lemma splice_Nil [simp]: "splice_at t w [] = t"
  by (simp add: splice_at_def)

lemma head_u32: "unat (head ctx) < 2 ^ 32 \<Longrightarrow> unat (ucast (head ctx) :: u32) = unat (head ctx)"
  by (simp add: unsigned_ucast_eq take_bit_nat_eq_self)

lemma unat_inc: "unat (h :: u64) < 2 ^ 32 \<Longrightarrow> unat (h + 1) = unat h + 1"
  by (simp add: unat_plus_simple [THEN iffD1] word_le_nat_alt unat_word_ariths)

lemma copy_out_spec:
  assumes "length buf = 1024" "a \<le> 1024" "bytes_written pg \<le> length target"
    and "unat (head ctx) \<le> unat (i_size ino)" "unat (head ctx) < 2 ^ 32"
    and "m = min (1024 - a) (min (length target - bytes_written pg) (unat (i_size ino) - unat (head ctx)))"
  shows "copy_out ino buf [a..<1024] pg (s, target, ctx) =
    (Ok (pg \<lparr> bytes_written := bytes_written pg + m \<rparr>, m = 1024 - a), s,
     splice_at target (bytes_written pg) (sub_list buf a (a + m)), ctx \<lparr> head := head ctx + of_nat m \<rparr>)"
  using assms
proof (induction "1024 - a" arbitrary: a pg target ctx m)
  case 0
  then show ?case by (simp add: sub_list_def)
next
  case (Suc d)
  then have a: "a < 1024" by linarith
  then have upt: "[a..<1024] = a # [Suc a..<1024]" by (rule upt_conv_Cons)
  let ?w = "bytes_written pg"
  show ?case
  proof (cases "unat (i_size ino) \<le> unat (head ctx) \<or> length target \<le> ?w")
    case True
    then have "m = 0" using Suc.prems(6) by auto
    then show ?thesis
      using True Suc.prems upt by (auto simp: word_le_nat_alt head_u32 sub_list_def)
  next
    case False
    let ?pg = "pg \<lparr> bytes_written := ?w + 1 \<rparr>" and ?ctx = "ctx \<lparr> head := head ctx + 1 \<rparr>"
    let ?t = "target[?w := buf ! a]"
    have h: "unat (head ?ctx) = unat (head ctx) + 1" using Suc.prems(5) by (simp add: unat_inc)
    define m' where "m' = m - 1"
    have m: "m = Suc m'" "m' = min (1024 - Suc a) (min (length ?t - bytes_written ?pg) (unat (i_size ino) - unat (head ?ctx)))"
      using False a Suc.prems(6) h by (auto simp: m'_def min_def)
    have "m' \<le> length ?t - bytes_written ?pg" unfolding m(2) by (rule min.coboundedI2 [OF min.cobounded1])
    then have le: "m' \<le> length target - Suc ?w" by simp
    have lt: "unat (head ?ctx) < 2 ^ 32" using False h unsigned_less [of "i_size ino", where ?'a = nat] by simp
    have "copy_out ino buf [Suc a..<1024] ?pg (s, ?t, ?ctx) = (Ok (?pg \<lparr> bytes_written := bytes_written ?pg + m' \<rparr>, m' = 1024 - Suc a), s,
        splice_at ?t (bytes_written ?pg) (sub_list buf (Suc a) (Suc a + m')), ?ctx \<lparr> head := head ?ctx + of_nat m' \<rparr>)"
    proof (rule Suc.hyps(1))
      show "d = 1024 - Suc a" using Suc.hyps(2) by linarith
      show "bytes_written ?pg \<le> length ?t" "unat (head ?ctx) \<le> unat (i_size ino)" using False h by simp_all
    qed (use Suc.prems(1) a lt m(2) in simp_all)
    moreover have "sub_list buf a (a + m) = buf ! a # sub_list buf (Suc a) (Suc a + m')"
      using a Suc.prems(1) m(1) by (simp add: sub_list_def flip: Cons_nth_drop_Suc)
    moreover have "splice_at ?t (Suc ?w) (sub_list buf (Suc a) (Suc a + m')) =
        splice_at target ?w (buf ! a # sub_list buf (Suc a) (Suc a + m'))"
      using False le by (intro splice_update) (auto simp: sub_list_def min_def)
    moreover have "\<not> i_size ino \<le> ucast (head ctx)"
      using False head_u32 [OF Suc.prems(5)] by (simp add: word_le_nat_alt)
    ultimately show ?thesis
      using False a upt Suc.prems(1) m(1) by (auto simp: algebra_simps)
  qed
qed

lemma read_loop_stop:
  assumes "unat (head ctx) < 2 ^ 32" "unat (i_size ino) \<le> unat (head ctx) \<or> length target \<le> bytes_written pg"
  shows "read_loop n ino it b pg (s, target, ctx) = (Ok (bytes_written pg), s, target, ctx)"
  using assms by (cases n) (auto simp: word_less_nat_alt head_u32)

lemma read_till_next_block_spec:
  assumes "block_size (super_block s) = 1024" "unat (pg_offset pg) < 1024" "length buf = 1024"
    and "bytes_written pg \<le> length target" "unat (head ctx) \<le> unat (i_size ino)" "unat (head ctx) < 2 ^ 32"
    and "m = min (1024 - unat (pg_offset pg)) (min (length target - bytes_written pg) (unat (i_size ino) - unat (head ctx)))"
  shows "\<exists>pg'. read_till_next_block ino pg buf (s, target, ctx) = (Ok pg', s,
      splice_at target (bytes_written pg) (sub_list buf (unat (pg_offset pg)) (unat (pg_offset pg) + m)),
      ctx \<lparr> head := head ctx + of_nat m \<rparr>) \<and>
    bytes_written pg' = bytes_written pg + m \<and> (m = 1024 - unat (pg_offset pg) \<longrightarrow> pg_offset pg' = 0)"
  using copy_out_spec [OF assms(3) _ assms(4-7), of s] assms(1,2)
  by (auto simp: read_till_next_block_def bind_def)

lemma iter_next_ok:
  fixes it s
  defines "f \<equiv> part (it_io_handler it) s"
  defines "b \<equiv> file_block f (it_blocks it) (cur_idx it)"
  assumes "part_ok (it_io_handler it) s" "iter_ok it f" "length buf = 1024"
    and "cur_idx it < blocks_limit it" "blocks_limit it \<le> 13"
  shows "\<exists>idx it'. iter_next it buf s = (Ok (\<lparr> el_buf = block_content f b, is_terminated = False, el_block_idx = idx \<rparr>,
      it' \<lparr> cur_idx := Suc (cur_idx it) \<rparr>), s) \<and>
    iter_ok it' f \<and> same_file it it' \<and> (b \<noteq> 0 \<longrightarrow> idx = b)"
  using iter_get_ok [of it s buf] assms
  by (auto simp: iter_next_def bind_def same_file_def)

lemma advance_head:
  assumes "unat (head ctx) + m < 2 ^ 32"
  shows "unat (head (ctx \<lparr> head := head ctx + of_nat m \<rparr>)) = unat (head ctx) + m"
proof -
  have "unat (of_nat m :: u64) = m" using assms by (simp add: unat_of_nat)
  then show ?thesis using assms by (simp add: unat_word_ariths)
qed

lemma iter_ok_advance: "iter_ok it f \<Longrightarrow> iter_ok (it \<lparr> cur_idx := k \<rparr>) f"
  by (simp add: iter_ok_def)

lemma read_loop_spec:
  assumes "part_ok (it_io_handler it) s" "f = part (it_io_handler it) s" "iter_ok it f"
    and "block_size (super_block s) = 1024" "length b = 1024"
    and "blocks_limit it \<le> 13" "n = blocks_limit it - cur_idx it"
    and "unat (pg_offset pg) < 1024" "bytes_written pg \<le> length target"
    and "unat (head ctx) \<le> unat (i_size ino)"
    and "R = min (length target - bytes_written pg) (unat (i_size ino) - unat (head ctx))"
    and "cur_idx it * 1024 + unat (pg_offset pg) + R \<le> blocks_limit it * 1024"
  shows "read_loop n ino it b pg (s, target, ctx) = (Ok (bytes_written pg + R), s,
    splice_at target (bytes_written pg) (file_range f (it_blocks it) (cur_idx it * 1024 + unat (pg_offset pg)) R),
    ctx \<lparr> head := head ctx + of_nat R \<rparr>)"
  using assms
proof (induction n arbitrary: it b pg target ctx R)
  case 0
  then have "R = 0" by simp
  then show ?case by (simp add: file_range_def)
next
  case (Suc n)
  let ?o = "unat (pg_offset pg)" and ?w = "bytes_written pg" and ?B = "block_content f (file_block f (it_blocks it) (cur_idx it))"
  have size: "unat (i_size ino) < 2 ^ 32" using unsigned_less [of "i_size ino", where ?'a = nat] by simp
  then have h: "unat (head ctx) < 2 ^ 32" using Suc.prems(10) by linarith
  show ?case
  proof (cases "R = 0")
    case True
    then have "unat (i_size ino) \<le> unat (head ctx) \<or> length target \<le> ?w" using Suc.prems(11) by linarith
    from read_loop_stop [OF h this, of "Suc n"] show ?thesis using True by (simp add: file_range_def del: read_loop.simps)
  next
    case False
    define m where "m = min (1024 - ?o) R"
    have m: "m = min (1024 - ?o) (min (length target - ?w) (unat (i_size ino) - unat (head ctx)))"
      using Suc.prems(11) by (simp add: m_def)
    have "cur_idx it < blocks_limit it" using Suc.prems(7) by linarith
    then obtain idx it' where nx: "iter_next it b s = (Ok (\<lparr> el_buf = ?B, is_terminated = False, el_block_idx = idx \<rparr>,
        it' \<lparr> cur_idx := Suc (cur_idx it) \<rparr>), s)" "iter_ok it' f" "same_file it it'"
      using iter_next_ok [OF Suc.prems(1) _ Suc.prems(5) _ Suc.prems(6)] Suc.prems(2,3) by auto
    obtain pg' where rd: "read_till_next_block ino pg ?B (s, target, ctx) = (Ok pg', s,
        splice_at target ?w (sub_list ?B ?o (?o + m)), ctx \<lparr> head := head ctx + of_nat m \<rparr>)"
        "bytes_written pg' = ?w + m" "m = 1024 - ?o \<longrightarrow> pg_offset pg' = 0"
      using read_till_next_block_spec [OF Suc.prems(4,8) length_block_content Suc.prems(9,10) h m] by blast
    let ?t = "splice_at target ?w (sub_list ?B ?o (?o + m))" and ?ctx = "ctx \<lparr> head := head ctx + of_nat m \<rparr>"
    let ?it = "it' \<lparr> cur_idx := Suc (cur_idx it) \<rparr>"
    have step: "read_loop (Suc n) ino it b pg (s, target, ctx) = read_loop n ino ?it ?B pg' (s, ?t, ?ctx)"
      using False Suc.prems(11) nx(1) rd(1) head_u32 [OF h]
      by (simp add: bind_def on_fs_def word_less_nat_alt)
    have le: "m \<le> R" "?o + m \<le> 1024" using Suc.prems(8) by (auto simp: m_def)
    have range: "sub_list ?B ?o (?o + m) = file_range f (it_blocks it) (cur_idx it * 1024 + ?o) m"
      by (rule file_range_block [OF le(2)])
    have wR: "?w + R \<le> length target" using Suc.prems(9,11) by linarith
    then have "?w + m \<le> length target" using le(1) by linarith
    then have lt: "length ?t = length target" by (simp add: range)
    have h': "unat (head ?ctx) = unat (head ctx) + m" using le(1) Suc.prems(10,11) size by (intro advance_head) linarith
    show ?thesis
    proof (cases "m = 1024 - ?o")
      case True
      have it: "it_io_handler ?it = it_io_handler it" "it_blocks ?it = it_blocks it" "blocks_limit ?it = blocks_limit it"
        using nx(3) by (simp_all add: same_file_def)
      have "read_loop n ino ?it ?B pg' (s, ?t, ?ctx) = (Ok (bytes_written pg' + (R - m)), s,
          splice_at ?t (bytes_written pg') (file_range f (it_blocks ?it) (cur_idx ?it * 1024 + unat (pg_offset pg')) (R - m)),
          ?ctx \<lparr> head := head ?ctx + of_nat (R - m) \<rparr>)"
      proof (rule Suc.IH)
        show "iter_ok ?it f" by (rule iter_ok_advance [OF nx(2)])
        show "n = blocks_limit ?it - cur_idx ?it" using Suc.prems(7) it(3) by simp
        show "bytes_written pg' \<le> length ?t" using lt rd(2) \<open>?w + m \<le> length target\<close> by simp
        show "unat (head ?ctx) \<le> unat (i_size ino)" using h' le(1) Suc.prems(10,11) by linarith
        show "R - m = min (length ?t - bytes_written pg') (unat (i_size ino) - unat (head ?ctx))"
          using h' lt rd(2) Suc.prems(11) by linarith
        show "cur_idx ?it * 1024 + unat (pg_offset pg') + (R - m) \<le> blocks_limit ?it * 1024"
          using Suc.prems(8,12) True rd(3) it(3) le(1) by simp
      qed (use Suc.prems(1,2,4,6) it rd(3) True in simp_all)
      moreover have pos: "cur_idx ?it * 1024 + unat (pg_offset pg') = cur_idx it * 1024 + ?o + m"
        using rd(3) True Suc.prems(8) by simp
      have "splice_at ?t (bytes_written pg') (file_range f (it_blocks ?it) (cur_idx ?it * 1024 + unat (pg_offset pg')) (R - m)) =
          splice_at target ?w (file_range f (it_blocks it) (cur_idx it * 1024 + ?o) R)"
        unfolding pos it(2) rd(2) range
        using wR le(1) splice_splice [of ?w "file_range f (it_blocks it) (cur_idx it * 1024 + ?o) m"
            "file_range f (it_blocks it) (cur_idx it * 1024 + ?o + m) (R - m)" target]
        by (simp add: file_range_append)
      moreover have "?ctx \<lparr> head := head ?ctx + of_nat (R - m) \<rparr> = ctx \<lparr> head := head ctx + of_nat R \<rparr>"
        using le(1) by (simp add: of_nat_diff)
      ultimately show ?thesis unfolding step using rd(2) le(1) by simp
    next
      case False
      then have "m = R" by (simp add: m_def)
      then have "unat (i_size ino) \<le> unat (head ?ctx) \<or> length ?t \<le> bytes_written pg'"
        using h' lt rd(2) Suc.prems(11) by linarith
      moreover have "unat (head ?ctx) < 2 ^ 32" using h' le(1) Suc.prems(10,11) size by linarith
      ultimately show ?thesis using \<open>m = R\<close> rd(2) range by (simp add: step read_loop_stop del: read_loop.simps)
    qed
  qed
qed

lemma mod_1024_eq_0: "(w :: u32) mod 1024 = 0 \<longleftrightarrow> unat w mod 1024 = 0"
proof -
  have "unat (w mod 1024) = unat w mod 1024" by (simp add: unat_mod)
  then show ?thesis using unat_eq_zero [of "w mod 1024"] by simp
qed

lemma ceil_1024:
  fixes x :: nat
  shows "(x + 1023) div 1024 = x div 1024 + (if x mod 1024 = 0 then 0 else 1)"
    and "x \<le> (x + 1023) div 1024 * 1024"
proof -
  have "x + 1023 = (x mod 1024 + 1023) + x div 1024 * 1024" using div_mult_mod_eq [of x 1024] by linarith
  then have "(x + 1023) div 1024 = ((x mod 1024 + 1023) + x div 1024 * 1024) div 1024" by (rule arg_cong)
  then have "(x + 1023) div 1024 = x div 1024 + (x mod 1024 + 1023) div 1024"
    by (subst (asm) div_mult_self1) simp_all
  moreover have "(x mod 1024 + 1023) div 1024 = (if x mod 1024 = 0 then 0 else 1)"
    using mod_less_divisor [of 1024 x] by (auto intro: div_nat_eqI)
  ultimately show "(x + 1023) div 1024 = x div 1024 + (if x mod 1024 = 0 then 0 else 1)" by (simp only:)
  show "x \<le> (x + 1023) div 1024 * 1024"
    using div_mult_mod_eq [of "x + 1023" 1024] mod_less_divisor [of 1024 "x + 1023"] by linarith
qed

lemma create_block_iterator_ok:
  assumes "wf_fs fs" "fs_block_size fs = 1024" "block_size sb = 1024" "length (i_block ino) = 15"
  shows "\<exists>it. create_block_iterator fs sb ino gr = (Ok it :: (HalFsIOErr, InodeBlockIterator) res) \<and> iter_ok it f \<and> it_blocks it = i_block ino \<and>
    it_io_handler it = io_handler fs \<and> it_block_allocator it = block_allocator fs \<and> it_group_number it = gr \<and>
    cur_idx it = 0 \<and> blocks_limit it = (unat (i_size ino) + 1023) div 1024"
proof -
  let ?q = "i_size ino div 1024 + (if i_size ino mod 1024 = 0 then 0 else 1)"
  have "unat ?q = (unat (i_size ino) + 1023) div 1024"
  proof (cases "i_size ino mod 1024 = 0")
    case True
    then show ?thesis by (simp add: ceil_1024(1) unat_div flip: mod_1024_eq_0)
  next
    case False
    have "unat (i_size ino) div 1024 < 2 ^ 22"
      using unsigned_less [of "i_size ino", where ?'a = nat] by simp
    then show ?thesis using False by (simp add: ceil_1024(1) unat_word_ariths unat_div flip: mod_1024_eq_0)
  qed
  then show ?thesis
    using assms by (auto simp: create_block_iterator_def div_ceil_u32_def iter_ok_def)
qed

lemma ext2_read_spec:
  fixes fs ip s target ctx
  defines "f \<equiv> part (io_handler fs) s" and "h \<equiv> unat (head ctx)" and "len \<equiv> unat (i_size (inode ip))"
  defines "n \<equiv> min (length target) (len - h)"
  assumes "wf_fs fs" "fs_block_size fs = 1024" "block_size (super_block s) = 1024" "part_ok (io_handler fs) s"
    and "\<not> is_directory (inode ip)" "wf_inode (inode ip)" "len \<le> 13312" "h \<le> len"
  shows "ext2_read fs ip (s, target, ctx) = (Ok n, s,
    file_range f (i_block (inode ip)) (h mod 1024) n @ drop n target, ctx \<lparr> head := head ctx + of_nat n \<rparr>)"
proof (cases "n = 0")
  case True
  then show ?thesis using assms(9) by (simp add: ext2_read_def n_def len_def h_def Let_def file_range_def)
next
  case False
  let ?ino = "inode ip"
  obtain it where it: "create_block_iterator fs (super_block s) ?ino (uint (ip_group_number ip)) =
        (Ok it :: (HalFsIOErr, InodeBlockIterator) res)" "iter_ok it f"
      "it_blocks it = i_block ?ino" "it_io_handler it = io_handler fs" "cur_idx it = 0"
      "blocks_limit it = (len + 1023) div 1024"
    using create_block_iterator_ok [OF assms(5-7), of ?ino "uint (ip_group_number ip)" f] assms(10)
    by (auto simp: wf_inode_def len_def)
  let ?pg = "\<lparr> pg_block_idx = ucast (head ctx) div 1024, pg_offset = ucast (head ctx) mod 1024, bytes_written = 0 \<rparr>"
  have "h < 2 ^ 32" using assms(11,12) by simp
  then have off: "unat (pg_offset ?pg) = h mod 1024" using head_u32 [of ctx] by (simp add: h_def unat_mod)
  have "h mod 1024 + n \<le> len" using assms(12) mod_less_eq_dividend [of h 1024] by (simp add: n_def min_def) linarith
  moreover have "len \<le> (len + 1023) div 1024 * 1024" by (rule ceil_1024(2))
  ultimately have fits: "h mod 1024 + n \<le> (len + 1023) div 1024 * 1024" by linarith
  have "(len + 1023) div 1024 \<le> 13" using assms(11) by linarith
  then have "read_loop (blocks_limit it - cur_idx it) ?ino it (get_buffer 1024) ?pg (s, target, ctx) =
      (Ok (bytes_written ?pg + n), s, splice_at target (bytes_written ?pg)
        (file_range f (it_blocks it) (cur_idx it * 1024 + unat (pg_offset ?pg)) n), ctx \<lparr> head := head ctx + of_nat n \<rparr>)"
    using assms(7,8,12) it off fits
    by (intro read_loop_spec) (simp_all add: f_def get_buffer_def n_def len_def h_def)
  moreover have "buffer_size fs = 1024" using assms(5,6) by (simp add: wf_fs_def)
  ultimately show ?thesis
    using False assms(7,9) it off
    by (simp add: ext2_read_def Let_def bind_def n_def len_def h_def splice_at_def)
qed

section \<open>What a write does to a block\<close>

text \<open>The size of the file after \<open>m\<close> bytes were written at position \<open>h\<close>; the flag tells that the
  loop saw the end of the input before the end of the block.\<close>

definition grown :: "nat \<Rightarrow> nat \<Rightarrow> nat \<Rightarrow> bool \<Rightarrow> nat" where
  "grown len h m stopped =
    (let len = max len (h + m) in if stopped \<and> len = h + m then len + 1 else len)"

definition set_size :: "nat \<Rightarrow> InodePlus \<Rightarrow> InodePlus" where
  "set_size v ip = update_inode (\<lambda>i. i \<lparr> i_size := of_nat v \<rparr>) ip"

lemma set_size_simps [simp]:
  "set_size v (set_size u ip) = set_size v ip" "set_size (unat (i_size (inode ip))) ip = ip"
  "i_size (inode (set_size v ip)) = of_nat v"
  by (simp_all add: set_size_def update_inode_def)

lemma grown_step: "grown (max z (Suc h)) (Suc h) m st = grown z h (Suc m) st"
  by (simp add: grown_def max.assoc Let_def)

lemma copy_in_grow:
  assumes "unat (head ctx) \<le> unat (i_size (inode ip))" "unat (head ctx) < 2 ^ 31"
  shows "(if i_size (inode ip) \<le> ucast (head ctx) then update_inode (\<lambda>ino. ino \<lparr> i_size := i_size ino + 1 \<rparr>) ip else ip) =
    set_size (max (unat (i_size (inode ip))) (Suc (unat (head ctx)))) ip"
proof (cases "unat (i_size (inode ip)) = unat (head ctx)")
  case True
  then have "i_size (inode ip) \<le> ucast (head ctx)"
    using head_u32 [of ctx] assms by (simp add: word_le_nat_alt)
  moreover have "i_size (inode ip) + 1 = of_nat (Suc (unat (head ctx)))"
    using True by (simp flip: True)
  ultimately show ?thesis using True by (simp add: set_size_def update_inode_def max_def)
next
  case False
  then have "\<not> i_size (inode ip) \<le> ucast (head ctx)"
    using head_u32 [of ctx] assms by (simp add: word_le_nat_alt)
  moreover have "max (unat (i_size (inode ip))) (Suc (unat (head ctx))) = unat (i_size (inode ip))"
    using False assms(1) by (simp add: max_def)
  ultimately show ?thesis by simp
qed

lemma copy_in_spec:
  assumes "length buf = 1024" "a \<le> 1024" "bytes_written pg \<le> length input"
    and "unat (head ctx) \<le> unat (i_size (inode ip))" "unat (head ctx) + (1024 - a) < 2 ^ 31"
    and "unat (i_size (inode ip)) < 2 ^ 31"
    and "m = min (1024 - a) (length input - bytes_written pg)"
  shows "copy_in input [a..<1024] buf pg (s, ip, ctx) =
    (Ok (splice_at buf a (sub_list input (bytes_written pg) (bytes_written pg + m)),
         pg \<lparr> bytes_written := bytes_written pg + m \<rparr>), s,
     set_size (grown (unat (i_size (inode ip))) (unat (head ctx)) m (m < 1024 - a)) ip,
     ctx \<lparr> head := head ctx + of_nat m \<rparr>)"
  using assms
proof (induction "1024 - a" arbitrary: a buf pg ip ctx m)
  case 0
  then have "m = 0" "a = 1024" by simp_all
  then show ?case using 0 by (simp add: sub_list_def grown_def max_def)
next
  case (Suc d)
  then have a: "a < 1024" by linarith
  then have upt: "[a..<1024] = a # [Suc a..<1024]" by (rule upt_conv_Cons)
  let ?w = "bytes_written pg" and ?h = "unat (head ctx)" and ?z = "unat (i_size (inode ip))"
  have h: "?h < 2 ^ 31" using Suc.prems(5) by linarith
  note g = copy_in_grow [OF Suc.prems(4) h]
  show ?case
  proof (cases "length input \<le> ?w")
    case True
    then have "m = 0" using Suc.prems(7) by simp
    moreover have "grown ?z ?h 0 True = max ?z (Suc ?h)" using Suc.prems(4) by (auto simp: grown_def max_def Let_def)
    ultimately show ?thesis using True a by (simp add: upt g sub_list_def Let_def)
  next
    case False
    let ?ip = "set_size (max ?z (Suc ?h)) ip" and ?ctx = "ctx \<lparr> head := head ctx + 1 \<rparr>"
    let ?pg = "pg \<lparr> bytes_written := ?w + 1 \<rparr>" and ?buf = "buf[a := input ! ?w]"
    define m' where "m' = m - 1"
    have m: "m = Suc m'" "m' = min (1024 - Suc a) (length input - bytes_written ?pg)"
      using False a Suc.prems(7) by (auto simp: m'_def min_def)
    have h': "unat (head ?ctx) = Suc ?h" using unat_inc [of "head ctx"] h by simp
    have z': "unat (i_size (inode ?ip)) = max ?z (Suc ?h)"
      using Suc.prems(6) h by (simp add: unat_of_nat max_def)
    have "m' < 1024 - Suc a \<longleftrightarrow> m < 1024 - a" using m(1) by linarith
    then have gr: "grown (unat (i_size (inode ?ip))) (unat (head ?ctx)) m' (m' < 1024 - Suc a) = grown ?z ?h m (m < 1024 - a)"
      by (simp only: h' z' grown_step m(1))
    have rec: "copy_in input [Suc a..<1024] ?buf ?pg (s, ?ip, ?ctx) =
        (Ok (splice_at ?buf (Suc a) (sub_list input (bytes_written ?pg) (bytes_written ?pg + m')),
           ?pg \<lparr> bytes_written := bytes_written ?pg + m' \<rparr>), s,
         set_size (grown (unat (i_size (inode ?ip))) (unat (head ?ctx)) m' (m' < 1024 - Suc a)) ?ip,
         ?ctx \<lparr> head := head ?ctx + of_nat m' \<rparr>)"
    proof (rule Suc.hyps(1))
      show "d = 1024 - Suc a" using Suc.hyps(2) by linarith
      show "unat (head ?ctx) + (1024 - Suc a) < 2 ^ 31" using h' Suc.prems(5) a by linarith
      show "unat (i_size (inode ?ip)) < 2 ^ 31" "unat (head ?ctx) \<le> unat (i_size (inode ?ip))"
        using h' z' Suc.prems(5,6) a by simp_all
      show "m' = min (1024 - Suc a) (length input - bytes_written ?pg)" by (rule m(2))
    qed (use Suc.prems(1) a False in simp_all)
    have "sub_list input ?w (?w + m) = input ! ?w # sub_list input (Suc ?w) (Suc ?w + m')"
      using False m(1) by (simp add: sub_list_def flip: Cons_nth_drop_Suc)
    moreover have "splice_at ?buf (Suc a) (sub_list input (Suc ?w) (Suc ?w + m')) =
        splice_at buf a (input ! ?w # sub_list input (Suc ?w) (Suc ?w + m'))"
      using a Suc.prems(1) m(2) by (intro splice_update) (auto simp: sub_list_def min_def)
    ultimately show ?thesis
      using False a Suc.prems(1) m(1) rec [unfolded gr] by (simp add: upt g Let_def algebra_simps)
  qed
qed

lemma write_block_1024:
  assumes "part_ok io s" "io_block_size io = 1024" "length buf = 1024"
  shows "write_block io buf b s = (Ok (), set_part io (patch (part io s) (uint b * 1024) buf) s)"
proof -
  note l = block_idx_to_lba_eq [OF sane_1024, of b]
  have "in_reach io (block_idx_to_lba 1024 b)"
    using l(2,3) assms(1) by (auto simp: in_reach_def part_ok_def)
  moreover have "512 * block_idx_to_lba 1024 b = uint b * 1024" using l(1) by simp
  ultimately show ?thesis
    using assms by (simp add: write_block_eq partition.wr_ok mult.commute)
qed

section \<open>Properties\<close>

text \<open>Reading a regular file of 1 KiB blocks at a position in its first block fills the buffer
  with the bytes of the file from that position on, as many as the buffer and the file have, leaves
  the rest of the buffer alone, advances the position by that number and does not touch the disk.\<close>

theorem ext2_read_returns_file:
  fixes fs ip s target ctx
  defines "f \<equiv> part (io_handler fs) s" and "h \<equiv> unat (head ctx)" and "len \<equiv> unat (i_size (inode ip))"
  defines "n \<equiv> min (length target) (len - h)"
  assumes "wf_fs fs" "fs_block_size fs = 1024" "block_size (super_block s) = 1024" "part_ok (io_handler fs) s"
    and "\<not> is_directory (inode ip)" "wf_inode (inode ip)" "len \<le> 13312" "h \<le> len" "h < 1024"
  shows "ext2_read fs ip (s, target, ctx) = (Ok n, s,
    file_range f (i_block (inode ip)) h n @ drop n target, ctx \<lparr> head := head ctx + of_nat n \<rparr>)"
  using ext2_read_spec [of fs s ip ctx target] assms by simp

definition sample_file :: InodePlus where
  "sample_file = \<lparr> inode = inode_default \<lparr> i_mode := 0x8000, i_size := 2000,
       i_block := (replicate 15 0)[0 := 20, 1 := 21] \<rparr>,
     absolute_idx = 11, ip_group_number = 0, relative_idx = 10 \<rparr>"

lemma sample_file_fields [simp]: "\<not> is_directory (inode sample_file)" "wf_inode (inode sample_file)"
    "i_size (inode sample_file) = 2000" "block_size sample_super_block = 1024"
    "i_block (inode sample_file) = (replicate 15 0)[0 := 20, 1 := 21]"
  by (simp_all add: sample_file_def is_directory_def inode_file_type_def EXT2_S_IFDIR_def wf_inode_def
      inode_default_def sample_super_block_def block_size_def)

theorem ext2_read_returns_file_witness:
  "ext2_read sample_fs sample_file (sample_ext2 (\<lambda>_. 3), [0, 0], \<lparr> head = 5 \<rparr>) =
    (Ok 2, sample_ext2 (\<lambda>_. 3), [3, 3], \<lparr> head = 7 \<rparr>)"
  using ext2_read_returns_file [of sample_fs "sample_ext2 (\<lambda>_. 3)" sample_file "\<lparr> head = 5 \<rparr>" "[0, 0]"]
  by (simp add: sample_wf_fs file_range_def file_byte_def file_block_def block_content_def block_at_def upt_rec)

text \<open>Past the first block the iterator is not moved to the block of the position: reading at any
  position returns the bytes at that position modulo the block size.\<close>

theorem ext2_read_ignores_block:
  fixes fs ip s target ctx
  defines "f \<equiv> part (io_handler fs) s" and "h \<equiv> unat (head ctx)" and "len \<equiv> unat (i_size (inode ip))"
  defines "n \<equiv> min (length target) (len - h)"
  assumes "wf_fs fs" "fs_block_size fs = 1024" "block_size (super_block s) = 1024" "part_ok (io_handler fs) s"
    and "\<not> is_directory (inode ip)" "wf_inode (inode ip)" "len \<le> 13312" "h \<le> len"
  shows "fst (snd (snd (ext2_read fs ip (s, target, ctx)))) =
    file_range f (i_block (inode ip)) (h mod 1024) n @ drop n target"
  using ext2_read_spec [of fs s ip ctx target] assms by simp

text \<open>Block 20 starts with 1, block 21 with 2; reading at 1024 returns 1.\<close>

theorem ext2_read_ignores_block_witness:
  "fst (snd (snd (ext2_read sample_fs sample_file
    (sample_ext2 (\<lambda>a. if a = 20480 then 1 else if a = 21504 then 2 else 0), [0], \<lparr> head = 1024 \<rparr>)))) = [1]"
  using ext2_read_ignores_block [of sample_fs "sample_ext2 (\<lambda>a. if a = 20480 then 1 else if a = 21504 then 2 else 0)"
      sample_file "\<lparr> head = 1024 \<rparr>" "[0]"]
  by (simp add: sample_wf_fs file_range_def file_byte_def file_block_def block_content_def block_at_def upt_rec)

text \<open>One turn of the write loop on a 1 KiB block puts the next bytes of the input at the offset in
  the block and writes that block only.  At offset 0 the rest of the block is not the old content
  but zeros, even if the input ends before it; and when the input ends inside the block at the end
  of the file, the recorded size is one more than the position reached.\<close>

theorem write_till_next_block_effect:
  fixes fs s ip ctx pg input b
  defines "f \<equiv> part (io_handler fs) s" and "a \<equiv> unat (pg_offset pg)" and "w \<equiv> bytes_written pg"
  defines "m \<equiv> min (1024 - a) (length input - w)"
  assumes "part_ok (io_handler fs) s" "fs_block_size fs = 1024" "block_size (super_block s) = 1024"
    and "a < 1024" "w \<le> length input" "unat (head ctx) \<le> unat (i_size (inode ip))"
    and "unat (head ctx) + 1024 < 2 ^ 31" "unat (i_size (inode ip)) < 2 ^ 31"
  shows "write_till_next_block fs input b pg (s, ip, ctx) =
    (Ok (pg \<lparr> pg_block_idx := pg_block_idx pg + 1, pg_offset := 0, bytes_written := w + m \<rparr>),
     set_part (io_handler fs) (patch f (uint b * 1024)
       (splice_at (if a = 0 then replicate 1024 0 else block_at f b) a (sub_list input w (w + m)))) s,
     set_size (grown (unat (i_size (inode ip))) (unat (head ctx)) m (m < 1024 - a)) ip,
     ctx \<lparr> head := head ctx + of_nat m \<rparr>)"
proof -
  let ?old = "if a = 0 then replicate 1024 0 else block_at f b"
  have a0: "pg_offset pg = 0 \<longleftrightarrow> a = 0" by (simp add: a_def unat_eq_zero)
  have rd: "(if pg_offset pg \<noteq> 0 then on_fs (read_block (io_handler fs) (replicate BLOCK_SIZE 0) b)
      else ret (replicate BLOCK_SIZE 0)) (s, ip, ctx) = (Ok ?old, s, ip, ctx)"
    using read_block_1024 [OF assms(5,6), of "replicate 1024 0" b]
    by (simp add: a0 on_fs_def f_def BLOCK_SIZE_def)
  have cp: "copy_in input [a..<1024] ?old pg (s, ip, ctx) =
      (Ok (splice_at ?old a (sub_list input w (w + m)), pg \<lparr> bytes_written := w + m \<rparr>), s,
       set_size (grown (unat (i_size (inode ip))) (unat (head ctx)) m (m < 1024 - a)) ip,
       ctx \<lparr> head := head ctx + of_nat m \<rparr>)"
    unfolding w_def m_def using assms(8-12) by (intro copy_in_spec) (auto simp: w_def)
  have "length (sub_list input w (w + m)) = m" using assms(9) by (simp add: m_def min_def)
  moreover have "a + m \<le> 1024" using assms(8) by (simp add: m_def)
  ultimately have "length (splice_at ?old a (sub_list input w (w + m))) = 1024" by simp
  note wr = write_block_1024 [OF assms(5,6) this, of b]
  show ?thesis
    unfolding write_till_next_block_def
    by (subst bind_Ok, rule rd) (simp add: bind_def assms(7) cp wr on_fs_def f_def flip: a_def)
qed

theorem write_till_next_block_effect_witness:
  "write_till_next_block sample_fs [9] 20 \<lparr> pg_block_idx = 0, pg_offset = 0, bytes_written = 0 \<rparr>
     (sample_ext2 (\<lambda>_. 3), sample_file, \<lparr> head = 0 \<rparr>) =
    (Ok \<lparr> pg_block_idx = 1, pg_offset = 0, bytes_written = 1 \<rparr>,
     set_part (io_handler sample_fs) (patch (\<lambda>_. 3) 20480 (9 # replicate 1023 0)) (sample_ext2 (\<lambda>_. 3)),
     sample_file, \<lparr> head = 1 \<rparr>)"
  using write_till_next_block_effect [of sample_fs "sample_ext2 (\<lambda>_. 3)"
      "\<lparr> pg_block_idx = 0, pg_offset = 0, bytes_written = 0 \<rparr>" "[9]" "\<lparr> head = 0 \<rparr>" sample_file 20]
    set_size_simps(2) [of sample_file]
  by (simp add: splice_at_def sub_list_def grown_def)

end
