(* ===== verification/Ext2Dir.thy ===== *)
theory Ext2Dir
  imports Ext2File
begin

text \<open>
  Directories: looking a name up, deleting and adding an entry
  (\<^verbatim>\<open>drivers/fs/ext2/open.rs\<close> and \<^verbatim>\<open>dirs.rs\<close>) and listing (\<^verbatim>\<open>dirs.rs\<close> with the
  record \<^verbatim>\<open>DirEnt64\<close> of \<^verbatim>\<open>hal/fs.rs\<close>).

  The loops over the entries of a block follow the record lengths stored in
  it and never end on a length of zero.  They run on fuel that exceeds the
  number of steps a block can hold, and running out of it is the outcome
  \<open>Diverge\<close>; that this is exactly the endless case is proved below.
\<close>

section \<open>Looking a name up\<close>

definition read_dir_entry :: "bytes \<Rightarrow> nat \<Rightarrow> (HalFsIOErr, DirEntry \<times> nat) res" where
  "read_dir_entry buf off =
    (if off \<le> length buf then map_err DeserializationErr (deserialize_dir_entry Little (drop off buf))
     else Panic)"

definition partial_at :: "bytes \<Rightarrow> nat \<Rightarrow> (HalFsIOErr, DirEntryPartial) res" where
  "partial_at buf off = bind_res (slice buf off (off + DIR_ENTRY_PARTIAL_LEN)) (\<lambda>b. Ok (dir_entry_partial_of b))"

definition put_partial :: "bytes \<Rightarrow> nat \<Rightarrow> DirEntryPartial \<Rightarrow> bytes" where
  "put_partial buf off p = splice_at buf off (dir_entry_partial_bytes p)"

text \<open>The buffer without an entry: the first entry of a block is blanked, another one joined to
  the entry before it.\<close>

definition remove_entry :: "bytes \<Rightarrow> DirEntry \<Rightarrow> nat \<Rightarrow> nat \<Rightarrow> (HalFsIOErr, bytes) res" where
  "remove_entry buf entry this_entry_idx last_entry_idx =
    (if this_entry_idx = last_entry_idx then
       bind_res (partial_at buf 0) (\<lambda>p.
       Ok (put_partial buf 0 (p \<lparr> dp_inode := 0, dp_rec_len := record_length entry, dp_name_len := 0 \<rparr>)))
     else
       bind_res (partial_at buf this_entry_idx) (\<lambda>this.
       bind_res (partial_at buf last_entry_idx) (\<lambda>prev.
       Ok (put_partial buf last_entry_idx (prev \<lparr> dp_rec_len := dp_rec_len prev + dp_rec_len this \<rparr>)))))"

fun find_in_block_loop :: "nat \<Rightarrow> Ext2Fs \<Rightarrow> u32 \<Rightarrow> string \<Rightarrow> int \<Rightarrow> bool \<Rightarrow> bool \<Rightarrow> bytes \<Rightarrow>
    u32 \<Rightarrow> nat \<Rightarrow> nat \<Rightarrow> u32 \<Rightarrow> (int option \<times> bool \<times> bytes \<times> u32) fs_io" where
  "find_in_block_loop 0 fs bs name lba delete find_is_empty buf progr this prev remaining = diverge"
| "find_in_block_loop (Suc n) fs bs name lba delete find_is_empty buf progr this prev remaining =
    (if progr < bs then
       bind (lift_res (read_dir_entry buf (unat progr))) (\<lambda>(entry, bytes_read).
       let progr = progr + word_of_nat bytes_read;
           remaining = remaining - word_of_nat bytes_read;
           is_terminated = (remaining = 0)
       in
       if de_name entry = ''.'' \<or> de_name entry = ''..'' then
         (if is_terminated then ret (None, True, buf, remaining)
          else find_in_block_loop n fs bs name lba delete find_is_empty buf progr (this + bytes_read) this remaining)
       else if de_inode entry \<noteq> 0 \<and> name = de_name entry \<and> \<not> find_is_empty then
         bind (if delete then
             bind (lift_res (remove_entry buf entry this prev)) (\<lambda>buf.
             bind (write_sectors (io_handler fs) buf lba) (\<lambda>_. ret buf))
           else ret buf) (\<lambda>buf. ret (Some (uint (de_inode entry)), is_terminated, buf, remaining))
       else if is_terminated then ret (None, False, buf, remaining)
       else find_in_block_loop n fs bs name lba delete find_is_empty buf progr (this + bytes_read) this remaining)
     else ret (None, False, buf, remaining))"

definition find_entry_by_name_in_block :: "Ext2Fs \<Rightarrow> string \<Rightarrow> bytes \<Rightarrow> int \<Rightarrow> bool \<Rightarrow> bool \<Rightarrow> u32 \<Rightarrow>
    (int option \<times> bool \<times> bytes \<times> u32) fs_io" where
  "find_entry_by_name_in_block fs name buf lba delete find_is_empty remaining =
     bind get_st (\<lambda>s. let bs = block_size (super_block s) in
     find_in_block_loop (unat bs + 1) fs bs name lba delete find_is_empty buf 0 0 0 remaining)"

text \<open>The loop over the blocks; after the last one the iterator only reports its end.\<close>

fun find_blocks_loop :: "nat \<Rightarrow> Ext2Fs \<Rightarrow> string \<Rightarrow> bool \<Rightarrow> bool \<Rightarrow> InodeBlockIterator \<Rightarrow> bytes \<Rightarrow> u32 \<Rightarrow>
    int option fs_io" where
  "find_blocks_loop 0 fs name delete find_is_empty it buf remaining = ret None"
| "find_blocks_loop (Suc n) fs name delete find_is_empty it buf remaining =
     bind (iter_next it buf) (\<lambda>(el, it).
     if is_terminated el then ret None
     else
       bind (find_entry_by_name_in_block fs name (el_buf el)
         (block_idx_to_lba (fs_block_size fs) (el_block_idx el)) delete find_is_empty remaining)
       (\<lambda>(res, stop, buf, remaining).
       if stop then ret (if find_is_empty then None else res)
       else case res of Some r \<Rightarrow> ret (Some r)
         | None \<Rightarrow> find_blocks_loop n fs name delete find_is_empty it buf remaining))"

definition do_find_entry_by_name :: "Ext2Fs \<Rightarrow> string \<Rightarrow> InodePlus \<Rightarrow> bool \<Rightarrow> bool \<Rightarrow> int option fs_io" where
  "do_find_entry_by_name fs name victim delete find_is_empty =
    (if \<not> is_directory (inode victim) then fail NotADirectory
     else
       bind get_st (\<lambda>s.
       bind (lift_res (create_block_iterator fs (super_block s) (inode victim) (uint (ip_group_number victim))))
       (\<lambda>it.
       find_blocks_loop (blocks_limit it - cur_idx it) fs name delete find_is_empty it
         (get_buffer (buffer_size fs)) (i_size (inode victim)))))"

definition find_entry_by_name :: "Ext2Fs \<Rightarrow> string \<Rightarrow> InodePlus \<Rightarrow> int option fs_io" where
  "find_entry_by_name fs name ip = do_find_entry_by_name fs name ip False False"

definition find_entry_by_name_and_delete :: "Ext2Fs \<Rightarrow> string \<Rightarrow> InodePlus \<Rightarrow> int option fs_io" where
  "find_entry_by_name_and_delete fs name ip = do_find_entry_by_name fs name ip True False"

definition is_dir_empty :: "Ext2Fs \<Rightarrow> InodePlus \<Rightarrow> bool fs_io" where
  "is_dir_empty fs ip =
     bind (do_find_entry_by_name fs '''' ip False False) (\<lambda>r. ret (r = None))"

section \<open>Adding an entry\<close>

definition split_entry :: "bytes \<Rightarrow> nat \<Rightarrow> DirEntryPartial \<Rightarrow> DirEntry \<Rightarrow> (HalFsIOErr, bytes) res" where
  "split_entry buf progr p entry =
     serialize_tail (serialize_dir_entry Little (entry \<lparr> de_rec_len := dp_rec_len p - min_reclen p \<rparr>))
       (put_partial buf progr (p \<lparr> dp_rec_len := min_reclen p \<rparr>)) (progr + unat (min_reclen p))"

fun place_in_block_loop :: "nat \<Rightarrow> Ext2Fs \<Rightarrow> u32 \<Rightarrow> u32 \<Rightarrow> DirEntry \<Rightarrow> bytes \<Rightarrow> nat \<Rightarrow> bool fs_io" where
  "place_in_block_loop 0 fs bs block_idx entry buf progr = diverge"
| "place_in_block_loop (Suc n) fs bs block_idx entry buf progr =
    (if progr < length buf then
       bind (lift_res (partial_at buf progr)) (\<lambda>p.
       if ucast bs < dp_rec_len p + word_of_nat progr then fail Corrupted
       else if record_length entry \<le> dp_rec_len p - min_reclen p then
         bind (lift_res (split_entry buf progr p entry)) (\<lambda>buf.
         bind (write_block (io_handler fs) buf block_idx) (\<lambda>_. ret True))
       else place_in_block_loop n fs bs block_idx entry buf (progr + unat (dp_rec_len p)))
     else ret False)"

fun place_loop :: "nat \<Rightarrow> Ext2Fs \<Rightarrow> u32 \<Rightarrow> DirEntry \<Rightarrow> InodeBlockIterator \<Rightarrow> bytes \<Rightarrow>
    (bool \<times> InodeBlockIterator \<times> bytes) fs_io" where
  "place_loop 0 fs bs entry it buf = ret (False, it, buf)"
| "place_loop (Suc n) fs bs entry it buf =
     bind (iter_next it buf) (\<lambda>(el, it).
     if is_terminated el then ret (False, it, el_buf el)
     else
       bind (place_in_block_loop (length (el_buf el) + 1) fs bs (el_block_idx el) entry (el_buf el) 0) (\<lambda>placed.
       if placed then ret (True, it, el_buf el)
       else place_loop n fs bs entry it (el_buf el)))"

definition append_dir_block :: "Ext2Fs \<Rightarrow> InodePlus \<Rightarrow> DirEntry \<Rightarrow> InodeBlockIterator \<Rightarrow> bytes \<Rightarrow> InodePlus fs_io" where
  "append_dir_block fs ip entry it buf =
     bind (iter_set it) (\<lambda>(res, _).
     bind get_st (\<lambda>s. let bs = block_size (super_block s) in
     bind (read_block (io_handler fs) buf (set_block_idx res)) (\<lambda>buf.
     bind (lift_res (serialize_tail (serialize_dir_entry Little (entry \<lparr> de_rec_len := ucast bs \<rparr>))
       (replicate (length buf) 0) 0)) (\<lambda>buf.
     bind (write_block (io_handler fs) buf (set_block_idx res)) (\<lambda>_.
     bind (write_newly_allocated_blocks (block_allocator fs) buf) (\<lambda>_.
     ret (update_inode (\<lambda>ino. ino \<lparr> i_size := i_size ino + bs \<rparr>) ip)))))))"

definition add_dir_entry :: "Ext2Fs \<Rightarrow> InodePlus \<Rightarrow> u32 \<Rightarrow> string \<Rightarrow> InodePlus fs_io" where
  "add_dir_entry fs ip child_inode_idx name =
     bind posix_now (\<lambda>time.
     bind get_st (\<lambda>s.
     bind (lift_res (create_block_iterator fs (super_block s) (inode ip) (uint (ip_group_number ip)))) (\<lambda>it.
     let entry = dir_entry_new child_inode_idx name in
     bind (place_loop (blocks_limit it - cur_idx it) fs (block_size (super_block s)) entry it
       (get_buffer (buffer_size fs))) (\<lambda>(placed, it, buf).
     if placed then ret (update_inode (\<lambda>ino. ino \<lparr> i_mtime := time \<rparr>) ip)
     else append_dir_block fs ip entry it buf))))"

section \<open>Listing\<close>

record DirEnt64 =
  d64_inode_idx :: u64
  d64_offset :: int
  d64_file_type :: u8
  d64_name :: string

definition dirent64_rec_len :: "DirEnt64 \<Rightarrow> nat" where
  "dirent64_rec_len d = (8 + 8 + 2 + 1 + length (d64_name d) + 1 + 8) div 8 * 8"

definition serialize_dirent64 :: "endianness \<Rightarrow> DirEnt64 \<Rightarrow> ser" where
  "serialize_dirent64 e d target =
    (let len = dirent64_rec_len d in
     if length target < len then (Err BufferTooSmall, target)
     else case serialize_fields [serialize_int e (d64_inode_idx d),
         serialize_int e (word_of_int (d64_offset d) :: u64), serialize_int e (word_of_nat len :: u16),
         serialize_int e (d64_file_type d), serialize_name (d64_name d @ [CHR 0x00]) 0] 0 target of
       (Ok _, t) \<Rightarrow> (Ok len, t)
     | (r, t) \<Rightarrow> (r, t))"

text \<open>The state of a listing: the file system, the output buffer and the directory offset.\<close>

type_synonym 'a list_io = "(ext2 \<times> bytes \<times> int, HalFsIOErr, 'a) st"

fun read_entries_loop :: "nat \<Rightarrow> Inode \<Rightarrow> bytes \<Rightarrow> nat \<Rightarrow> Progress \<Rightarrow> (bool \<times> bool \<times> Progress) list_io" where
  "read_entries_loop 0 ino buf progress_bytes pg = diverge"
| "read_entries_loop (Suc n) ino buf progress_bytes pg = (\<lambda>(s, target, offset).
    case read_dir_entry buf progress_bytes of
      Ok (entry, bytes_read) \<Rightarrow>
        (let d = \<lparr> d64_inode_idx = ucast (de_inode entry), d64_offset = i64 (offset + int bytes_read),
               d64_file_type = de_file_type entry, d64_name = de_name entry \<rparr>;
             offset' = i64 (offset + int bytes_read) in
         if de_inode entry = 0 then
           read_entries_loop n ino buf (progress_bytes + bytes_read) pg (s, target, offset')
         else if length target \<le> dirent64_rec_len d + bytes_written pg then
           (Ok (False, True, pg \<lparr> pg_block_idx := pg_block_idx pg + 1, pg_offset := 0 \<rparr>), s, target, offset)
         else (case serialize_tail (serialize_dirent64 Little d) target (bytes_written pg) of
             Ok target' \<Rightarrow>
               read_entries_loop n ino buf (progress_bytes + bytes_read)
                 (pg \<lparr> bytes_written := bytes_written pg + dirent64_rec_len d \<rparr>) (s, target', offset')
           | Err e \<Rightarrow> (Err e, s, target, offset)
           | Panic \<Rightarrow> (Panic, s, target, offset)
           | Diverge \<Rightarrow> (Diverge, s, target, offset)))
    | Err _ \<Rightarrow>
        (if uint (i_size ino) \<le> offset then (Ok (True, True, pg), s, target, offset)
         else (Ok (False, False, pg \<lparr> pg_block_idx := pg_block_idx pg + 1, pg_offset := 0 \<rparr>), s, target, offset))
    | Panic \<Rightarrow> (Panic, s, target, offset)
    | Diverge \<Rightarrow> (Diverge, s, target, offset))"

definition read_entries_till_next_block :: "Ext2Fs \<Rightarrow> Inode \<Rightarrow> Progress \<Rightarrow> (bool \<times> bool \<times> Progress) list_io" where
  "read_entries_till_next_block fs ino pg =
     bind (on_fs (get_block_lba fs ino (pg_block_idx pg))) (\<lambda>lba.
     bind (on_fs (read_sectors (io_handler fs) (replicate BLOCK_SIZE 0) (uint lba))) (\<lambda>buf.
     (\<lambda>(s, target, offset).
       read_entries_loop (BLOCK_SIZE + length target + 2) ino buf (unat (pg_offset pg)) pg (s, target, offset))))"

text \<open>The block index grows with every turn, and past the triple-indirect range the address lookup fails.\<close>

fun iter_dir_loop :: "nat \<Rightarrow> Ext2Fs \<Rightarrow> Inode \<Rightarrow> Progress \<Rightarrow> bool list_io" where
  "iter_dir_loop 0 fs ino pg = diverge"
| "iter_dir_loop (Suc n) fs ino pg =
     bind (read_entries_till_next_block fs ino pg) (\<lambda>(reached_end, finished, pg).
     if reached_end then ret True
     else if finished then ret False
     else iter_dir_loop n fs ino pg)"

definition iter_dir :: "Ext2Fs \<Rightarrow> InodePlus \<Rightarrow> bytes \<Rightarrow> (ext2 \<times> int, HalFsIOErr, bool) st" where
  "iter_dir fs ip buf = (\<lambda>(s, offset).
    (let bs = block_size (super_block s) in
     if \<not> is_directory (inode ip) then (Err NotADirectory, s, offset)
     else if bs = 0 then (Panic, s, offset)
     else case iter_dir_loop (INODE_TRIPLE_IND_BLOCK_LIMIT + 1) fs (inode ip)
         \<lparr> pg_block_idx = as_u32 offset div bs, pg_offset = as_u32 offset mod bs, bytes_written = 0 \<rparr>
         (s, buf, offset) of (r, s, _, offset) \<Rightarrow> (r, s, offset)))"

section \<open>Directories as lists of entries\<close>

text \<open>The entries a block holds from an offset on, each with its record length, up to its end.\<close>

fun laid_out :: "bytes \<Rightarrow> nat \<Rightarrow> DirEntry list \<Rightarrow> bool" where
  "laid_out buf off [] \<longleftrightarrow> off = length buf"
| "laid_out buf off (e # es) \<longleftrightarrow>
     read_dir_entry buf off = Ok (e, unat (de_rec_len e)) \<and> 8 \<le> unat (de_rec_len e) \<and>
     off + unat (de_rec_len e) \<le> length buf \<and> laid_out buf (off + unat (de_rec_len e)) es"

definition matches :: "string \<Rightarrow> DirEntry \<Rightarrow> bool" where
  "matches name e \<longleftrightarrow> de_inode e \<noteq> 0 \<and> de_name e = name \<and> name \<noteq> ''.'' \<and> name \<noteq> ''..''"

definition dir_lookup :: "string \<Rightarrow> DirEntry list \<Rightarrow> int option" where
  "dir_lookup name es = map_option (\<lambda>e. uint (de_inode e)) (find (matches name) es)"

lemma dir_lookup_Nil [simp]: "dir_lookup name [] = None"
  by (simp add: dir_lookup_def)

lemma dir_lookup_Cons: "dir_lookup name (e # es) =
    (if matches name e then Some (uint (de_inode e)) else dir_lookup name es)"
  by (simp add: dir_lookup_def)

lemma dir_lookup_append: "dir_lookup name (xs @ ys) =
    (case dir_lookup name xs of None \<Rightarrow> dir_lookup name ys | Some i \<Rightarrow> Some i)"
  by (induction xs) (simp_all add: dir_lookup_Cons)

lemma laid_out_off: "laid_out buf off es \<Longrightarrow> off \<le> length buf"
  by (cases es) simp_all

lemma laid_out_length: "laid_out buf off es \<Longrightarrow> off + 8 * length es \<le> length buf"
proof (induction es arbitrary: off)
  case (Cons e es)
  then have "off + unat (de_rec_len e) + 8 * length es \<le> length buf" by simp
  with Cons.prems show ?case by simp
qed simp

lemma unat_minus_nat: "r \<le> unat (w :: u32) \<Longrightarrow> unat (w - of_nat r) = unat w - r"
proof -
  assume r: "r \<le> unat w"
  then have "unat (of_nat r :: u32) = r"
    using unsigned_less [of w, where ?'a = nat] by (simp add: unat_of_nat)
  with r show ?thesis by (simp add: unat_sub word_le_nat_alt)
qed

text \<open>One turn of the search on an entry of a laid-out block.\<close>

lemma find_in_block_loop_entry:
  assumes "read_dir_entry buf off = Ok (e, r)" "off + r \<le> 1024" "0 < r"
  shows "find_in_block_loop (Suc n) fs 1024 name lba delete False buf (of_nat off) this prev remaining s =
    (let remaining' = remaining - of_nat r in
     if matches name e then
       bind (if delete then
           bind (lift_res (remove_entry buf e this prev)) (\<lambda>buf.
           bind (write_sectors (io_handler fs) buf lba) (\<lambda>_. ret buf))
         else ret buf) (\<lambda>buf. ret (Some (uint (de_inode e)), remaining' = 0, buf, remaining')) s
     else if remaining' = 0 then
       (Ok (None, de_name e = ''.'' \<or> de_name e = ''..'', buf, remaining'), s)
     else find_in_block_loop n fs 1024 name lba delete False buf (of_nat (off + r)) (this + r) this remaining' s)"
proof -
  have "unat (of_nat off :: u32) = off" "(of_nat off :: u32) < 1024"
    using assms(2,3) by (simp_all add: unat_of_nat word_less_nat_alt)
  then show ?thesis
    using assms(1) by (auto simp: bind_def Let_def matches_def)
qed

lemma find_in_block_loop_spec:
  assumes "laid_out buf off es" "length buf = 1024" "length es < n" "1024 - off \<le> unat remaining"
    and "delete \<Longrightarrow> dir_lookup name es = None"
  shows "\<exists>t rem. find_in_block_loop n fs 1024 name lba delete False buf (of_nat off) this prev remaining s =
      (Ok (dir_lookup name es, t, buf, rem), s) \<and>
    (dir_lookup name es = None \<longrightarrow> rem = remaining - of_nat (1024 - off) \<and> (t \<longrightarrow> rem = 0))"
  using assms
proof (induction es arbitrary: off n this prev remaining)
  case Nil
  then show ?case by (cases n) (auto intro: exI [of _ False])
next
  case (Cons e es)
  let ?r = "unat (de_rec_len e)" and ?rem = "remaining - of_nat (unat (de_rec_len e))"
  have e: "read_dir_entry buf off = Ok (e, ?r)" "8 \<le> ?r" "off + ?r \<le> 1024" "laid_out buf (off + ?r) es"
    using Cons.prems(1,2) by simp_all
  obtain m where n: "n = Suc m" "length es < m" using Cons.prems(3) by (cases n) auto
  note step = find_in_block_loop_entry [OF e(1,3), of m fs name lba delete this prev remaining s]
  have rem: "unat ?rem = unat remaining - ?r" using e(3) Cons.prems(4) by (intro unat_minus_nat) linarith
  consider "matches name e" | "\<not> matches name e" "?rem = 0" | "\<not> matches name e" "?rem \<noteq> 0" by blast
  then show ?case
  proof cases
    case 1
    then have "\<not> delete" using Cons.prems(5) by (auto simp: dir_lookup_Cons)
    then show ?thesis using 1 step e(2) by (auto simp: n(1) Let_def dir_lookup_Cons simp del: find_in_block_loop.simps)
  next
    case 2
    then have "off + ?r = 1024" using rem e(3) Cons.prems(4) by simp
    then have "es = []" using e(4) Cons.prems(2) by (cases es) auto
    moreover have "1024 - off = ?r" using \<open>off + ?r = 1024\<close> by linarith
    ultimately show ?thesis
      using 2 step e(2) by (simp add: n(1) Let_def dir_lookup_Cons del: find_in_block_loop.simps)
  next
    case 3
    have "1024 - (off + ?r) \<le> unat ?rem" using rem Cons.prems(4) by linarith
    moreover have "dir_lookup name es = None" if delete using Cons.prems(5) [OF that] 3(1) by (simp add: dir_lookup_Cons)
    ultimately have "\<exists>t rem. find_in_block_loop m fs 1024 name lba delete False buf (of_nat (off + ?r)) (this + ?r) this ?rem s =
        (Ok (dir_lookup name es, t, buf, rem), s) \<and>
        (dir_lookup name es = None \<longrightarrow> rem = ?rem - of_nat (1024 - (off + ?r)) \<and> (t \<longrightarrow> rem = 0))"
      by (intro Cons.IH [OF e(4) Cons.prems(2) n(2)])
    then
    obtain t rm where ih: "find_in_block_loop m fs 1024 name lba delete False buf (of_nat (off + ?r)) (this + ?r) this ?rem s =
        (Ok (dir_lookup name es, t, buf, rm), s)"
        "dir_lookup name es = None \<longrightarrow> rm = ?rem - of_nat (1024 - (off + ?r)) \<and> (t \<longrightarrow> rm = 0)" by (elim exE conjE) (rule that)
    have "1024 - off = ?r + (1024 - (off + ?r))" using e(3) by linarith
    then have "(of_nat (1024 - off) :: u32) = of_nat ?r + of_nat (1024 - (off + ?r))"
      by (metis of_nat_add)
    then have "?rem - of_nat (1024 - (off + ?r)) = remaining - of_nat (1024 - off)" by simp
    moreover have "find_in_block_loop n fs 1024 name lba delete False buf (of_nat off) this prev remaining s =
        find_in_block_loop m fs 1024 name lba delete False buf (of_nat (off + ?r)) (this + ?r) this ?rem s"
      using 3 step e(2) by (simp add: n(1) Let_def del: find_in_block_loop.simps)
    moreover have "dir_lookup name (e # es) = dir_lookup name es" using 3(1) by (simp add: dir_lookup_Cons)
    ultimately show ?thesis using ih by metis
  qed
qed

text \<open>A directory of \<open>k\<close> blocks of 1 KiB whose j-th block holds the entries \<open>es j\<close>.\<close>

definition dir_blocks :: "(int \<Rightarrow> u8) \<Rightarrow> u32 list \<Rightarrow> nat \<Rightarrow> (nat \<Rightarrow> DirEntry list) \<Rightarrow> bool" where
  "dir_blocks f blocks k es \<longleftrightarrow> k \<le> 13 \<and>
     (\<forall>j < k. laid_out (block_content f (file_block f blocks j)) 0 (es j))"

lemma find_entry_by_name_in_block_spec:
  assumes "block_size (super_block s) = 1024" "laid_out buf 0 es" "length buf = 1024" "1024 \<le> unat remaining"
    and "delete \<Longrightarrow> dir_lookup name es = None"
  shows "\<exists>t rem. find_entry_by_name_in_block fs name buf lba delete False remaining s =
      (Ok (dir_lookup name es, t, buf, rem), s) \<and>
    (dir_lookup name es = None \<longrightarrow> rem = remaining - 1024 \<and> (t \<longrightarrow> rem = 0))"
  using find_in_block_loop_spec [OF assms(2,3), of 1025 remaining delete name fs lba 0 0 s]
    laid_out_length [OF assms(2)] assms
  by (simp add: find_entry_by_name_in_block_def del: find_in_block_loop.simps)

lemma find_blocks_loop_spec:
  assumes "part_ok (io_handler fs) s" "block_size (super_block s) = 1024" "f = part (io_handler fs) s"
    and "iter_ok it f" "it_io_handler it = io_handler fs" "it_blocks it = blocks" "length buf = 1024"
    and "blocks_limit it = k" "n = k - cur_idx it" "dir_blocks f blocks k es"
    and "unat remaining = n * 1024" "delete \<Longrightarrow> dir_lookup name (concat (map es [cur_idx it..<k])) = None"
  shows "find_blocks_loop n fs name delete False it buf remaining s =
    (Ok (dir_lookup name (concat (map es [cur_idx it..<k]))), s)"
  using assms
proof (induction n arbitrary: it buf remaining)
  case 0
  then show ?case by simp
next
  case (Suc n)
  let ?j = "cur_idx it"
  have j: "?j < k" "[?j..<k] = ?j # [Suc ?j..<k]" "k \<le> 13"
    using Suc.prems(9,10) by (auto simp: upt_conv_Cons dir_blocks_def)
  let ?B = "block_content f (file_block f blocks ?j)"
  obtain i it' where nx: "iter_next it buf s = (Ok (\<lparr> el_buf = ?B, is_terminated = False, el_block_idx = i \<rparr>,
      it' \<lparr> cur_idx := Suc ?j \<rparr>), s)" "iter_ok it' f" "same_file it it'"
    using iter_next_ok [of it s buf] Suc.prems j by auto
  have lay: "laid_out ?B 0 (es ?j)" using Suc.prems(10) j(1) by (simp add: dir_blocks_def)
  have none: "dir_lookup name (es ?j) = None" if delete
    using Suc.prems(12) [OF that] j(2) by (simp add: dir_lookup_append split: option.splits)
  obtain t rem where fd: "find_entry_by_name_in_block fs name ?B (block_idx_to_lba (fs_block_size fs) i) delete False remaining s =
      (Ok (dir_lookup name (es ?j), t, ?B, rem), s)"
      "dir_lookup name (es ?j) = None \<longrightarrow> rem = remaining - 1024 \<and> (t \<longrightarrow> rem = 0)"
    using find_entry_by_name_in_block_spec [OF Suc.prems(2) lay length_block_content, of remaining delete name fs
        "block_idx_to_lba (fs_block_size fs) i"] Suc.prems(11) none by auto
  have rem: "unat (remaining - 1024) = n * 1024" using Suc.prems(11) unat_minus_nat [of 1024 remaining] by simp
  show ?case
  proof (cases "dir_lookup name (es ?j)")
    case (Some x)
    then show ?thesis using nx(1) fd(1) j by (simp add: bind_def dir_lookup_append)
  next
    case None
    have "find_blocks_loop n fs name delete False (it' \<lparr> cur_idx := Suc ?j \<rparr>) ?B rem s =
        (Ok (dir_lookup name (concat (map es [cur_idx (it' \<lparr> cur_idx := Suc ?j \<rparr>)..<k]))), s)"
      using Suc.prems(1-3,5-10) nx(2,3) None fd(2) rem
        Suc.prems(12) j(2)
      by (intro Suc.IH) (auto simp: same_file_def dir_lookup_append intro: iter_ok_advance)
    moreover have "[Suc ?j..<k] = []" if t using that None fd(2) rem Suc.prems(9) by auto
    ultimately show ?thesis
      using nx(1) fd(1) j(2) None by (auto simp: bind_def dir_lookup_append)
  qed
qed

lemma do_find_entry_by_name_spec:
  assumes "wf_fs fs" "fs_block_size fs = 1024" "block_size (super_block s) = 1024" "part_ok (io_handler fs) s"
    and "is_directory (inode ip)" "wf_inode (inode ip)" "unat (i_size (inode ip)) = k * 1024"
    and "dir_blocks (part (io_handler fs) s) (i_block (inode ip)) k es"
  shows "do_find_entry_by_name fs name ip False False s = (Ok (dir_lookup name (concat (map es [0..<k]))), s)"
proof -
  let ?f = "part (io_handler fs) s"
  obtain it where it: "create_block_iterator fs (super_block s) (inode ip) (uint (ip_group_number ip)) =
        (Ok it :: (HalFsIOErr, InodeBlockIterator) res)" "iter_ok it ?f"
      "it_blocks it = i_block (inode ip)" "it_io_handler it = io_handler fs" "cur_idx it = 0"
      "blocks_limit it = (unat (i_size (inode ip)) + 1023) div 1024"
    using create_block_iterator_ok [OF assms(1-3), of "inode ip" "uint (ip_group_number ip)" ?f] assms(6)
    by (auto simp: wf_inode_def)
  have lim: "blocks_limit it = k" using it(6) by (simp add: assms(7) ceil_1024(1))
  have "find_blocks_loop (blocks_limit it - cur_idx it) fs name False False it (get_buffer (buffer_size fs)) (i_size (inode ip)) s =
      (Ok (dir_lookup name (concat (map es [cur_idx it..<k]))), s)"
    using assms it lim by (intro find_blocks_loop_spec) (simp_all add: get_buffer_def wf_fs_def)
  then show ?thesis using assms(5) it(1,5) by (simp add: do_find_entry_by_name_def bind_def)
qed

end
