(* ===== verification/Ext2DirSpec.thy ===== *)
theory Ext2DirSpec
  imports Ext2Dir
begin

text \<open>
  What the directory operations of \<^verbatim>\<open>open.rs\<close> and \<^verbatim>\<open>dirs.rs\<close> do to a directory seen as
  a list of entries: the search, the removal and the insertion in a block
  refine functions on such lists, whose effect on the map from names to inode
  numbers is proved here too.
\<close>

section \<open>Reading an entry from its bytes\<close>

lemma deserialize_dir_entry_bytes:
  assumes "8 \<le> length b"
  shows "deserialize_dir_entry Little b = bind_res (read_name (drop 8 b) (unat (b ! 6))) (\<lambda>name.
    Ok (\<lparr> de_inode = from_le (sub_list b 0 4), de_rec_len = from_le (sub_list b 4 6), de_file_type = b ! 7,
      de_name = name \<rparr>, unat (from_le (sub_list b 4 6) :: u16)))"
proof -
  have one: "take (Suc 0) (drop i b) = [b ! i]" if "i < 8" for i
    using that assms by (simp add: take_Suc_conv_app_nth flip: take_drop)
  have "from_le [x] = (x :: u8)" for x by (simp add: from_le_def)
  moreover have "\<not> length b - 4 < 2" "\<not> length b - 6 < 1" "\<not> length b - 7 < 1" using assms by linarith+
  ultimately show ?thesis
    using assms one [of 6] one [of 7]
    by (simp add: deserialize_dir_entry_def deserialize_field_def deserialize_int_def sub_list_def)
qed

lemma read_name_prefix:
  "n \<le> length b \<Longrightarrow> take n b = take n b' \<Longrightarrow> n \<le> length b' \<Longrightarrow> read_name b n = read_name b' n"
proof (induction n arbitrary: b b')
  case (Suc n)
  obtain x xs y ys where b: "b = x # xs" "b' = y # ys" using Suc.prems by (cases b; cases b') auto
  have "read_name xs n = read_name ys n" using Suc.prems by (intro Suc.IH) (simp_all add: b)
  with Suc.prems(2) show ?case by (simp add: b)
qed simp

lemma read_name_length: "read_name b n = Ok name \<Longrightarrow> n \<le> length b \<and> n \<le> length name"
proof (induction b n arbitrary: name rule: read_name.induct)
  case (3 b rest n)
  then obtain s where s: "read_name rest n = Ok s" "name = push_byte_as_char b @ s"
    by (auto simp: bind_res_Ok_iff)
  have "1 \<le> length (push_byte_as_char b)" by (simp add: push_byte_as_char_def)
  with "3.IH" [OF s(1)] s(2) show ?case by simp
qed simp_all

text \<open>An entry depends only on the bytes of its header and its name.\<close>

definition name_len_at :: "bytes \<Rightarrow> nat \<Rightarrow> nat" where
  "name_len_at buf off = unat (buf ! (off + 6))"

lemma read_dir_entry_iff:
  assumes "off + 8 \<le> length buf"
  shows "read_dir_entry buf off = Ok (e, r) \<longleftrightarrow>
    read_name (drop (off + 8) buf) (name_len_at buf off) = Ok (de_name e) \<and>
    de_inode e = from_le (sub_list buf off (off + 4)) \<and> de_rec_len e = from_le (sub_list buf (off + 4) (off + 6)) \<and>
    de_file_type e = buf ! (off + 7) \<and> r = unat (de_rec_len e)"
proof -
  have "sub_list (drop off buf) a b = sub_list buf (off + a) (off + b)" for a b
    by (simp add: sub_list_def add.commute)
  then show ?thesis
    using assms deserialize_dir_entry_bytes [of "drop off buf"]
    by (cases e; cases "read_name (drop (off + 8) buf) (name_len_at buf off)")
      (auto simp: read_dir_entry_def name_len_at_def add.commute)
qed

lemma read_dir_entry_cong:
  assumes "read_dir_entry buf off = Ok (e, r)" "off + 8 \<le> length buf" "length buf' = length buf"
    and "sub_list buf' off (off + 8 + name_len_at buf off) = sub_list buf off (off + 8 + name_len_at buf off)"
  shows "read_dir_entry buf' off = Ok (e, r)"
proof -
  let ?n = "name_len_at buf off"
  note e = assms(1) [unfolded read_dir_entry_iff [OF assms(2)]]
  have n: "off + 8 + ?n \<le> length buf" using e read_name_length assms(2) by fastforce
  have nth: "buf' ! (off + i) = buf ! (off + i)" if "i < 8 + ?n" for i
    using arg_cong [OF assms(4), of "\<lambda>xs. xs ! i"] that n assms(3) by (simp add: sub_list_def)
  have sub: "sub_list buf' (off + a) (off + b) = sub_list buf (off + a) (off + b)" if "b \<le> 8 + ?n" for a b
    using that n assms(3) nth by (intro nth_equalityI) (auto simp: sub_list_def add.assoc)
  have "read_name (drop (off + 8) buf') ?n = read_name (drop (off + 8) buf) ?n"
    using sub [of "8 + ?n" 8] n assms(3) by (intro read_name_prefix) (simp_all add: sub_list_def add.assoc)
  moreover have "name_len_at buf' off = ?n" using nth [of 6] by (simp add: name_len_at_def)
  ultimately show ?thesis
    using e sub [of 4 0] sub [of 6 4] nth [of 7] assms(2,3) by (simp add: read_dir_entry_iff)
qed

lemma byte_of_char_of_byte [simp]: "byte_of_char (char_of_byte b) = b"
proof -
  have "(of_char (char_of (unat b)) :: nat) = unat b"
    using unsigned_less [of b, where ?'a = nat] by simp
  then have "(of_nat (of_char (char_of (unat b))) :: u8) = of_nat (unat b)" by (rule arg_cong)
  then have "(of_nat (of_char (char_of (unat b))) :: u8) = b" by (simp del: of_nat_of_char)
  then show ?thesis by (simp only: byte_of_char_def char_of_byte_def of_nat_of_char)
qed

lemma read_name_ascii_length: "read_name b n = Ok name \<Longrightarrow> ascii name \<Longrightarrow> length name = n"
proof (induction b n arbitrary: name rule: read_name.induct)
  case (3 b rest n)
  then obtain s where s: "read_name rest n = Ok s" "name = push_byte_as_char b @ s"
    by (auto simp: bind_res_Ok_iff)
  have "b < 128"
  proof (rule ccontr)
    assume "\<not> b < 128"
    then have "byte_of_char (char_of_byte (0xC0 OR drop_bit 6 b)) < 128"
      using "3.prems"(2) s(2) by (simp add: ascii_def push_byte_as_char_def)
    then have "0xC0 OR drop_bit 6 b < (128 :: u8)" by simp
    moreover have "(128 :: u8) \<le> 0xC0 OR drop_bit 6 b"
      by (rule order_trans [of _ "0xC0"]) (simp, rule le_word_or2)
    ultimately show False by simp
  qed
  then have "name = char_of_byte b # s" using s(2) by (simp add: push_byte_as_char_def)
  with "3.IH" [OF s(1)] "3.prems"(2) show ?case by (simp add: ascii_def)
qed simp_all

section \<open>Layouts\<close>

text \<open>Entries as ext2 (revision 0) writes them: the name fits into the record, records are multiples
  of four bytes.\<close>

definition wf_entry :: "DirEntry \<Rightarrow> bool" where
  "wf_entry e \<longleftrightarrow> 8 + length (de_name e) \<le> unat (de_rec_len e) \<and> 4 dvd unat (de_rec_len e) \<and>
     de_file_type e = 0 \<and> ascii (de_name e) \<and> length (de_name e) \<le> 255"

fun laid_part :: "bytes \<Rightarrow> nat \<Rightarrow> DirEntry list \<Rightarrow> bool" where
  "laid_part buf off [] \<longleftrightarrow> True"
| "laid_part buf off (e # es) \<longleftrightarrow>
     read_dir_entry buf off = Ok (e, unat (de_rec_len e)) \<and> 8 \<le> unat (de_rec_len e) \<and>
     off + unat (de_rec_len e) \<le> length buf \<and> laid_part buf (off + unat (de_rec_len e)) es"

definition ext :: "DirEntry list \<Rightarrow> nat" where
  "ext es = sum_list (map (\<lambda>e. unat (de_rec_len e)) es)"

lemma ext_simps [simp]: "ext [] = 0" "ext (e # es) = unat (de_rec_len e) + ext es"
    "ext (xs @ ys) = ext xs + ext ys"
  by (simp_all add: ext_def)

lemma laid_out_append: "laid_out buf off (xs @ ys) \<longleftrightarrow> laid_part buf off xs \<and> laid_out buf (off + ext xs) ys"
  by (induction xs arbitrary: off) (auto simp: add.assoc)

lemma laid_part_append: "laid_part buf off (xs @ ys) \<longleftrightarrow> laid_part buf off xs \<and> laid_part buf (off + ext xs) ys"
  by (induction xs arbitrary: off) (auto simp: add.assoc)

lemma laid_out_ext: "laid_out buf off es \<Longrightarrow> off + ext es = length buf"
proof (induction es arbitrary: off)
  case (Cons e es)
  then have "off + unat (de_rec_len e) + ext es = length buf" by simp
  then show ?case by simp
qed simp

lemma drop_more: "drop a buf' = drop a buf \<Longrightarrow> a \<le> b \<Longrightarrow> drop b buf' = drop b (buf :: 'a list)"
  by (metis drop_drop le_add_diff_inverse2)

lemma laid_out_after:
  assumes "laid_out buf off es" "length buf' = length buf" "drop a buf' = drop a buf" "a \<le> off"
  shows "laid_out buf' off es"
  using assms
proof (induction es arbitrary: off)
  case (Cons e es)
  have "read_dir_entry buf' off = read_dir_entry buf off"
    using drop_more [OF Cons.prems(3,4)] Cons.prems(2) by (simp add: read_dir_entry_def)
  with Cons show ?case by simp
qed simp

lemma laid_part_before:
  assumes "laid_part buf off xs" "\<forall>e \<in> set xs. wf_entry e" "length buf' = length buf"
    and "take a buf' = take a buf" "off + ext xs \<le> a" "a \<le> length buf"
  shows "laid_part buf' off xs"
  using assms
proof (induction xs arbitrary: off)
  case (Cons e es)
  let ?n = "name_len_at buf off"
  have e: "read_dir_entry buf off = Ok (e, unat (de_rec_len e))" "off + 8 \<le> length buf" "wf_entry e"
    using Cons.prems(1,2) by simp_all
  have "?n \<le> length (de_name e)"
    using e read_name_length by (auto simp: read_dir_entry_iff)
  then have n: "off + 8 + ?n \<le> a" using e(3) Cons.prems(5) by (simp add: wf_entry_def)
  have "sub_list buf' off (off + 8 + ?n) = sub_list buf off (off + 8 + ?n)"
    using arg_cong [OF Cons.prems(4), of "\<lambda>xs. sub_list xs off (off + 8 + ?n)"] n
    by (simp add: sub_list_def drop_take)
  from read_dir_entry_cong [OF e(1,2) Cons.prems(3) this] show ?case
    using Cons by simp
qed simp

lemma put_partial_frame:
  assumes "off + 8 \<le> length buf"
  shows "length (put_partial buf off p) = length buf" "take off (put_partial buf off p) = take off buf"
    "drop (off + 8) (put_partial buf off p) = drop (off + 8) buf"
    "sub_list (put_partial buf off p) off (off + 8) = dir_entry_partial_bytes p"
  using assms by (simp_all add: put_partial_def splice_at_def sub_list_def)

text \<open>The fixed part of an entry and what changing it does to the entry.\<close>

lemma sub_list_sub_list: "b \<le> n \<Longrightarrow> sub_list (sub_list buf off (off + n)) a b = sub_list buf (off + a) (off + b)"
  by (simp add: sub_list_def drop_take min_def add.commute)

lemma partial_at_entry:
  assumes "read_dir_entry buf off = Ok (e, r)" "off + 8 \<le> length buf"
  obtains p where "partial_at buf off = Ok p" "dp_inode p = de_inode e" "dp_rec_len p = de_rec_len e"
    "to_le (dp_name_len p) = [buf ! (off + 6), buf ! (off + 7)]"
proof
  let ?p = "dir_entry_partial_of (sub_list buf off (off + 8))"
  note sub = sub_list_sub_list [of _ 8]
  show "partial_at buf off = Ok ?p"
    using assms(2) by (simp add: partial_at_def slice_def DIR_ENTRY_PARTIAL_LEN_def)
  show "dp_inode ?p = de_inode e" "dp_rec_len ?p = de_rec_len e"
    using assms by (simp_all add: read_dir_entry_iff dir_entry_partial_of_def sub)
  have "sub_list buf (off + 6) (off + 8) = [buf ! (off + 6), buf ! (off + 7)]"
    using assms(2) by (intro nth_equalityI) (auto simp: sub_list_def less_Suc_eq numeral_2_eq_2 ac_simps)
  then show "to_le (dp_name_len ?p) = [buf ! (off + 6), buf ! (off + 7)]"
    using assms(2) by (simp add: dir_entry_partial_of_def sub to_le_from_le_word)
qed

lemma read_put_partial:
  assumes "off + 8 \<le> length buf" "to_le (dp_name_len p) = [n, t]"
  shows "read_dir_entry (put_partial buf off p) off = Ok (e, r) \<longleftrightarrow>
    read_name (drop (off + 8) buf) (unat n) = Ok (de_name e) \<and> de_inode e = dp_inode p \<and>
    de_rec_len e = dp_rec_len p \<and> de_file_type e = t \<and> r = unat (dp_rec_len p)"
proof -
  let ?b = "put_partial buf off p"
  note fr = put_partial_frame [OF assms(1), of p]
  have bytes: "dir_entry_partial_bytes p = to_le (dp_inode p) @ to_le (dp_rec_len p) @ [n, t]"
    by (simp add: dir_entry_partial_bytes_def assms(2))
  have sub: "sub_list ?b (off + a) (off + b) = sub_list (dir_entry_partial_bytes p) a b" if "b \<le> 8" for a b
    using sub_list_sub_list [OF that, of ?b off a] by (simp add: fr(4))
  have nth: "?b ! (off + i) = dir_entry_partial_bytes p ! i" if "i < 8" for i
    using that assms(1) arg_cong [OF fr(4), of "\<lambda>xs. xs ! i"] fr(1) by (simp add: sub_list_def)
  have "?b ! (off + 6) = n" "?b ! (off + 7) = t"
    using nth [of 6] nth [of 7] by (simp_all add: bytes nth_append)
  moreover have "sub_list ?b off (off + 4) = to_le (dp_inode p)" "sub_list ?b (off + 4) (off + 6) = to_le (dp_rec_len p)"
    using sub [of 4 0] sub [of 6 4] by (simp_all add: bytes pod_simps)
  ultimately show ?thesis
    using assms(1) fr(1,3) by (auto simp: read_dir_entry_iff name_len_at_def)
qed

section \<open>Removing an entry\<close>

definition blank :: "DirEntry \<Rightarrow> DirEntry" where
  "blank e = \<lparr> de_inode = 0, de_rec_len = de_rec_len e, de_file_type = 0, de_name = [] \<rparr>"

definition joined :: "DirEntry \<Rightarrow> DirEntry \<Rightarrow> DirEntry" where
  "joined p e = p \<lparr> de_rec_len := de_rec_len p + de_rec_len e \<rparr>"

fun drop_after :: "string \<Rightarrow> DirEntry \<Rightarrow> DirEntry list \<Rightarrow> DirEntry list" where
  "drop_after name p [] = [p]"
| "drop_after name p (e # es) = (if matches name e then joined p e # es else p # drop_after name e es)"

fun drop_match :: "string \<Rightarrow> DirEntry list \<Rightarrow> DirEntry list" where
  "drop_match name [] = []"
| "drop_match name (e # es) = (if matches name e then blank e # es else drop_after name e es)"

lemma unat_and_3: "unat (w AND 3 :: u16) = unat w mod 4"
proof -
  have "w AND 3 = take_bit 2 w" by (simp add: take_bit_eq_mask mask_eq_exp_minus_1)
  then show ?thesis by (simp add: take_bit_eq_mod unat_mod)
qed

lemma unat_align_4: "unat (w AND NOT 3 :: u16) = unat w div 4 * 4"
proof -
  have "(w AND NOT 3) + (w AND 3) = (w AND NOT 3) OR (w AND 3)"
    by (rule disjunctive_add) (auto simp: bit_simps)
  also have "\<dots> = w" by (rule bit_word_eqI) (auto simp: bit_simps)
  finally have "w AND NOT 3 = w - (w AND 3)" by (simp add: algebra_simps)
  moreover have "w AND 3 \<le> w" by (simp add: word_le_nat_alt unat_and_3)
  ultimately have "unat (w AND NOT 3) = unat w - unat w mod 4" by (simp add: unat_sub unat_and_3)
  then show ?thesis by (simp add: minus_mod_eq_div_mult)
qed

text \<open>The length of a record that holds a name of \<open>n\<close> bytes and nothing more.\<close>

definition need :: "nat \<Rightarrow> nat" where
  "need n = (n + 11) div 4 * 4"

lemma need_bounds: "8 + n \<le> need n" "need n \<le> n + 11" "4 dvd need n"
  unfolding need_def using div_mult_mod_eq [of "n + 11" 4] mod_less_divisor [of 4 "n + 11"]
  by (linarith, linarith, simp)

lemma need_le: "8 + n \<le> r \<Longrightarrow> 4 dvd r \<Longrightarrow> need n \<le> r"
  unfolding need_def by (auto elim!: dvdE)

lemma record_length_need:
  assumes "length (de_name e) \<le> 255"
  shows "record_length e = max (of_nat (need (length (de_name e)))) (de_rec_len e)"
proof -
  let ?n = "length (de_name e)"
  have "unat (word_of_nat (8 + ?n) + 4 - 1 :: u16) = ?n + 11"
  proof -
    have "word_of_nat (8 + ?n) + 4 - 1 = (word_of_nat (?n + 11) :: u16)" by simp
    then show ?thesis using assms by (simp only: unat_of_nat) simp
  qed
  then have "unat ((word_of_nat (8 + ?n) + 4 - 1 :: u16) AND NOT 3) = need ?n" by (simp only: unat_align_4 need_def)
  then have "(word_of_nat (8 + ?n) + 4 - 1 :: u16) AND NOT 3 = of_nat (need ?n)" 
    using need_bounds(2) [of ?n] assms by (intro word_unat_eq_iff [THEN iffD2]) (simp add: unat_of_nat)
  then show ?thesis by (simp add: record_length_def EXT2_DIR_ENTRY_ALIGNMENT_def Let_def)
qed

lemma record_length_wf: "wf_entry e \<Longrightarrow> record_length e = de_rec_len e"
  using need_le [of "length (de_name e)" "unat (de_rec_len e)"] need_bounds(2) [of "length (de_name e)"]
  by (auto simp: record_length_need wf_entry_def max_def word_le_nat_alt unat_of_nat)

lemma laid_out_at:
  assumes "laid_out buf off (e # es)"
  shows "read_dir_entry buf off = Ok (e, unat (de_rec_len e))" "off + 8 \<le> length buf" "8 \<le> unat (de_rec_len e)"
    "off + unat (de_rec_len e) \<le> length buf" "laid_out buf (off + unat (de_rec_len e)) es"
  using assms by auto

lemma remove_entry_first:
  assumes "laid_out buf 0 (e # es)" "wf_entry e"
  obtains buf' where "remove_entry buf e 0 0 = Ok buf'" "length buf' = length buf" "laid_out buf' 0 (blank e # es)"
proof -
  note e = laid_out_at [OF assms(1)]
  obtain p where p: "partial_at buf 0 = Ok p" using partial_at_entry [OF e(1,2)] by metis
  let ?p = "p \<lparr> dp_inode := 0, dp_rec_len := record_length e, dp_name_len := 0 \<rparr>"
  note fr = put_partial_frame [OF e(2), of ?p]
  have "read_dir_entry (put_partial buf 0 ?p) 0 = Ok (blank e, unat (de_rec_len e))"
    using e(2) record_length_wf [OF assms(2)]
    by (subst read_put_partial [where n = 0 and t = 0]) (simp_all add: blank_def to_le_def numeral_2_eq_2)
  moreover have "laid_out (put_partial buf 0 ?p) (0 + unat (de_rec_len e)) es"
    using laid_out_after [OF e(5) fr(1,3)] e(3) by simp
  ultimately show ?thesis
    using that [of "put_partial buf 0 ?p"] p e(2,3,4) fr(1)
    by (simp add: remove_entry_def blank_def)
qed

lemma remove_entry_joined:
  assumes "laid_out buf 0 (xs @ p # e # es)" "\<forall>x \<in> set xs. wf_entry x" "length buf \<le> 1024"
  defines "o1 \<equiv> ext xs" and "o2 \<equiv> ext xs + unat (de_rec_len p)"
  obtains buf' where "remove_entry buf e o2 o1 = Ok buf'" "length buf' = length buf"
    "laid_out buf' 0 (xs @ joined p e # es)"
proof -
  have part: "laid_part buf 0 xs" and p: "laid_out buf o1 (p # e # es)"
    using assms(1) by (simp_all add: laid_out_append o1_def del: laid_out.simps)
  note p1 = laid_out_at [OF p] and e1 = laid_out_at [OF laid_out_at(5) [OF p]]
  obtain pp where pp: "partial_at buf o1 = Ok pp" "dp_inode pp = de_inode p" "dp_rec_len pp = de_rec_len p"
      "to_le (dp_name_len pp) = [buf ! (o1 + 6), buf ! (o1 + 7)]"
    using partial_at_entry [OF p1(1,2)] by metis
  obtain pe where pe: "partial_at buf o2 = Ok pe" "dp_rec_len pe = de_rec_len e"
    using partial_at_entry [OF e1(1,2)] by (metis o1_def o2_def)
  let ?p = "pp \<lparr> dp_rec_len := dp_rec_len pp + dp_rec_len pe \<rparr>"
  let ?b = "put_partial buf o1 ?p"
  note fr = put_partial_frame [OF p1(2), of ?p]
  have sum: "unat (de_rec_len p + de_rec_len e) = unat (de_rec_len p) + unat (de_rec_len e)"
    using e1(4) assms(3) by (simp add: unat_word_ariths)
  have "read_dir_entry ?b o1 = Ok (joined p e, unat (de_rec_len (joined p e)))"
    using p1(1,2) pp pe(2)
    by (subst read_put_partial [where n = "buf ! (o1 + 6)" and t = "buf ! (o1 + 7)"])
      (auto simp: read_dir_entry_iff joined_def name_len_at_def)
  moreover have "laid_out ?b (o1 + unat (de_rec_len p) + unat (de_rec_len e)) es"
    using laid_out_after [OF e1(5) fr(1,3)] p1(3) by simp
  moreover have "laid_part ?b 0 xs"
    using laid_part_before [OF part assms(2) fr(1,2)] p1(2) by (simp add: o1_def)
  ultimately have "laid_out ?b 0 (xs @ joined p e # es)"
    using sum p1(3) e1(4) fr(1) by (simp add: laid_out_append joined_def add.assoc flip: o1_def)
  then show ?thesis
    using that [of ?b] pp(1) pe(1) p1(3) fr(1) by (simp add: remove_entry_def o2_def flip: o1_def)
qed

text \<open>The search that deletes, up to the entry it hits.\<close>

lemma find_in_block_loop_delete:
  assumes "laid_out buf off (xs @ e # ys)" "length buf = 1024" "\<forall>x \<in> set xs. \<not> matches name x" "matches name e"
    and "length xs < n" "1024 - off \<le> unat remaining"
  shows "\<exists>rem. find_in_block_loop n fs 1024 name lba True False buf (of_nat off) this prev remaining s =
    bind (lift_res (remove_entry buf e (this + ext xs) (if xs = [] then prev else this + ext (butlast xs)))) (\<lambda>buf.
    bind (write_sectors (io_handler fs) buf lba) (\<lambda>_.
    ret (Some (uint (de_inode e)), rem = 0, buf, rem))) s"
  using assms
proof (induction xs arbitrary: off n this prev remaining)
  case Nil
  then obtain m where n: "n = Suc m" by (cases n) auto
  have e: "read_dir_entry buf off = Ok (e, unat (de_rec_len e))" "off + unat (de_rec_len e) \<le> 1024" "0 < unat (de_rec_len e)"
    using Nil.prems(1,2) by auto
  from Nil.prems(4) show ?case
    by (intro exI [of _ "remaining - of_nat (unat (de_rec_len e))"])
      (simp add: n find_in_block_loop_entry [OF e] Let_def bind_assoc lift_res_def del: find_in_block_loop.simps)
next
  case (Cons x xs)
  let ?r = "unat (de_rec_len x)" and ?rem = "remaining - of_nat (unat (de_rec_len x))"
  have x: "read_dir_entry buf off = Ok (x, ?r)" "off + ?r \<le> 1024" "0 < ?r" "laid_out buf (off + ?r) (xs @ e # ys)"
    using Cons.prems(1,2) by auto
  obtain m where n: "n = Suc m" "length xs < m" using Cons.prems(5) by (cases n) auto
  have rem: "unat ?rem = unat remaining - ?r" using x(2) Cons.prems(6) by (intro unat_minus_nat) linarith
  have "0 < ext (xs @ e # ys)" using x(4) by (cases xs) auto
  then have "off + ?r < 1024" using laid_out_ext [OF x(4)] Cons.prems(2) by linarith
  then have "unat ?rem \<noteq> 0" "1024 - (off + ?r) \<le> unat ?rem" using rem Cons.prems(6) by linarith+
  then have nz: "?rem \<noteq> 0" by auto
  have "\<not> matches name x" "\<forall>x \<in> set xs. \<not> matches name x" using Cons.prems(3) by simp_all
  then have eq: "find_in_block_loop n fs 1024 name lba True False buf (of_nat off) this prev remaining s =
      find_in_block_loop m fs 1024 name lba True False buf (of_nat (off + ?r)) (this + ?r) this ?rem s"
    using nz by (simp add: n(1) find_in_block_loop_entry [OF x(1-3)] Let_def del: find_in_block_loop.simps)
  have "(if xs = [] then this else this + ?r + ext (butlast xs)) = this + ext (butlast (x # xs))" by simp
  with Cons.IH [OF x(4) Cons.prems(2) \<open>\<forall>x \<in> set xs. \<not> matches name x\<close> Cons.prems(4) n(2)
      \<open>1024 - (off + ?r) \<le> unat ?rem\<close>, of "this + ?r" this]
  show ?case unfolding eq by (simp add: add.assoc split del: if_split)
qed

lemma drop_after_split:
  assumes "\<forall>x \<in> set zs. \<not> matches name x" "\<not> matches name p" "matches name e"
  shows "drop_after name z (zs @ p # e # ys) = z # zs @ joined p e # ys"
  using assms by (induction zs arbitrary: z) simp_all

lemma drop_match_first: "matches name e \<Longrightarrow> drop_match name (e # ys) = blank e # ys"
  by simp

lemma drop_match_joined:
  assumes "\<forall>x \<in> set zs. \<not> matches name x" "\<not> matches name p" "matches name e"
  shows "drop_match name (zs @ p # e # ys) = zs @ joined p e # ys"
  using assms drop_after_split [of "tl zs" name p e "hd zs" ys] by (cases zs) simp_all

lemma drop_match_none: "\<forall>x \<in> set es. \<not> matches name x \<Longrightarrow> drop_match name es = es"
proof (cases es)
  case (Cons e rest)
  have "drop_after name p es = p # es" if "\<forall>x \<in> set es. \<not> matches name x" for p es
    using that by (induction es arbitrary: p) simp_all
  with Cons show "\<forall>x \<in> set es. \<not> matches name x \<Longrightarrow> drop_match name es = es" by simp
qed simp

lemma remove_match:
  assumes "laid_out buf 0 (xs @ e # ys)" "\<forall>x \<in> set xs. wf_entry x \<and> \<not> matches name x" "wf_entry e" "matches name e"
    and "length buf \<le> 1024"
  obtains buf' where "remove_entry buf e (ext xs) (if xs = [] then 0 else ext (butlast xs)) = Ok buf'"
    "length buf' = length buf" "laid_out buf' 0 (drop_match name (xs @ e # ys))"
proof (cases xs rule: rev_cases)
  case Nil
  obtain buf' where "remove_entry buf e 0 0 = Ok buf'" "length buf' = length buf" "laid_out buf' 0 (blank e # ys)"
    using remove_entry_first [of buf e ys thesis] assms(1,3) Nil by (metis append_Nil remove_entry_first)
  then show ?thesis using that [of buf'] Nil assms(4) by simp
next
  case (snoc zs p)
  have dm: "drop_match name (zs @ p # e # ys) = zs @ joined p e # ys"
    using assms(2,4) snoc by (intro drop_match_joined) simp_all
  obtain buf' where "remove_entry buf e (ext zs + unat (de_rec_len p)) (ext zs) = Ok buf'" "length buf' = length buf"
      "laid_out buf' 0 (zs @ joined p e # ys)"
    using remove_entry_joined [of buf zs p e ys] assms(1,2,5) snoc by auto
  then show ?thesis using that [of buf'] snoc dm by simp
qed

section \<open>The entries as a map from names\<close>

lemma matches_joined [simp]: "matches name (joined p e) = matches name p"
    "de_inode (joined p e) = de_inode p"
  by (simp_all add: matches_def joined_def)

lemma matches_blank [simp]: "\<not> matches name (blank e)"
  by (simp add: matches_def blank_def)

lemma matches_unique: "matches name e \<Longrightarrow> matches m e \<Longrightarrow> m = name"
  by (simp add: matches_def)

lemma dir_lookup_drop_after:
  "\<not> matches name p \<Longrightarrow> dir_lookup m (drop_after name p es) =
    (if m = name then dir_lookup name (tl (dropWhile (\<lambda>e. \<not> matches name e) es)) else dir_lookup m (p # es))"
  by (induction es arbitrary: p) (auto simp: dir_lookup_Cons dest: matches_unique)

text \<open>After removing the first entry of a name the lookup sees the entries behind it.\<close>

lemma dir_lookup_drop_match:
  "dir_lookup m (drop_match name es) =
    (if m = name then dir_lookup name (tl (dropWhile (\<lambda>e. \<not> matches name e) es)) else dir_lookup m es)"
  by (cases es) (auto simp: dir_lookup_Cons dir_lookup_drop_after dest: matches_unique)

definition live_names :: "DirEntry list \<Rightarrow> string list" where
  "live_names es = map de_name (filter (\<lambda>e. matches (de_name e) e) es)"

definition dir_ok :: "DirEntry list \<Rightarrow> bool" where
  "dir_ok es \<longleftrightarrow> (\<forall>e \<in> set es. wf_entry e) \<and> distinct (live_names es) \<and> ext es \<le> 1024"

lemma live_names_simps [simp]: "live_names [] = []"
    "live_names (e # es) = (if matches (de_name e) e then de_name e # live_names es else live_names es)"
    "live_names (xs @ ys) = live_names xs @ live_names ys"
  by (simp_all add: live_names_def)

lemma matches_live: "matches name e \<Longrightarrow> matches (de_name e) e \<and> de_name e = name"
  by (simp add: matches_def)

lemma dir_lookup_None: "dir_lookup name es = None \<longleftrightarrow> name \<notin> set (live_names es)"
  by (induction es) (auto simp: dir_lookup_Cons matches_def)

lemma dir_lookup_drop_match_same:
  assumes "distinct (live_names es)"
  shows "dir_lookup name (drop_match name es) = None"
proof (cases "dropWhile (\<lambda>e. \<not> matches name e) es")
  case Nil
  then show ?thesis by (simp only: dir_lookup_drop_match list.sel dir_lookup_Nil if_True simp_thms)
next
  case (Cons e rest)
  then have "es = takeWhile (\<lambda>e. \<not> matches name e) es @ e # rest" by (metis takeWhile_dropWhile_id)
  moreover have "matches name e" using Cons by (metis hd_dropWhile list.distinct(1) list.sel(1))
  ultimately have "name \<notin> set (live_names rest)"
    using assms matches_live [of name e] by (metis distinct.simps(2) distinct_append live_names_simps(2,3))
  then show ?thesis using Cons by (simp add: dir_lookup_drop_match dir_lookup_None)
qed

lemma split_match:
  obtains "\<forall>x \<in> set es. \<not> matches name x"
  | e ys where "es = e # ys" "matches name e"
  | zs p e ys where "es = zs @ p # e # ys" "\<forall>x \<in> set zs. \<not> matches name x" "\<not> matches name p" "matches name e"
proof (cases "\<exists>x \<in> set es. matches name x")
  case True
  then obtain xs e ys where es: "es = xs @ e # ys" "matches name e" "\<forall>x \<in> set xs. \<not> matches name x"
    using split_list_first_prop by metis
  then show ?thesis using that(2,3) by (cases xs rule: rev_cases) auto
qed (use that(1) in blast)

lemma unat_add_ext: "unat (r :: u16) + unat q \<le> 1024 \<Longrightarrow> unat (r + q) = unat r + unat q"
  by (simp add: unat_word_ariths)

lemma dir_ok_drop_match:
  assumes "dir_ok es"
  shows "dir_ok (drop_match name es)"
proof (rule split_match [of es name])
  assume "\<forall>x \<in> set es. \<not> matches name x"
  then show ?thesis using assms by (simp add: drop_match_none)
next
  fix e ys assume "es = e # ys" "matches name e"
  then show ?thesis using assms by (auto simp: dir_ok_def wf_entry_def blank_def ascii_def matches_def)
next
  fix zs p e ys
  assume es: "es = zs @ p # e # ys" "\<forall>x \<in> set zs. \<not> matches name x" "\<not> matches name p" "matches name e"
  have "wf_entry p" "wf_entry e" "unat (de_rec_len p) + unat (de_rec_len e) \<le> 1024"
    using assms es(1) by (auto simp: dir_ok_def)
  then have "wf_entry (joined p e)" "unat (de_rec_len (joined p e)) = unat (de_rec_len p) + unat (de_rec_len e)"
    using unat_add_ext by (auto simp: wf_entry_def joined_def)
  moreover have "de_name (joined p e) = de_name p" by (simp add: joined_def)
  ultimately show ?thesis
    using assms es by (auto simp: dir_ok_def drop_match_joined split: if_splits)
qed

section \<open>Inserting an entry\<close>

definition shrunk :: "DirEntry \<Rightarrow> DirEntry" where
  "shrunk p = p \<lparr> de_rec_len := of_nat (need (length (de_name p))) \<rparr>"

definition filling :: "DirEntry \<Rightarrow> DirEntry \<Rightarrow> DirEntry" where
  "filling new p = new \<lparr> de_rec_len := de_rec_len p - of_nat (need (length (de_name p))) \<rparr>"

definition fits :: "DirEntry \<Rightarrow> DirEntry \<Rightarrow> bool" where
  "fits new p \<longleftrightarrow> need (length (de_name new)) + need (length (de_name p)) \<le> unat (de_rec_len p)"

fun insert_entry :: "DirEntry \<Rightarrow> DirEntry list \<Rightarrow> DirEntry list option" where
  "insert_entry new [] = None"
| "insert_entry new (p # es) =
    (if fits new p then Some (shrunk p # filling new p # es)
     else map_option ((#) p) (insert_entry new es))"

lemma unat_need: "n \<le> 255 \<Longrightarrow> unat (of_nat (need n) :: u16) = need n"
  using need_bounds(2) [of n] by (simp add: unat_of_nat)

lemma partial_min_reclen:
  assumes "read_dir_entry buf off = Ok (p, r)" "off + 8 \<le> length buf" "wf_entry p" "partial_at buf off = Ok pp"
  shows "dp_rec_len pp = de_rec_len p" "dp_inode pp = de_inode p" "min_reclen pp = of_nat (need (length (de_name p)))"
    "to_le (dp_name_len pp) = [of_nat (length (de_name p)), 0]"
proof -
  obtain q where q: "partial_at buf off = Ok q" "dp_inode q = de_inode p" "dp_rec_len q = de_rec_len p"
      "to_le (dp_name_len q) = [buf ! (off + 6), buf ! (off + 7)]"
    using partial_at_entry [OF assms(1,2)] by metis
  have nm: "read_name (drop (off + 8) buf) (unat (buf ! (off + 6))) = Ok (de_name p)" "buf ! (off + 7) = 0"
    using assms(1-3) by (simp_all add: read_dir_entry_iff name_len_at_def wf_entry_def)
  have len: "unat (buf ! (off + 6)) = length (de_name p)"
    using read_name_ascii_length [OF nm(1)] assms(3) by (simp add: wf_entry_def)
  then have b: "buf ! (off + 6) = of_nat (length (de_name p))" by (simp flip: len)
  show "dp_rec_len pp = de_rec_len p" "dp_inode pp = de_inode p" "to_le (dp_name_len pp) = [of_nat (length (de_name p)), 0]"
    using q assms(4) nm(2) b by auto
  have "dp_name_len q = from_le [buf ! (off + 6), 0]" 
    using arg_cong [OF q(4), of "from_le :: bytes \<Rightarrow> u16"] nm(2) by simp
  then have "unat (dp_name_len q) = length (de_name p)"
    using len assms(3) by (simp add: from_le_def unat_of_nat wf_entry_def)
  then have "unat (8 + dp_name_len q + 3) = length (de_name p) + 11"
    using assms(3) by (simp add: unat_word_ariths wf_entry_def)
  then have m: "unat (min_reclen q) = need (length (de_name p))"
    unfolding min_reclen_def need_def by (simp only: unat_align_4)
  have "min_reclen q = of_nat (need (length (de_name p)))" by (simp flip: m)
  then show "min_reclen pp = of_nat (need (length (de_name p)))" using q(1) assms(4) by simp
qed

text \<open>Fields of an entry that is to be added; its record length is overwritten.\<close>

definition new_ok :: "DirEntry \<Rightarrow> bool" where
  "new_ok e \<longleftrightarrow> de_file_type e = 0 \<and> ascii (de_name e) \<and> length (de_name e) \<le> 255"

lemma filling_length:
  assumes "fits new p" "new_ok new" "wf_entry p"
  shows "unat (de_rec_len (filling new p)) = unat (de_rec_len p) - need (length (de_name p))"
    "record_length (filling new p) = de_rec_len (filling new p)" "wf_entry (filling new p)" "wf_entry (shrunk p)"
    "unat (de_rec_len (shrunk p)) = need (length (de_name p))"
proof -
  let ?m = "need (length (de_name p))" and ?n = "need (length (de_name new))"
  have m: "unat (of_nat ?m :: u16) = ?m" using assms(3) by (intro unat_need) (simp add: wf_entry_def)
  have n: "unat (of_nat ?n :: u16) = ?n" using assms(2) by (intro unat_need) (simp add: new_ok_def)
  have le: "?n + ?m \<le> unat (de_rec_len p)" using assms(1) by (simp add: fits_def)
  then show len: "unat (de_rec_len (filling new p)) = unat (de_rec_len p) - ?m"
    using m by (simp add: filling_def unat_sub word_le_nat_alt)
  have "of_nat ?n \<le> de_rec_len (filling new p)" using le by (simp only: word_le_nat_alt n len)
  then show "record_length (filling new p) = de_rec_len (filling new p)"
    using assms(2) by (subst record_length_need) (simp_all add: filling_def new_ok_def)
  have "4 dvd unat (de_rec_len p) - ?m" using assms(3) need_bounds(3) by (simp add: wf_entry_def)
  then show "wf_entry (filling new p)"
    using len le need_bounds(1) [of "length (de_name new)"] assms(2) by (auto simp: wf_entry_def filling_def new_ok_def)
  show "unat (de_rec_len (shrunk p)) = ?m" using m by (simp add: shrunk_def)
  then show "wf_entry (shrunk p)"
    using assms(3) need_bounds by (simp add: wf_entry_def shrunk_def)
qed

lemma shrink_entry:
  assumes "laid_out buf 0 (xs @ p # ys)" "\<forall>x \<in> set xs. wf_entry x" "wf_entry p"
    and "partial_at buf (ext xs) = Ok pp"
  defines "b1 \<equiv> put_partial buf (ext xs) (pp \<lparr> dp_rec_len := min_reclen pp \<rparr>)"
  shows "laid_part b1 0 (xs @ [shrunk p])" "length b1 = length buf"
    "drop (ext xs + 8) b1 = drop (ext xs + 8) buf"
proof -
  let ?m = "need (length (de_name p))"
  have part: "laid_part buf 0 xs" and p: "laid_out buf (ext xs) (p # ys)"
    using assms(1) by (simp_all add: laid_out_append del: laid_out.simps)
  note p1 = laid_out_at [OF p] and q = partial_min_reclen [OF laid_out_at(1,2) [OF p] assms(3,4)]
  note fr = put_partial_frame [OF p1(2), of "pp \<lparr> dp_rec_len := min_reclen pp \<rparr>", folded b1_def]
  have m: "unat (of_nat ?m :: u16) = ?m" using assms(3) by (intro unat_need) (simp add: wf_entry_def)
  have nm: "read_name (drop (ext xs + 8) buf) (length (de_name p)) = Ok (de_name p)"
    using p1(1,2) read_name_ascii_length [of "drop (ext xs + 8) buf" "name_len_at buf (ext xs)" "de_name p"] assms(3)
    by (auto simp: read_dir_entry_iff wf_entry_def)
  have "unat (word_of_nat (length (de_name p)) :: u8) = length (de_name p)"
    using assms(3) by (simp add: wf_entry_def unat_of_nat)
  then have "read_dir_entry b1 (ext xs) = Ok (shrunk p, ?m)"
    unfolding b1_def using q nm m p1(2) assms(3)
    by (subst read_put_partial [where n = "of_nat (length (de_name p))" and t = 0])
      (simp_all add: shrunk_def wf_entry_def)
  moreover have "laid_part b1 0 xs"
    using laid_part_before [OF part assms(2) fr(1,2)] p1(2) by simp
  moreover have "?m \<le> unat (de_rec_len p)" "8 \<le> ?m"
    using assms(3) need_bounds(1) [of "length (de_name p)"] by (auto simp: wf_entry_def intro: need_le)
  ultimately show "laid_part b1 0 (xs @ [shrunk p])"
    using p1(4) fr(1) m by (simp add: laid_part_append shrunk_def)
qed (use assms put_partial_frame [of "ext xs" buf] laid_out_at(2) [of buf "ext xs" p ys] in
    \<open>auto simp: laid_out_append b1_def\<close>)

lemma split_entry_ok:
  assumes "laid_out buf 0 (xs @ p # ys)" "\<forall>x \<in> set xs. wf_entry x" "wf_entry p" "fits new p" "new_ok new"
    and "partial_at buf (ext xs) = Ok pp"
  obtains buf' where "split_entry buf (ext xs) pp new = Ok buf'" "length buf' = length buf"
    "laid_out buf' 0 (xs @ shrunk p # filling new p # ys)"
proof -
  let ?m = "need (length (de_name p))" and ?n = "length (de_name new)"
  define b1 where "b1 = put_partial buf (ext xs) (pp \<lparr> dp_rec_len := min_reclen pp \<rparr>)"
  note s1 = shrink_entry [OF assms(1-3,6), folded b1_def] and fl = filling_length [OF assms(4,5,3)]
  have p: "laid_out buf (ext xs) (p # ys)" using assms(1) by (simp add: laid_out_append)
  note p1 = laid_out_at [OF p] and q = partial_min_reclen [OF laid_out_at(1,2) [OF p] assms(3,6)]
  let ?f = "filling new p" and ?k = "ext xs + ?m"
  have m: "unat (min_reclen pp) = ?m" using q(3) fl(5) by (simp add: shrunk_def)
  have le: "?n + 8 + ?m \<le> unat (de_rec_len p)" "8 \<le> ?m"
    using assms(4) need_bounds(1) [of ?n] need_bounds(1) [of "length (de_name p)"] by (auto simp: fits_def)
  then have room: "?k + 8 + ?n \<le> length b1" using p1(4) s1(2) by simp
  define b2 where "b2 = take ?k b1 @ dir_entry_image ?f @ drop (?k + 8 + ?n) b1"
  have nm: "de_name ?f = de_name new" by (simp add: filling_def)
  have fe: "new \<lparr> de_rec_len := dp_rec_len pp - min_reclen pp \<rparr> = ?f" using q(1,3) by (simp add: filling_def)
  have ser: "split_entry buf (ext xs) pp new = Ok b2"
    unfolding split_entry_def m b1_def [symmetric] fe using room assms(5) nm
    by (simp add: serialize_tail_def serialize_dir_entry_ok new_ok_def b2_def ac_simps)
  have len: "length b2 = length b1" using room by (simp add: b2_def nm)
  have "take ?k b2 = take ?k b1" using room by (simp add: b2_def)
  then have "laid_part b2 0 (xs @ [shrunk p])"
    using laid_part_before [OF s1(1) _ len] assms(2) fl(4,5) room by simp
  moreover have "read_dir_entry b2 ?k = Ok (?f, unat (de_rec_len ?f))"
    using room len fl(2) assms(5) nm
    by (simp add: read_dir_entry_def b2_def deserialize_dir_entry_image new_ok_def)
  moreover have "laid_out b2 (ext xs + unat (de_rec_len p)) ys"
  proof -
    have "drop (?k + 8 + ?n) b2 = drop (?k + 8 + ?n) b1" using room by (simp add: b2_def nm)
    also have "\<dots> = drop (?k + 8 + ?n) buf" by (rule drop_more [OF s1(3)]) simp
    finally show ?thesis using laid_out_after [OF p1(5)] len s1(2) le(1) by simp
  qed
  ultimately have "laid_out b2 0 (xs @ shrunk p # ?f # ys)"
    using fl(1,5) le p1(4) len s1(2) by (simp add: laid_out_append laid_part_append add.assoc)
  then show ?thesis using that ser len s1(2) by simp
qed

text \<open>The placement in a block: nothing happens without a large enough record, otherwise the block
  is written once, with the entry split off the first such record.\<close>

lemma place_in_block_loop_spec:
  assumes "laid_out buf 0 (xs @ es)" "length buf = 1024" "\<forall>x \<in> set (xs @ es). wf_entry x" "length es < n"
    and "new_ok new" "de_rec_len new \<le> of_nat (need (length (de_name new)))"
  shows "case insert_entry new es of
      None \<Rightarrow> place_in_block_loop n fs 1024 idx new buf (ext xs) s = (Ok False, s)
    | Some es' \<Rightarrow> \<exists>buf'. length buf' = 1024 \<and> laid_out buf' 0 (xs @ es') \<and>
        place_in_block_loop n fs 1024 idx new buf (ext xs) s =
          bind (write_block (io_handler fs) buf' idx) (\<lambda>_. ret True) s"
  using assms
proof (induction es arbitrary: xs n)
  case Nil
  then have "ext xs = 1024" by (metis append_Nil2 add_0 laid_out_ext)
  then show ?case using Nil by (cases n) simp_all
next
  case (Cons p es)
  obtain m where n: "n = Suc m" "length es < m" using Cons.prems(4) by (cases n) auto
  have wf: "wf_entry p" "\<forall>x \<in> set xs. wf_entry x" using Cons.prems(3) by simp_all
  have p: "laid_out buf (ext xs) (p # es)" using Cons.prems(1) by (simp add: laid_out_append)
  note p1 = laid_out_at [OF p]
  obtain pp where pp: "partial_at buf (ext xs) = Ok pp" using partial_at_entry [OF p1(1,2)] by metis
  note q = partial_min_reclen [OF p1(1,2) wf(1) pp]
  let ?m = "need (length (de_name p))" and ?n = "need (length (de_name new))"
  have m: "unat (of_nat ?m :: u16) = ?m" "?m \<le> unat (de_rec_len p)" and nn: "unat (of_nat ?n :: u16) = ?n"
    using wf(1) Cons.prems(5) by (auto simp: wf_entry_def new_ok_def unat_need intro: need_le)
  have lim: "\<not> 1024 < dp_rec_len pp + word_of_nat (ext xs)"
    using p1(4) Cons.prems(2) q(1) by (simp add: word_less_nat_alt unat_word_ariths unat_of_nat)
  have "record_length new = of_nat ?n"
    using Cons.prems(5,6) by (simp add: record_length_need new_ok_def max_def)
  then have fit: "record_length new \<le> dp_rec_len pp - min_reclen pp \<longleftrightarrow> fits new p"
    using m nn q(1,3) by (auto simp: fits_def word_le_nat_alt unat_sub)
  note step = place_in_block_loop.simps(2) [of m fs 1024 idx new buf "ext xs"]
  show ?case
  proof (cases "fits new p")
    case True
    obtain buf' where "split_entry buf (ext xs) pp new = Ok buf'" "length buf' = length buf"
        "laid_out buf' 0 (xs @ shrunk p # filling new p # es)"
      using split_entry_ok [OF Cons.prems(1) wf(2,1) True Cons.prems(5) pp] by metis
    then show ?thesis
      using True fit lim pp p1(2) Cons.prems(2) by (auto simp: n(1) bind_def)
  next
    case False
    have "ext (xs @ [p]) = ext xs + unat (dp_rec_len pp)" by (simp add: q(1))
    then have "place_in_block_loop n fs 1024 idx new buf (ext xs) s =
        place_in_block_loop m fs 1024 idx new buf (ext (xs @ [p])) s"
      using False fit lim pp p1(2) Cons.prems(2) by (simp add: n(1) bind_def)
    then show ?thesis
      using Cons.IH [of "xs @ [p]" m] Cons.prems(1-3,5,6) n(2) False by (cases "insert_entry new es") simp_all
  qed
qed

end
