(* ===== verification/Ext2DirDisk.thy ===== *)
theory Ext2DirDisk
  imports Ext2DirSpec
begin

text \<open>
  The directory operations on the disk (\<^verbatim>\<open>find_entry_by_name\<close>,
  \<^verbatim>\<open>find_entry_by_name_and_delete\<close>, \<^verbatim>\<open>is_dir_empty\<close> of \<^verbatim>\<open>open.rs\<close> and \<^verbatim>\<open>add_dir_entry\<close> of
  \<^verbatim>\<open>dirs.rs\<close>): on a directory of up to twelve blocks each writes at most one
  block and acts on the map from names to inode numbers as its name says.
\<close>

section \<open>A directory in its direct blocks\<close>

definition entries :: "(nat \<Rightarrow> DirEntry list) \<Rightarrow> nat \<Rightarrow> DirEntry list" where
  "entries es k = concat (map es [0..<k])"

definition direct_dir :: "(int \<Rightarrow> u8) \<Rightarrow> u32 list \<Rightarrow> nat \<Rightarrow> (nat \<Rightarrow> DirEntry list) \<Rightarrow> bool" where
  "direct_dir f blocks k es \<longleftrightarrow> k \<le> 12 \<and> length blocks = 15 \<and> distinct (take k blocks) \<and>
     (\<forall>j < k. laid_out (block_at f (blocks ! j)) 0 (es j) \<and> blocks ! j \<noteq> 0 \<and> (\<forall>e \<in> set (es j). wf_entry e)) \<and>
     distinct (live_names (entries es k))"

lemma direct_dir_blocks: "direct_dir f blocks k es \<Longrightarrow> dir_blocks f blocks k es"
  by (auto simp: direct_dir_def dir_blocks_def file_block_def block_content_def)

lemma direct_dir_block:
  assumes "direct_dir f blocks k es" "j < k"
  shows "file_block f blocks j = blocks ! j" "block_content f (blocks ! j) = block_at f (blocks ! j)"
    "laid_out (block_at f (blocks ! j)) 0 (es j)" "blocks ! j \<noteq> 0" "\<forall>e \<in> set (es j). wf_entry e"
  using assms by (auto simp: direct_dir_def file_block_def block_content_def)

lemma block_at_patch:
  assumes "length b = 1024"
  shows "block_at (patch f (uint x * 1024) b) y = (if y = x then b else block_at f y)"
proof -
  have "uint y < uint x \<or> uint x < uint y" if "y \<noteq> x" using that by (metis linorder_cases word_uint_eqI)
  then show ?thesis using assms by (auto simp: block_at_def dump_patch_same intro: dump_patch_disjoint)
qed

lemma entries_split: "j < k \<Longrightarrow> entries es k = entries es j @ es j @ concat (map es [Suc j..<k])"
  using upt_add_eq_append [of 0 j "k - j"] upt_conv_Cons [of j k] by (simp add: entries_def)

lemma entries_upd: "j < k \<Longrightarrow> entries (es(j := xs)) k = entries es j @ xs @ concat (map es [Suc j..<k])"
  by (simp add: entries_split) (simp add: entries_def)

lemma in_live_names: "name \<in> set (live_names xs) \<longleftrightarrow> (\<exists>e \<in> set xs. matches name e)"
  by (induction xs) (auto simp: matches_def)

lemma direct_dir_update:
  assumes "direct_dir f blocks k es" "j < k" "length b = 1024" "laid_out b 0 xs" "\<forall>e \<in> set xs. wf_entry e"
    and "distinct (live_names (entries (es(j := xs)) k))"
  shows "direct_dir (patch f (uint (blocks ! j) * 1024) b) blocks k (es(j := xs))"
proof -
  have "blocks ! i \<noteq> blocks ! j" if "i < k" "i \<noteq> j" for i
    using assms(1,2) that nth_eq_iff_index_eq [of "take k blocks" i j] by (simp add: direct_dir_def)
  then show ?thesis using assms by (simp add: direct_dir_def block_at_patch)
qed

text \<open>The first block that holds a name, or that a function on entry lists is defined on.\<close>

lemma first_block:
  assumes "P j" "j < (k :: nat)"
  obtains i where "P i" "i < k" "\<forall>l < i. \<not> P l"
proof
  show "P (LEAST i. P i)" by (rule LeastI [of P, OF assms(1)])
  show "(LEAST i. P i) < k" using Least_le [of P, OF assms(1)] assms(2) by simp
  show "\<forall>l < (LEAST i. P i). \<not> P l" using not_less_Least by auto
qed

lemma dir_lookup_entries_None: "dir_lookup name (entries es k) = None \<longleftrightarrow> (\<forall>j < k. dir_lookup name (es j) = None)"
  by (auto simp: dir_lookup_None entries_def in_live_names)

lemma dir_lookup_entries_first:
  assumes "j < k" "\<forall>i < j. dir_lookup name (es i) = None" "dir_lookup name (es j) = Some ino"
  shows "dir_lookup name (entries es k) = Some ino"
  using assms(2) dir_lookup_entries_None [of name es j]
  by (simp add: entries_split [OF assms(1)] dir_lookup_append assms(3))

lemma direct_dir_entries_ok:
  assumes "direct_dir f blocks k es" "j < k"
  shows "dir_ok (es j)"
proof -
  have "distinct (live_names (entries es k))" using assms(1) by (simp add: direct_dir_def)
  then have "distinct (live_names (es j))" by (simp add: entries_split [OF assms(2)])
  moreover have "ext (es j) \<le> 1024" using laid_out_ext [OF direct_dir_block(3) [OF assms]] by simp
  ultimately show ?thesis using direct_dir_block(5) [OF assms] by (simp add: dir_ok_def)
qed

section \<open>Deleting\<close>

lemma lookup_match_split:
  assumes "dir_lookup name es = Some ino"
  obtains xs e ys where "es = xs @ e # ys" "\<forall>x \<in> set xs. \<not> matches name x" "matches name e" "ino = uint (de_inode e)"
proof -
  have "\<exists>x \<in> set es. matches name x" using assms by (auto simp: dir_lookup_def find_Some_iff)
  then obtain xs e ys where es: "es = xs @ e # ys" "matches name e" "\<forall>x \<in> set xs. \<not> matches name x"
    using split_list_first_prop by metis
  moreover have "dir_lookup name xs = None" using es(3) by (auto simp: dir_lookup_None in_live_names)
  ultimately show ?thesis using assms that by (simp add: dir_lookup_append dir_lookup_Cons)
qed

lemma find_entry_by_name_in_block_delete:
  assumes "part_ok (io_handler fs) s" "in_reach (io_handler fs) lba" "block_size (super_block s) = 1024"
    and "laid_out buf 0 es" "length buf = 1024" "1024 \<le> unat remaining" "\<forall>e \<in> set es. wf_entry e"
    and "dir_lookup name es = Some ino"
  obtains buf' t rem where "find_entry_by_name_in_block fs name buf lba True False remaining s =
      (Ok (Some ino, t, buf', rem), set_part (io_handler fs) (patch (part (io_handler fs) s) (512 * lba) buf') s)"
    "length buf' = 1024" "laid_out buf' 0 (drop_match name es)"
proof -
  obtain xs e ys where es: "es = xs @ e # ys" "\<forall>x \<in> set xs. \<not> matches name x" "matches name e" "ino = uint (de_inode e)"
    using lookup_match_split [OF assms(8)] by metis
  obtain buf' where buf': "remove_entry buf e (ext xs) (if xs = [] then 0 else ext (butlast xs)) = Ok buf'"
      "length buf' = length buf" "laid_out buf' 0 (drop_match name es)"
    using remove_match [of buf xs e ys name] assms(4,5,7) es by auto
  have "length xs < 1025" using laid_out_length [OF assms(4)] assms(5) es(1) by simp
  then obtain rem where "find_in_block_loop 1025 fs 1024 name lba True False buf (of_nat 0) 0 0 remaining s =
      bind (lift_res (remove_entry buf e (ext xs) (if xs = [] then 0 else ext (butlast xs)))) (\<lambda>buf.
      bind (write_sectors (io_handler fs) buf lba) (\<lambda>_.
      ret (Some (uint (de_inode e)), rem = 0, buf, rem))) s"
    using find_in_block_loop_delete [of buf 0 xs e ys name 1025 remaining fs lba 0 0 s, unfolded add_0] assms(4,5,6) es
    by (auto simp del: find_in_block_loop.simps split del: if_split)
  then have "find_entry_by_name_in_block fs name buf lba True False remaining s =
      (Ok (Some ino, rem = 0, buf', rem), set_part (io_handler fs) (patch (part (io_handler fs) s) (512 * lba) buf') s)"
    using buf'(1,2) assms(1-3,5) es(4)
    by (simp add: find_entry_by_name_in_block_def bind_def partition.wr_ok
        del: find_in_block_loop.simps split del: if_split)
  with buf'(2,3) assms(5) show ?thesis by (intro that) simp_all
qed

lemma in_reach_block: "part_ok io s \<Longrightarrow> in_reach io (block_idx_to_lba 1024 b)"
  using block_idx_to_lba_eq(2,3) [OF sane_1024, of b] by (auto simp: in_reach_def part_ok_def)

lemma find_blocks_loop_delete:
  assumes "part_ok (io_handler fs) s" "block_size (super_block s) = 1024" "fs_block_size fs = 1024"
    and "iter_ok it f" "it_io_handler it = io_handler fs" "it_blocks it = blocks" "length buf = 1024"
    and "blocks_limit it = k" "n = k - cur_idx it" "f = part (io_handler fs) s" "direct_dir f blocks k es"
    and "unat remaining = n * 1024" "cur_idx it \<le> j" "j < k" "\<forall>i \<in> {cur_idx it..<j}. dir_lookup name (es i) = None"
    and "dir_lookup name (es j) = Some ino"
  shows "\<exists>buf'. find_blocks_loop n fs name True False it buf remaining s =
      (Ok (Some ino), set_part (io_handler fs) (patch f (uint (blocks ! j) * 1024) buf') s) \<and>
    length buf' = 1024 \<and> laid_out buf' 0 (drop_match name (es j))"
  using assms
proof (induction n arbitrary: it buf remaining)
  case 0
  then show ?case by simp
next
  case (Suc n)
  let ?c = "cur_idx it"
  have c: "?c < k" "k \<le> 12" "?c \<le> j" using Suc.prems by (auto simp: direct_dir_def)
  note blk = direct_dir_block [OF Suc.prems(11) c(1)]
  let ?B = "block_at f (blocks ! ?c)" and ?lba = "block_idx_to_lba 1024 (blocks ! ?c)"
  obtain it' where nx: "iter_next it buf s = (Ok (\<lparr> el_buf = ?B, is_terminated = False, el_block_idx = blocks ! ?c \<rparr>,
      it' \<lparr> cur_idx := Suc ?c \<rparr>), s)" "iter_ok it' f" "same_file it it'"
    using iter_next_ok [of it s buf] Suc.prems(1,4-8,10) c blk by auto
  have rem: "unat remaining = Suc n * 1024" "unat (remaining - 1024) = n * 1024"
    using Suc.prems(12) unat_minus_nat [of 1024 remaining] by simp_all
  show ?case
  proof (cases "?c = j")
    case True
    have l: "512 * ?lba = uint (blocks ! j) * 1024"
      using block_idx_to_lba_eq(1) [OF sane_1024, of "blocks ! j"] True by simp
    have lk: "dir_lookup name (es ?c) = Some ino" and big: "1024 \<le> unat remaining"
      using True Suc.prems(16) rem(1) by simp_all
    obtain buf' t rm where "find_entry_by_name_in_block fs name ?B ?lba True False remaining s =
          (Ok (Some ino, t, buf', rm), set_part (io_handler fs) (patch f (512 * ?lba) buf') s)"
        "length buf' = 1024" "laid_out buf' 0 (drop_match name (es j))"
      using find_entry_by_name_in_block_delete [OF Suc.prems(1) in_reach_block [OF Suc.prems(1)] Suc.prems(2) blk(3)
          length_block_at big blk(5) lk, of "blocks ! ?c"] Suc.prems(10) True by metis
    then show ?thesis using nx(1) l Suc.prems(3) by (auto simp: bind_def)
  next
    case False
    then have none: "dir_lookup name (es ?c) = None" using Suc.prems(15) c(3) by simp
    obtain t where fd: "find_entry_by_name_in_block fs name ?B ?lba True False remaining s =
        (Ok (None, t, ?B, remaining - 1024), s)" "t \<longrightarrow> remaining - 1024 = 0"
      using find_entry_by_name_in_block_spec [OF Suc.prems(2) blk(3) length_block_at, of remaining True name fs ?lba]
        none rem(1) by auto
    have "0 < n" using False c(3) Suc.prems(9,14) by linarith
    then have "\<not> t" using fd(2) rem(2) by auto
    moreover have "\<exists>buf'. find_blocks_loop n fs name True False (it' \<lparr> cur_idx := Suc ?c \<rparr>) ?B (remaining - 1024) s =
        (Ok (Some ino), set_part (io_handler fs) (patch f (uint (blocks ! j) * 1024) buf') s) \<and>
        length buf' = 1024 \<and> laid_out buf' 0 (drop_match name (es j))"
      using Suc.prems nx(2,3) rem(2) False c(3)
      by (intro Suc.IH) (auto simp: same_file_def intro: iter_ok_advance)
    ultimately show ?thesis using nx(1) fd(1) Suc.prems(3) by (simp add: bind_def)
  qed
qed

section \<open>Adding\<close>

lemma insert_entry_split:
  assumes "insert_entry new es = Some es'"
  obtains xs p ys where "es = xs @ p # ys" "fits new p" "es' = xs @ shrunk p # filling new p # ys"
  using assms
proof (induction es arbitrary: es' thesis)
  case (Cons p es)
  show ?case
  proof (cases "fits new p")
    case True
    then show ?thesis using Cons.prems by (metis append_Nil insert_entry.simps(2) option.inject)
  next
    case False
    then obtain zs where zs: "insert_entry new es = Some zs" "es' = p # zs" using Cons.prems(2) by auto
    obtain xs q ys where "es = xs @ q # ys" "fits new q" "zs = xs @ shrunk q # filling new q # ys"
      using Cons.IH [OF _ zs(1)] by metis
    then show ?thesis using Cons.prems(1) [of "p # xs" q ys] zs(2) by simp
  qed
qed simp

lemma matches_shrunk [simp]: "matches name (shrunk p) = matches name p" "de_inode (shrunk p) = de_inode p"
    "de_name (shrunk p) = de_name p"
  by (simp_all add: matches_def shrunk_def)

lemma matches_filling [simp]: "matches name (filling new p) = matches name new" "de_inode (filling new p) = de_inode new"
    "de_name (filling new p) = de_name new"
  by (simp_all add: matches_def filling_def)

lemma insert_entry_effect:
  assumes "insert_entry new es = Some es'" "new_ok new" "\<forall>e \<in> set es. wf_entry e" "matches (de_name new) new"
  shows "\<forall>e \<in> set es'. wf_entry e"
    "\<exists>l r. live_names es = l @ r \<and> live_names es' = l @ de_name new # r"
    "dir_lookup (de_name new) es = None \<Longrightarrow> dir_lookup m es' =
      (if m = de_name new then Some (uint (de_inode new)) else dir_lookup m es)"
proof -
  obtain xs p ys where s: "es = xs @ p # ys" "fits new p" "es' = xs @ shrunk p # filling new p # ys"
    using insert_entry_split [OF assms(1)] by metis
  show "\<forall>e \<in> set es'. wf_entry e" using s filling_length(3,4) [OF s(2) assms(2)] assms(3) by auto
  show "\<exists>l r. live_names es = l @ r \<and> live_names es' = l @ de_name new # r"
    using s(1,3) assms(4)
    by (intro exI [of _ "live_names xs @ live_names [p]"] exI [of _ "live_names ys"]) (simp)
  show "dir_lookup m es' = (if m = de_name new then Some (uint (de_inode new)) else dir_lookup m es)"
    if none: "dir_lookup (de_name new) es = None"
  proof -
    have mm: "matches m new \<longleftrightarrow> m = de_name new" using assms(4) matches_unique by blast
    have "dir_lookup (de_name new) xs = None" "\<not> matches (de_name new) p"
      using none by (auto simp: s(1) dir_lookup_None in_live_names simp del: live_names_simps)
    then show ?thesis
      by (cases "m = de_name new"; cases "dir_lookup m xs") (simp_all add: s(1,3) mm assms(4) dir_lookup_append dir_lookup_Cons)
  qed
qed

lemma place_loop_spec:
  assumes "part_ok (io_handler fs) s" "io_block_size (io_handler fs) = 1024" "new_ok new"
    and "de_rec_len new \<le> of_nat (need (length (de_name new)))"
    and "iter_ok it f" "it_io_handler it = io_handler fs" "it_blocks it = blocks" "length buf = 1024"
    and "blocks_limit it = k" "n = k - cur_idx it" "f = part (io_handler fs) s" "direct_dir f blocks k es"
    and "cur_idx it \<le> j" "j < k" "\<forall>i \<in> {cur_idx it..<j}. insert_entry new (es i) = None"
    and "insert_entry new (es j) = Some es'"
  shows "\<exists>buf' it' b. place_loop n fs 1024 new it buf s =
      (Ok (True, it', b), set_part (io_handler fs) (patch f (uint (blocks ! j) * 1024) buf') s) \<and>
    length buf' = 1024 \<and> laid_out buf' 0 es'"
  using assms
proof (induction n arbitrary: it buf)
  case 0
  then show ?case by simp
next
  case (Suc n)
  let ?c = "cur_idx it"
  have c: "?c < k" "k \<le> 12" "?c \<le> j" using Suc.prems by (auto simp: direct_dir_def)
  note blk = direct_dir_block [OF Suc.prems(12) c(1)]
  let ?B = "block_at f (blocks ! ?c)"
  obtain it' where nx: "iter_next it buf s = (Ok (\<lparr> el_buf = ?B, is_terminated = False, el_block_idx = blocks ! ?c \<rparr>,
      it' \<lparr> cur_idx := Suc ?c \<rparr>), s)" "iter_ok it' f" "same_file it it'"
    using iter_next_ok [of it s buf] Suc.prems(1,5-9,11) c blk by auto
  have len: "length (es ?c) < 1025" using laid_out_length [OF blk(3)] by simp
  note pl = place_in_block_loop_spec [of ?B "[]" "es ?c" 1025 new fs "blocks ! ?c" s, simplified append_Nil ext_simps,
      OF blk(3) length_block_at blk(5) len Suc.prems(3,4)]
  show ?case
  proof (cases "?c = j")
    case True
    then obtain buf' where "length buf' = 1024" "laid_out buf' 0 es'"
        "place_in_block_loop 1025 fs 1024 (blocks ! ?c) new ?B 0 s =
          bind (write_block (io_handler fs) buf' (blocks ! ?c)) (\<lambda>_. ret True) s"
      using pl Suc.prems(16) by (auto simp del: place_in_block_loop.simps)
    then show ?thesis
      using nx(1) write_block_1024 [OF Suc.prems(1,2)] True Suc.prems(11)
      by (auto simp: bind_def simp del: place_in_block_loop.simps)
  next
    case False
    then have none: "insert_entry new (es ?c) = None" using Suc.prems(15) c(3) by simp
    have "\<exists>buf' it'' b. place_loop n fs 1024 new (it' \<lparr> cur_idx := Suc ?c \<rparr>) ?B s =
        (Ok (True, it'', b), set_part (io_handler fs) (patch f (uint (blocks ! j) * 1024) buf') s) \<and>
        length buf' = 1024 \<and> laid_out buf' 0 es'"
      using Suc.prems nx(2,3) False c(3)
      by (intro Suc.IH) (auto simp: same_file_def intro: iter_ok_advance)
    then show ?thesis
      using nx(1) pl none by (simp add: bind_def del: place_in_block_loop.simps)
  qed
qed

section \<open>A directory of a mounted file system\<close>

definition mounted_dir :: "Ext2Fs \<Rightarrow> InodePlus \<Rightarrow> ext2 \<Rightarrow> nat \<Rightarrow> (nat \<Rightarrow> DirEntry list) \<Rightarrow> bool" where
  "mounted_dir fs ip s k es \<longleftrightarrow> wf_fs fs \<and> fs_block_size fs = 1024 \<and> block_size (super_block s) = 1024 \<and>
     part_ok (io_handler fs) s \<and> is_directory (inode ip) \<and> wf_inode (inode ip) \<and>
     unat (i_size (inode ip)) = k * 1024 \<and> direct_dir (part (io_handler fs) s) (i_block (inode ip)) k es"

definition dir_map :: "(nat \<Rightarrow> DirEntry list) \<Rightarrow> nat \<Rightarrow> string \<Rightarrow> int option" where
  "dir_map es k = (\<lambda>name. dir_lookup name (entries es k))"

lemma mounted_dirD:
  assumes "mounted_dir fs ip s k es"
  shows "wf_fs fs" "fs_block_size fs = 1024" "block_size (super_block s) = 1024" "part_ok (io_handler fs) s"
    "is_directory (inode ip)" "wf_inode (inode ip)" "unat (i_size (inode ip)) = k * 1024"
    "direct_dir (part (io_handler fs) s) (i_block (inode ip)) k es"
  using assms by (simp_all add: mounted_dir_def)

lemma mounted_dir_iterator:
  assumes "mounted_dir fs ip s k es"
  obtains it where "create_block_iterator fs (super_block s) (inode ip) (uint (ip_group_number ip)) =
      (Ok it :: (HalFsIOErr, InodeBlockIterator) res)" "iter_ok it (part (io_handler fs) s)"
    "it_blocks it = i_block (inode ip)" "it_io_handler it = io_handler fs" "cur_idx it = 0" "blocks_limit it = k"
  using create_block_iterator_ok [OF mounted_dirD(1-3) [OF assms], of "inode ip" "uint (ip_group_number ip)"
      "part (io_handler fs) s"] mounted_dirD(6,7) [OF assms]
  by (auto simp: wf_inode_def ceil_1024(1))

lemma mounted_dir_find:
  assumes "mounted_dir fs ip s k es"
  shows "find_entry_by_name fs name ip s = (Ok (dir_map es k name), s)"
  using do_find_entry_by_name_spec [OF mounted_dirD(1-7) [OF assms] direct_dir_blocks [OF mounted_dirD(8) [OF assms]]]
  by (simp add: find_entry_by_name_def dir_map_def entries_def)

lemma mounted_dir_update:
  assumes "mounted_dir fs ip s k es" "j < k" "length b = 1024" "laid_out b 0 xs" "\<forall>e \<in> set xs. wf_entry e"
    and "distinct (live_names (entries (es(j := xs)) k))"
  shows "mounted_dir fs ip (set_part (io_handler fs)
    (patch (part (io_handler fs) s) (uint (i_block (inode ip) ! j) * 1024) b) s) k (es(j := xs))"
proof -
  note d = mounted_dirD [OF assms(1)]
  from d direct_dir_update [OF d(8) assms(2-6)] show ?thesis
    by (simp add: mounted_dir_def partition.ok_set_img partition.img_set_img)
qed

lemma dir_map_upd: "j < k \<Longrightarrow> dir_map (es(j := xs)) k m =
    dir_lookup m (entries es j @ xs @ concat (map es [Suc j..<k]))"
  by (simp add: dir_map_def entries_upd)

lemma dir_map_split: "j < k \<Longrightarrow> dir_map es k m = dir_lookup m (entries es j @ es j @ concat (map es [Suc j..<k]))"
  by (simp add: dir_map_def flip: entries_split)

text \<open>What removing a name does to the names of a directory.\<close>

lemma live_names_joined [simp]: "live_names (joined p e # ys) = live_names (p # ys)"
    "live_names (blank e # ys) = live_names ys"
  by (simp_all add: joined_def matches_def blank_def)

lemma live_names_drop_match: "live_names (drop_match name es) = remove1 name (live_names es)"
proof (rule split_match [of es name])
  assume none: "\<forall>x \<in> set es. \<not> matches name x"
  then have "name \<notin> set (live_names es)" by (simp add: in_live_names)
  then show ?thesis using none by (simp add: drop_match_none remove1_idem)
next
  fix e ys assume "es = e # ys" "matches name e"
  then show ?thesis using matches_live [of name e] by (simp only: drop_match_first live_names_joined) simp
next
  fix zs p e ys
  assume es: "es = zs @ p # e # ys" "\<forall>x \<in> set zs. \<not> matches name x" "\<not> matches name p" "matches name e"
  have "name \<notin> set (live_names (zs @ [p]))" using es(2,3) by (simp add: in_live_names del: live_names_simps)
  moreover have "live_names es = live_names (zs @ [p]) @ name # live_names ys"
    using matches_live [OF es(4)] es(4) by (auto simp: es(1))
  moreover have "live_names (drop_match name es) = live_names (zs @ [p]) @ live_names ys"
    using drop_match_joined [OF es(2-4), of ys] live_names_joined(1) [of p e ys] by (simp add: es(1) del: live_names_joined)
  ultimately show ?thesis by (simp add: remove1_append)
qed

lemma distinct_replace:
  assumes "distinct (live_names (entries es k))" "j < k" "distinct (live_names xs)"
    and "set (live_names xs) \<subseteq> insert name (set (live_names (es j)))" "dir_map es k name = None \<or> name \<in> set (live_names (es j))"
  shows "distinct (live_names (entries (es(j := xs)) k))"
  using assms
  by (auto simp: entries_upd [OF assms(2)] entries_split [OF assms(2), of es] dir_map_def dir_lookup_None)

lemma dir_map_drop_match:
  assumes "distinct (live_names (entries es k))" "j < k" "dir_lookup name (es j) \<noteq> None"
  shows "dir_map (es(j := drop_match name (es j))) k = (dir_map es k)(name := None)"
proof
  fix m
  have "name \<in> set (live_names (es j))" using assms(3) by (simp add: dir_lookup_None)
  then have "name \<notin> set (live_names (entries es j))" "name \<notin> set (live_names (concat (map es [Suc j..<k])))"
      "distinct (live_names (es j))"
    using assms(1) by (auto simp: entries_split [OF assms(2)])
  then have "dir_lookup name (entries es j) = None" "dir_lookup name (concat (map es [Suc j..<k])) = None"
      "dir_lookup name (drop_match name (es j)) = None"
    by (simp_all add: dir_lookup_None live_names_drop_match)
  then show "dir_map (es(j := drop_match name (es j))) k m = ((dir_map es k)(name := None)) m"
    by (cases "m = name"; cases "dir_lookup m (entries es j)")
      (simp_all add: dir_map_upd dir_map_split [of j k es] assms(2) dir_lookup_append dir_lookup_drop_match)
qed

lemma dir_map_insert:
  assumes "insert_entry new (es j) = Some xs" "j < k" "new_ok new" "\<forall>e \<in> set (es j). wf_entry e"
    and "matches (de_name new) new" "dir_map es k (de_name new) = None"
  shows "dir_map (es(j := xs)) k = (dir_map es k)(de_name new \<mapsto> uint (de_inode new))"
proof
  fix m
  have none: "dir_lookup (de_name new) (entries es j) = None" "dir_lookup (de_name new) (es j) = None"
    using assms(2,6) by (auto simp: dir_map_def dir_lookup_entries_None)
  show "dir_map (es(j := xs)) k m = ((dir_map es k)(de_name new \<mapsto> uint (de_inode new))) m"
    using none(1) insert_entry_effect(3) [OF assms(1,3-5) none(2), of m] assms(2)
    by (cases "m = de_name new"; cases "dir_lookup m (entries es j)") (simp_all add: dir_map_upd dir_map_split [of j k es] dir_lookup_append)
qed

definition in_block :: "u32 \<Rightarrow> int \<Rightarrow> bool" where
  "in_block b a \<longleftrightarrow> uint b * 1024 \<le> a \<and> a < uint b * 1024 + 1024"

text \<open>Two states whose partitions agree outside the blocks of a directory.\<close>

definition same_outside :: "IoHandler \<Rightarrow> u32 list \<Rightarrow> ext2 \<Rightarrow> ext2 \<Rightarrow> bool" where
  "same_outside io blocks s s' \<longleftrightarrow> (\<forall>a. \<not> list_ex (\<lambda>b. in_block b a) blocks \<longrightarrow> part io s' a = part io s a)"

lemma same_outside_refl [simp]: "same_outside io blocks s s"
  by (simp add: same_outside_def)

lemma same_outside_patch:
  assumes "part_ok io s" "j < length blocks" "length b = 1024"
  shows "same_outside io blocks s (set_part io (patch (part io s) (uint (blocks ! j) * 1024) b) s)"
  using assms by (auto simp: same_outside_def partition.img_set_img patch_def in_block_def list_ex_iff)

lemma mounted_dir_delete:
  assumes "mounted_dir fs ip s k es"
  shows "\<exists>s' es'. find_entry_by_name_and_delete fs name ip s = (Ok (dir_map es k name), s') \<and>
    mounted_dir fs ip s' k es' \<and> dir_map es' k = (dir_map es k)(name := None) \<and>
    same_outside (io_handler fs) (take k (i_block (inode ip))) s s'"
proof -
  note d = mounted_dirD [OF assms]
  obtain it where it: "create_block_iterator fs (super_block s) (inode ip) (uint (ip_group_number ip)) =
      (Ok it :: (HalFsIOErr, InodeBlockIterator) res)" "iter_ok it (part (io_handler fs) s)"
    "it_blocks it = i_block (inode ip)" "it_io_handler it = io_handler fs" "cur_idx it = 0" "blocks_limit it = k"
    using mounted_dir_iterator [OF assms] by metis
  have run: "find_entry_by_name_and_delete fs name ip s =
      find_blocks_loop k fs name True False it (get_buffer (buffer_size fs)) (i_size (inode ip)) s"
    using d(5) it by (simp add: find_entry_by_name_and_delete_def do_find_entry_by_name_def bind_def)
  have buf: "length (get_buffer (buffer_size fs)) = 1024" using d(1,2) by (simp add: get_buffer_def wf_fs_def)
  have dist: "distinct (live_names (entries es k))" "k \<le> length (i_block (inode ip))"
    using d(8) by (simp_all add: direct_dir_def)
  show ?thesis
  proof (cases "dir_map es k name")
    case None
    then have "find_blocks_loop k fs name True False it (get_buffer (buffer_size fs)) (i_size (inode ip)) s = (Ok None, s)"
      using find_blocks_loop_spec [OF d(4,3) refl it(2,4,3) buf it(6) _ direct_dir_blocks [OF d(8)], of k
          "i_size (inode ip)" True name] it(5) d(7)
      by (simp add: dir_map_def entries_def)
    then show ?thesis using run None assms by (intro exI [of _ s] exI [of _ es]) auto
  next
    case (Some ino)
    then obtain i where "i < k" "dir_lookup name (es i) \<noteq> None"
      using dir_lookup_entries_None [of name es k] by (auto simp: dir_map_def)
    then obtain j where j: "j < k" "dir_lookup name (es j) \<noteq> None" "\<forall>l < j. dir_lookup name (es l) = None"
      using first_block [of "\<lambda>i. dir_lookup name (es i) \<noteq> None" i k] by metis
    then have "dir_lookup name (es j) = Some ino"
      using dir_lookup_entries_first [OF j(1,3)] Some by (auto simp: dir_map_def)
    then obtain b where b: "find_blocks_loop k fs name True False it (get_buffer (buffer_size fs)) (i_size (inode ip)) s =
          (Ok (Some ino), set_part (io_handler fs) (patch (part (io_handler fs) s) (uint (i_block (inode ip) ! j) * 1024) b) s)"
        "length b = 1024" "laid_out b 0 (drop_match name (es j))"
      using find_blocks_loop_delete [OF d(4,3,2) it(2,4,3) buf it(6) _ refl d(8), of k "i_size (inode ip)" j name ino]
        it(5) d(7) j by auto
    have wf: "\<forall>e \<in> set (drop_match name (es j)). wf_entry e" "distinct (live_names (drop_match name (es j)))"
      using direct_dir_entries_ok [OF d(8) j(1)] dir_ok_drop_match by (auto simp: dir_ok_def)
    have "distinct (live_names (entries (es(j := drop_match name (es j))) k))"
      using distinct_replace [OF dist(1) j(1) wf(2), of name] j(2) set_remove1_subset [of name]
      by (auto simp: live_names_drop_match dir_lookup_None)
    note upd = mounted_dir_update [OF assms j(1) b(2,3) wf(1) this]
    have "same_outside (io_handler fs) (take k (i_block (inode ip))) s (set_part (io_handler fs)
        (patch (part (io_handler fs) s) (uint (i_block (inode ip) ! j) * 1024) b) s)"
      using same_outside_patch [OF d(4) _ b(2), of j "take k (i_block (inode ip))"] j(1) dist(2) by simp
    then show ?thesis unfolding run b(1) Some
      using upd dir_map_drop_match [OF dist(1) j(1,2)] by blast
  qed
qed

lemma mounted_dir_clock [simp]: "mounted_dir fs ip (s\<lparr>clock_reads := n\<rparr>) k es = mounted_dir fs ip s k es"
  by (simp add: mounted_dir_def part_ok_def part_def)

lemma part_clock [simp]: "part io (s\<lparr>clock_reads := n\<rparr>) = part io s"
  by (simp add: part_def)

lemma mounted_dir_mtime [simp]:
  "mounted_dir fs (update_inode (\<lambda>i. i\<lparr>i_mtime := t\<rparr>) ip) s k es = mounted_dir fs ip s k es"
  by (simp add: mounted_dir_def update_inode_def is_directory_def inode_file_type_def wf_inode_def)

lemma dir_entry_new_ok:
  assumes "ascii name" "length name \<le> 255" "name \<notin> {''.'', ''..''}" "ino \<noteq> 0"
  defines "new \<equiv> dir_entry_new ino name"
  shows "new_ok new" "de_rec_len new \<le> of_nat (need (length (de_name new)))" "matches (de_name new) new"
    "de_name new = name" "de_inode new = ino"
  using assms(1-4) record_length_need [of "\<lparr> de_inode = ino, de_rec_len = 0, de_file_type = 0, de_name = name \<rparr>"]
  by (simp_all add: new_def dir_entry_new_def new_ok_def matches_def Let_def)

definition has_room :: "DirEntry \<Rightarrow> (nat \<Rightarrow> DirEntry list) \<Rightarrow> nat \<Rightarrow> bool" where
  "has_room new es k \<longleftrightarrow> list_ex (\<lambda>j. insert_entry new (es j) \<noteq> None) [0..<k]"

text \<open>The run of the insertion: the entry goes into the first block with room.\<close>

lemma add_dir_entry_places:
  assumes "mounted_dir fs ip s k es" "new_ok (dir_entry_new ino name)"
    and "de_rec_len (dir_entry_new ino name) \<le> of_nat (need (length (de_name (dir_entry_new ino name))))"
    and "clock s (clock_reads s) = Some dt" "has_room (dir_entry_new ino name) es k"
  obtains j xs b where "j < k" "insert_entry (dir_entry_new ino name) (es j) = Some xs" "length b = 1024" "laid_out b 0 xs"
    "add_dir_entry fs ip ino name s = (Ok (update_inode (\<lambda>i. i \<lparr> i_mtime := rtc_to_posix dt \<rparr>) ip),
      set_part (io_handler fs) (patch (part (io_handler fs) s) (uint (i_block (inode ip) ! j) * 1024) b)
        (s\<lparr>clock_reads := Suc (clock_reads s)\<rparr>))"
proof -
  let ?new = "dir_entry_new ino name" and ?s = "s\<lparr>clock_reads := Suc (clock_reads s)\<rparr>"
  have m: "mounted_dir fs ip ?s k es" using assms(1) by simp
  note d = mounted_dirD [OF m]
  obtain it where it: "create_block_iterator fs (super_block ?s) (inode ip) (uint (ip_group_number ip)) =
      (Ok it :: (HalFsIOErr, InodeBlockIterator) res)" "iter_ok it (part (io_handler fs) ?s)"
    "it_blocks it = i_block (inode ip)" "it_io_handler it = io_handler fs" "cur_idx it = 0" "blocks_limit it = k"
    using mounted_dir_iterator [OF m] by metis
  have buf: "length (get_buffer (buffer_size fs)) = 1024" using d(1,2) by (simp add: get_buffer_def wf_fs_def)
  obtain i where "i < k" "insert_entry ?new (es i) \<noteq> None" using assms(5) by (auto simp: has_room_def list_ex_iff)
  then obtain j xs where j: "j < k" "insert_entry ?new (es j) = Some xs" "\<forall>l < j. insert_entry ?new (es l) = None"
    using first_block [of "\<lambda>i. insert_entry ?new (es i) \<noteq> None" i k] by (metis not_None_eq)
  obtain b it' b' where b: "place_loop k fs 1024 ?new it (get_buffer (buffer_size fs)) ?s = (Ok (True, it', b'),
        set_part (io_handler fs) (patch (part (io_handler fs) ?s) (uint (i_block (inode ip) ! j) * 1024) b) ?s)"
      "length b = 1024" "laid_out b 0 xs"
    using place_loop_spec [OF d(4,2) assms(2,3) it(2,4,3) buf it(6) _ refl d(8) _ j(1) _ j(2), of k] it(5) j(3) by auto
  from j(1,2) b(2,3) show thesis
    by (rule that) (use assms(4) it(1,5,6) d(3) b(1) in
      \<open>simp add: add_dir_entry_def posix_now_def read_clock_def bind_def Let_def\<close>)
qed

lemma mounted_dir_add:
  assumes "mounted_dir fs ip s k es" "dir_map es k name = None" "ascii name" "length name \<le> 255"
    and "name \<notin> {''.'', ''..''}" "ino \<noteq> 0" "clock s (clock_reads s) = Some dt" "has_room (dir_entry_new ino name) es k"
  shows "\<exists>s' es'. add_dir_entry fs ip ino name s =
      (Ok (update_inode (\<lambda>i. i \<lparr> i_mtime := rtc_to_posix dt \<rparr>) ip), s') \<and>
    mounted_dir fs ip s' k es' \<and> dir_map es' k = (dir_map es k)(name \<mapsto> uint ino) \<and>
    same_outside (io_handler fs) (take k (i_block (inode ip))) s s'"
proof -
  let ?new = "dir_entry_new ino name" and ?s = "s\<lparr>clock_reads := Suc (clock_reads s)\<rparr>"
  have m: "mounted_dir fs ip ?s k es" using assms(1) by simp
  note d = mounted_dirD [OF m] and new = dir_entry_new_ok [OF assms(3-6)]
  obtain j xs b where j: "j < k" "insert_entry ?new (es j) = Some xs" "length b = 1024" "laid_out b 0 xs"
    and run: "add_dir_entry fs ip ino name s = (Ok (update_inode (\<lambda>i. i \<lparr> i_mtime := rtc_to_posix dt \<rparr>) ip),
      set_part (io_handler fs) (patch (part (io_handler fs) s) (uint (i_block (inode ip) ! j) * 1024) b) ?s)"
      (is "_ = (_, ?s')")
    using add_dir_entry_places [OF assms(1) new(1,2) assms(7,8)] by blast
  have dist: "distinct (live_names (entries es k))" "k \<le> length (i_block (inode ip))"
    using d(8) by (simp_all add: direct_dir_def)
  note ins = insert_entry_effect [OF j(2) new(1) direct_dir_block(5) [OF d(8) j(1)] new(3)]
  have none: "name \<notin> set (live_names (es j))"
    using assms(2) j(1) by (auto simp: dir_map_def dir_lookup_entries_None simp flip: dir_lookup_None)
  have "distinct (live_names (es j))" using direct_dir_entries_ok [OF d(8) j(1)] by (simp add: dir_ok_def)
  then have "distinct (live_names xs)" "set (live_names xs) \<subseteq> insert name (set (live_names (es j)))"
    using ins(2) none new(4) by auto
  then have "distinct (live_names (entries (es(j := xs)) k))"
    using distinct_replace [OF dist(1) j(1)] assms(2) by blast
  from mounted_dir_update [OF m j(1,3,4) ins(1) this]
  have "mounted_dir fs ip ?s' k (es(j := xs))" by simp
  moreover have "dir_map (es(j := xs)) k = (dir_map es k)(name \<mapsto> uint ino)"
    using dir_map_insert [where new = ?new and es = es and j = j and k = k, OF j(2,1) new(1)
        direct_dir_block(5) [OF d(8) j(1)] new(3)] assms(2) new(4,5) by simp
  moreover have "same_outside (io_handler fs) (take k (i_block (inode ip))) s ?s'"
    using same_outside_patch [OF d(4) _ j(3), of j "take k (i_block (inode ip))"] j(1) dist(2)
    by (simp add: same_outside_def)
  ultimately show ?thesis using run by blast
qed

section \<open>The contract of a directory\<close>

text \<open>A directory answers lookups from a map and forgets the names that are deleted; what follows
  for sequences of calls holds of every implementation of that contract.\<close>

locale name_directory =
  fixes ok :: "'s \<Rightarrow> bool"
    and names :: "'s \<Rightarrow> 'k \<Rightarrow> 'v option"
    and look :: "'k \<Rightarrow> ('s, 'e, 'v option) st"
    and del :: "'k \<Rightarrow> ('s, 'e, 'v option) st"
  assumes look_ok: "ok s \<Longrightarrow> look n s = (Ok (names s n), s)"
    and del_ok: "ok s \<Longrightarrow> \<exists>s'. del n s = (Ok (names s n), s') \<and> ok s' \<and> names s' = (names s)(n := None)"
begin

fun del_all :: "'k list \<Rightarrow> ('s, 'e, 'v option list) st" where
  "del_all [] = ret []"
| "del_all (n # ns) = bind (del n) (\<lambda>r. bind (del_all ns) (\<lambda>rs. ret (r # rs)))"

lemma del_all_ok: "ok s \<Longrightarrow> distinct ns \<Longrightarrow> \<exists>s'. del_all ns s = (Ok (map (names s) ns), s') \<and> ok s' \<and>
    names s' = names s |` (- set ns)"
proof (induction ns arbitrary: s)
  case (Cons n ns)
  obtain s1 where s1: "del n s = (Ok (names s n), s1)" "ok s1" "names s1 = (names s)(n := None)"
    using del_ok [OF Cons.prems(1)] by blast
  obtain s2 where s2: "del_all ns s1 = (Ok (map (names s1) ns), s2)" "ok s2" "names s2 = names s1 |` (- set ns)"
    using Cons.IH [OF s1(2)] Cons.prems(2) by auto
  have "map (names s1) ns = map (names s) ns" using Cons.prems(2) by (auto simp: s1(3))
  moreover have "names s2 = names s |` (- set (n # ns))" by (rule ext) (auto simp: s2(3) s1(3) restrict_map_def)
  ultimately show ?case using s1(1) s2(1,2) by (simp add: bind_def)
qed (simp add: restrict_map_def)

lemma del_look: "ok s \<Longrightarrow> \<exists>s'. bind (del n) (\<lambda>r. bind (look m) (\<lambda>q. ret (r, q))) s =
    (Ok (names s n, if m = n then None else names s m), s') \<and> ok s'"
  using del_ok [of s n] look_ok by (fastforce simp: bind_def)

end

text \<open>The names of a directory as the code answers them.\<close>

definition dir_names :: "Ext2Fs \<Rightarrow> InodePlus \<Rightarrow> ext2 \<Rightarrow> string \<Rightarrow> int option" where
  "dir_names fs ip s name = (case find_entry_by_name fs name ip s of (Ok r, _) \<Rightarrow> r | _ \<Rightarrow> None)"

definition dir_mounted :: "Ext2Fs \<Rightarrow> InodePlus \<Rightarrow> ext2 \<Rightarrow> bool" where
  "dir_mounted fs ip s \<longleftrightarrow> (\<exists>k es. mounted_dir fs ip s k es)"

lemma dir_names_map: "mounted_dir fs ip s k es \<Longrightarrow> dir_names fs ip s = dir_map es k"
  by (rule ext) (simp add: dir_names_def mounted_dir_find)

interpretation ext2_dir: name_directory "dir_mounted fs ip" "dir_names fs ip"
    "\<lambda>name. find_entry_by_name fs name ip" "\<lambda>name. find_entry_by_name_and_delete fs name ip" for fs ip
proof (unfold_locales, goal_cases)
  case (1 s n)
  then show ?case by (auto simp: dir_mounted_def mounted_dir_find dir_names_map)
next
  case (2 s n)
  then obtain k es where m: "mounted_dir fs ip s k es" by (auto simp: dir_mounted_def)
  with mounted_dir_delete [OF m, of n] show ?case by (metis dir_mounted_def dir_names_map)
qed

section \<open>A concrete directory\<close>

text \<open>One block, number 20, with the entries \<^verbatim>\<open>.\<close> and \<^verbatim>\<open>a\<close>; the second takes the rest of the block.\<close>

definition sample_entry :: "u32 \<Rightarrow> u16 \<Rightarrow> string \<Rightarrow> DirEntry" where
  "sample_entry ino len name = \<lparr> de_inode = ino, de_rec_len = len, de_file_type = 0, de_name = name \<rparr>"

definition sample_dir_entries :: "nat \<Rightarrow> DirEntry list" where
  "sample_dir_entries = (\<lambda>_. [sample_entry 2 12 ''.'', sample_entry 11 1012 ''a''])"

definition sample_dir_block :: bytes where
  "sample_dir_block = dir_entry_image (sample_entry 2 12 ''.'') @ replicate 3 0 @
     dir_entry_image (sample_entry 11 1012 ''a'') @ replicate 1003 0"

definition sample_dir :: InodePlus where
  "sample_dir = \<lparr> inode = inode_default \<lparr> i_mode := 0x4000, i_size := 1024, i_block := (replicate 15 0)[0 := 20] \<rparr>,
     absolute_idx = 2, ip_group_number = 0, relative_idx = 1 \<rparr>"

definition sample_dir_state :: ext2 where
  "sample_dir_state = sample_ext2 (patch (\<lambda>_. 0) 20480 sample_dir_block)"

lemma sample_dir_entries_wf: "wf_entry (sample_entry 2 12 ''.'')" "wf_entry (sample_entry 11 1012 ''a'')"
  by (simp_all add: wf_entry_def sample_entry_def ascii_def byte_of_char_def)

lemma length_sample_dir_block [simp]: "length sample_dir_block = 1024"
  by (simp add: sample_dir_block_def sample_entry_def)

lemma sample_dir_laid_out: "laid_out sample_dir_block 0 (sample_dir_entries 0)"
proof -
  have "read_dir_entry sample_dir_block 0 = Ok (sample_entry 2 12 ''.'', 12)"
    using record_length_wf [OF sample_dir_entries_wf(1)] sample_dir_entries_wf(1)
    unfolding read_dir_entry_def sample_dir_block_def drop_0
    by (subst deserialize_dir_entry_image) (simp_all add: wf_entry_def sample_entry_def)
  moreover have "drop 12 sample_dir_block = dir_entry_image (sample_entry 11 1012 ''a'') @ replicate 1003 0"
    by (simp add: sample_dir_block_def sample_entry_def)
  then have "read_dir_entry sample_dir_block 12 = Ok (sample_entry 11 1012 ''a'', 1012)"
    using record_length_wf [OF sample_dir_entries_wf(2)] sample_dir_entries_wf(2)
    unfolding read_dir_entry_def
    by (simp add: deserialize_dir_entry_image wf_entry_def sample_entry_def)
  moreover have "de_rec_len (sample_entry ino len name) = len" for ino len name by (simp add: sample_entry_def)
  ultimately show ?thesis by (simp add: sample_dir_entries_def)
qed

lemma sample_mounted_dir: "mounted_dir sample_fs sample_dir sample_dir_state 1 sample_dir_entries"
proof -
  have "is_directory (inode sample_dir)" "wf_inode (inode sample_dir)" "i_size (inode sample_dir) = 1024"
      "i_block (inode sample_dir) = (replicate 15 0)[0 := 20]"
    by (simp_all add: sample_dir_def is_directory_def inode_file_type_def EXT2_S_IFDIR_def wf_inode_def inode_default_def)
  moreover have "block_at (patch (\<lambda>_. 0) 20480 sample_dir_block) 20 = sample_dir_block"
    using block_at_patch [of sample_dir_block "\<lambda>_. 0" 20 20] by simp
  moreover have "distinct (live_names (entries sample_dir_entries 1))"
    by (simp add: entries_def sample_dir_entries_def sample_entry_def)
  moreover have "distinct (take 1 ((replicate 15 (0 :: u32))[0 := 20]))" by (simp add: numeral_eq_Suc)
  moreover have "\<forall>e \<in> set (sample_dir_entries 0). wf_entry e" using sample_dir_entries_wf by (simp add: sample_dir_entries_def)
  ultimately show ?thesis
    using sample_dir_laid_out
    by (simp add: mounted_dir_def direct_dir_def sample_wf_fs sample_dir_state_def)
qed

lemma sample_dir_map: "dir_map sample_dir_entries (Suc 0) = [''a'' \<mapsto> 11]"
  by (rule ext) (auto simp: dir_map_def entries_def sample_dir_entries_def sample_entry_def dir_lookup_Cons matches_def)

lemma sample_clock: "clock sample_dir_state (clock_reads sample_dir_state) =
    Some \<lparr> second = 0, minute = 0, hour = 0, day = 1, month = 1, year = 2000, weekday = 7 \<rparr>"
  by (simp add: sample_dir_state_def sample_ext2_def)

lemma sample_has_room: "has_room (dir_entry_new 12 ''b'') sample_dir_entries 1"
proof -
  have "fits (dir_entry_new 12 ''b'') (sample_entry 11 1012 ''a'')"
    by (simp add: fits_def need_def dir_entry_new_def sample_entry_def)
  then show ?thesis by (simp add: has_room_def sample_dir_entries_def)
qed

section \<open>Properties\<close>

text \<open>C4. Looking a name up in a directory of 1 KiB blocks answers the inode number the directory
  maps the name to, or nothing for a name it does not have, and does not touch the disk.\<close>

theorem find_entry_by_name_refines:
  assumes "mounted_dir fs ip s k es"
  shows "find_entry_by_name fs name ip s = (Ok (dir_map es k name), s)"
  by (rule mounted_dir_find [OF assms])

theorem find_entry_by_name_refines_witness:
  "find_entry_by_name sample_fs ''a'' sample_dir sample_dir_state = (Ok (Some 11), sample_dir_state)"
  using find_entry_by_name_refines [OF sample_mounted_dir] by (simp add: sample_dir_map)

text \<open>C3. Deleting a name answers the inode number it had, leaves a well-formed directory whose map is
  the old one without the name, and changes no byte outside the blocks of the directory.\<close>

theorem delete_refines:
  assumes "mounted_dir fs ip s k es"
  shows "\<exists>s' es'. find_entry_by_name_and_delete fs name ip s = (Ok (dir_map es k name), s') \<and>
    mounted_dir fs ip s' k es' \<and> dir_map es' k = (dir_map es k)(name := None) \<and>
    same_outside (io_handler fs) (take k (i_block (inode ip))) s s'"
  by (rule mounted_dir_delete [OF assms])

theorem delete_refines_witness:
  "\<exists>s' es'. find_entry_by_name_and_delete sample_fs ''a'' sample_dir sample_dir_state = (Ok (Some 11), s') \<and>
    mounted_dir sample_fs sample_dir s' 1 es' \<and> dir_map es' 1 = Map.empty"
  using delete_refines [OF sample_mounted_dir, of "''a''"] by (auto simp: sample_dir_map)

text \<open>C2. Adding an entry with a new name to a directory that has room for it leaves a well-formed
  directory whose map is the old one with the name bound to the inode number, changes no byte
  outside the blocks of the directory, and sets the modification time of the inode.\<close>

theorem add_dir_entry_refines:
  assumes "mounted_dir fs ip s k es" "dir_map es k name = None" "ascii name" "length name \<le> 255"
    and "name \<notin> {''.'', ''..''}" "ino \<noteq> 0" "clock s (clock_reads s) = Some dt" "has_room (dir_entry_new ino name) es k"
  shows "\<exists>s' es'. add_dir_entry fs ip ino name s =
      (Ok (update_inode (\<lambda>i. i \<lparr> i_mtime := rtc_to_posix dt \<rparr>) ip), s') \<and>
    mounted_dir fs ip s' k es' \<and> dir_map es' k = (dir_map es k)(name \<mapsto> uint ino) \<and>
    same_outside (io_handler fs) (take k (i_block (inode ip))) s s'"
  by (rule mounted_dir_add [OF assms])

theorem add_dir_entry_refines_witness:
  "\<exists>ip' s' es'. add_dir_entry sample_fs sample_dir 12 ''b'' sample_dir_state = (Ok ip', s') \<and>
    mounted_dir sample_fs sample_dir s' 1 es' \<and> dir_map es' 1 = [''a'' \<mapsto> 11, ''b'' \<mapsto> 12]"
  using add_dir_entry_refines [OF sample_mounted_dir _ _ _ _ _ sample_clock sample_has_room]
  by (auto simp: sample_dir_map ascii_def byte_of_char_def)

text \<open>Adding an entry and deleting it again answers its inode number and leaves a directory that
  answers every name as before.\<close>

theorem add_then_delete:
  assumes "mounted_dir fs ip s k es" "dir_map es k name = None" "ascii name" "length name \<le> 255"
    and "name \<notin> {''.'', ''..''}" "ino \<noteq> 0" "clock s (clock_reads s) = Some dt" "has_room (dir_entry_new ino name) es k"
  shows "\<exists>s'. bind (add_dir_entry fs ip ino name) (\<lambda>ip'. bind (find_entry_by_name_and_delete fs name ip') (\<lambda>r.
      bind (find_entry_by_name fs m ip') (\<lambda>q. ret (r, q)))) s =
    (Ok (Some (uint ino), dir_names fs ip s m), s')"
proof -
  let ?ip = "update_inode (\<lambda>i. i \<lparr> i_mtime := rtc_to_posix dt \<rparr>) ip"
  obtain s1 es1 where a: "add_dir_entry fs ip ino name s = (Ok ?ip, s1)" "mounted_dir fs ip s1 k es1"
      "dir_map es1 k = (dir_map es k)(name \<mapsto> uint ino)"
    using mounted_dir_add [OF assms] by blast
  then have "mounted_dir fs ?ip s1 k es1" by simp
  then have m: "dir_mounted fs ?ip s1" "dir_names fs ?ip s1 = dir_map es1 k"
    by (auto simp: dir_mounted_def dir_names_map)
  obtain s2 where "bind (find_entry_by_name_and_delete fs name ?ip) (\<lambda>r.
      bind (find_entry_by_name fs m ?ip) (\<lambda>q. ret (r, q))) s1 =
    (Ok (dir_names fs ?ip s1 name, if m = name then None else dir_names fs ?ip s1 m), s2)"
    using ext2_dir.del_look [OF m(1), of name m] by blast
  then show ?thesis
    using a(3) m(2) assms(2) dir_names_map [OF assms(1)] by (simp add: bind_def [of "add_dir_entry fs ip ino name"] a(1))
qed

theorem add_then_delete_witness:
  "\<exists>s'. bind (add_dir_entry sample_fs sample_dir 12 ''b'') (\<lambda>ip'.
      bind (find_entry_by_name_and_delete sample_fs ''b'' ip') (\<lambda>r.
      bind (find_entry_by_name sample_fs ''a'' ip') (\<lambda>q. ret (r, q)))) sample_dir_state =
    (Ok (Some 12, Some 11), s')"
  using add_then_delete [OF sample_mounted_dir _ _ _ _ _ sample_clock sample_has_room, of "''a''"]
  by (auto simp: sample_dir_map ascii_def byte_of_char_def dir_names_map [OF sample_mounted_dir])



end
