(* ===== verification/Ext2Search.thy ===== *)
theory Ext2Search
  imports Ext2DirDisk
begin

text \<open>
  When the search of a directory block (\<^verbatim>\<open>find_entry_by_name_in_block\<close> of \<^verbatim>\<open>open.rs\<close>)
  comes to an end.  The loop follows the record lengths it reads: it turns forever
  exactly if it comes to a record of length zero that does not stop it, and the
  fuel of the model is enough to tell.  On a block of well-formed records, and on
  every block without a record of length zero among those it visits, it ends.
\<close>

section \<open>Everything but the loop ends\<close>

lemma returns_write_sectors [returns_intros]: "returns (write_sectors io buf lba)"
proof -
  have "fst (device_write d b l) \<noteq> Diverge" for d b l
    by (auto simp: device_write_def Let_def split: option.splits prod.splits if_splits)
  then have "returns (write_sectors_by_idx i b l)" for i b l
    unfolding write_sectors_by_idx_def by (intro returns_intros) (metis fst_conv)
  then have "returns (write_sectors_by_guid g b l)" for g b l
    unfolding write_sectors_by_guid_def by (intro returns_intros)
  then have "returns (io_write_sectors io buf lba)"
    by (auto simp: io_write_sectors_def on_disks_def returns_def split: prod.splits) (metis fst_conv)
  then show ?thesis unfolding write_sectors_def by (intro returns_intros)
qed

lemma remove_entry_returns: "remove_entry buf e i j \<noteq> Diverge"
  by (auto simp: remove_entry_def partial_at_def slice_def)

lemma read_name_returns: "read_name b n \<noteq> Diverge"
proof (induction b n rule: read_name.induct)
  case (3 b rest n)
  then show ?case by (cases "read_name rest n") simp_all
qed simp_all

lemma read_dir_entry_returns: "read_dir_entry buf off \<noteq> Diverge"
  "read_dir_entry buf off = Ok (e, r) \<Longrightarrow> r < 65536"
proof -
  have d: "deserialize_dir_entry Little b \<noteq> Diverge \<and> (deserialize_dir_entry Little b = Ok (e, r) \<longrightarrow> r < 65536)" for b
  proof (cases "8 \<le> length b")
    case True
    then show ?thesis
      using read_name_returns [of "drop 8 b" "unat (b ! 6)"] unsigned_less [of "_ :: u16", where ?'a = nat]
      by (cases "read_name (drop 8 b) (unat (b ! 6))") (auto simp: deserialize_dir_entry_bytes)
  next
    case False
    then show ?thesis
      by (auto simp: deserialize_dir_entry_def deserialize_field_def deserialize_int_def)
  qed
  show "read_dir_entry buf off \<noteq> Diverge"
    using d [of "drop off buf"] by (cases "deserialize_dir_entry Little (drop off buf)") (auto simp: read_dir_entry_def)
  show "read_dir_entry buf off = Ok (e, r) \<Longrightarrow> r < 65536"
    using d [of "drop off buf"] by (cases "deserialize_dir_entry Little (drop off buf)")
      (auto simp: read_dir_entry_def split: if_splits)
qed

section \<open>The turns of the loop\<close>

text \<open>Whether the loop goes on behind an entry.\<close>

definition goes_on :: "string \<Rightarrow> bool \<Rightarrow> DirEntry \<Rightarrow> u32 \<Rightarrow> bool" where
  "goes_on name find_is_empty e remaining \<longleftrightarrow> remaining \<noteq> 0 \<and>
     (de_name e = ''.'' \<or> de_name e = ''..'' \<or> \<not> (de_inode e \<noteq> 0 \<and> name = de_name e \<and> \<not> find_is_empty))"

lemma loop_turn:
  assumes "progr < bs" "read_dir_entry buf (unat progr) = Ok (e, r)" "goes_on name fie e (remaining - of_nat r)"
  shows "find_in_block_loop (Suc n) fs bs name lba delete fie buf progr this prev remaining s =
    find_in_block_loop n fs bs name lba delete fie buf (progr + of_nat r) (this + r) this (remaining - of_nat r) s"
  using assms by (auto simp: goes_on_def bind_def Let_def)

lemma bind_lift_Ok: "bind (lift_res (Ok x)) f = f x"
  by (rule ext) (simp add: bind_def)

lemma loop_stop:
  assumes "\<not> (progr < bs \<and> (\<exists>e r. read_dir_entry buf (unat progr) = Ok (e, r) \<and> goes_on name fie e (remaining - of_nat r)))"
  shows "fst (find_in_block_loop (Suc n) fs bs name lba delete fie buf progr this prev remaining s) \<noteq> Diverge"
proof (cases "progr < bs \<and> (\<exists>e r. read_dir_entry buf (unat progr) = Ok (e, r))")
  case True
  then obtain e r where p: "progr < bs" and e: "read_dir_entry buf (unat progr) = Ok (e, r)" by blast
  have "returns (bind (if delete then
      bind (lift_res (remove_entry buf e this prev)) (\<lambda>buf.
      bind (write_sectors (io_handler fs) buf lba) (\<lambda>_. ret buf))
    else ret buf) (\<lambda>buf. ret (Some (uint (de_inode e)), t, buf, rem)))" for t :: bool and rem :: u32
    by (intro returns_intros remove_entry_returns)
  then show ?thesis using p e assms
    by (auto simp: goes_on_def returns_def Let_def bind_lift_Ok)
next
  case False
  then show ?thesis
    using read_dir_entry_returns(1) [of buf "unat progr"]
    by (cases "read_dir_entry buf (unat progr)") (auto simp: bind_def)
qed

text \<open>A record of length zero that does not end the search keeps it in place.\<close>

lemma zero_record_diverges:
  assumes "progr < bs" "read_dir_entry buf (unat progr) = Ok (e, 0)" "goes_on name fie e remaining"
  shows "find_in_block_loop n fs bs name lba delete fie buf progr this prev remaining s = (Diverge, s)"
proof (induction n arbitrary: this prev)
  case (Suc n)
  have "find_in_block_loop (Suc n) fs bs name lba delete fie buf progr this prev remaining s =
      find_in_block_loop n fs bs name lba delete fie buf progr this this remaining s"
    using loop_turn [OF assms(1,2), of name fie remaining n fs lba delete this prev s] assms(3) by simp
  then show ?case using Suc.IH by simp
qed simp

lemma progr_add:
  assumes "progr < bs" "unat (bs :: u32) \<le> 65536" "r < 65536"
  shows "unat (progr + of_nat r) = unat progr + r"
  using assms by (simp add: word_less_nat_alt unat_word_ariths unat_of_nat)

text \<open>The walk of the search over the records: whether it comes to one of length zero that does not stop it.\<close>

function comes_to_zero :: "string \<Rightarrow> bool \<Rightarrow> bytes \<Rightarrow> nat \<Rightarrow> nat \<Rightarrow> u32 \<Rightarrow> bool" where
  "comes_to_zero name fie buf n off remaining = (if n \<le> off then False else case read_dir_entry buf off of
     Ok (e, r) \<Rightarrow> goes_on name fie e (remaining - of_nat r) \<and>
       (if r = 0 then True else comes_to_zero name fie buf n (off + r) (remaining - of_nat r))
   | _ \<Rightarrow> False)"
  by pat_completeness auto
termination by (relation "measure (\<lambda>(name, fie, buf, n, off, remaining). n - off)") auto

text \<open>The records visited when nothing stops the walk before the end of the block.\<close>

function no_zero_record :: "bytes \<Rightarrow> nat \<Rightarrow> nat \<Rightarrow> bool" where
  "no_zero_record buf n off = (if n \<le> off then True else case read_dir_entry buf off of
     Ok (e, r) \<Rightarrow> (if r = 0 then False else no_zero_record buf n (off + r))
   | _ \<Rightarrow> True)"
  by pat_completeness auto
termination by (relation "measure (\<lambda>(buf, n, off). n - off)") auto

declare comes_to_zero.simps [simp del] no_zero_record.simps [simp del]

lemma no_zero_record_ends: "no_zero_record buf n off \<Longrightarrow> \<not> comes_to_zero name fie buf n off remaining"
proof (induction name fie buf n off remaining rule: comes_to_zero.induct)
  case (1 name fie buf n off remaining)
  show ?case
  proof (cases "read_dir_entry buf off")
    case (Ok p)
    then show ?thesis
      using 1 by (cases p) (auto simp: comes_to_zero.simps [of _ _ _ _ off] no_zero_record.simps [of _ _ off] split: if_splits)
  qed (simp_all add: comes_to_zero.simps [of _ _ _ _ off])
qed

lemma laid_out_no_zero: "laid_out buf off es \<Longrightarrow> no_zero_record buf (length buf) off"
proof (induction es arbitrary: off)
  case Nil
  then show ?case by (simp add: no_zero_record.simps)
next
  case (Cons e es)
  then have "0 < unat (de_rec_len e)" by simp
  with Cons show ?case by (simp add: no_zero_record.simps [of _ _ off])
qed

lemma loop_ends_iff:
  assumes "unat bs \<le> 65536" "unat bs - unat progr < n"
  shows "fst (find_in_block_loop n fs bs name lba delete fie buf progr this prev remaining s) = Diverge \<longleftrightarrow>
    comes_to_zero name fie buf (unat bs) (unat progr) remaining"
  using assms(2)
proof (induction n arbitrary: progr this prev remaining)
  case (Suc n)
  show ?case
  proof (cases "progr < bs \<and> (\<exists>e r. read_dir_entry buf (unat progr) = Ok (e, r) \<and> goes_on name fie e (remaining - of_nat r))")
    case True
    then obtain e r where e: "progr < bs" "read_dir_entry buf (unat progr) = Ok (e, r)" "goes_on name fie e (remaining - of_nat r)"
      by blast
    note c = comes_to_zero.simps [of name fie buf "unat bs" "unat progr" remaining]
    show ?thesis
    proof (cases "r = 0")
      case True
      then show ?thesis using e c by (simp add: zero_record_diverges word_less_nat_alt del: find_in_block_loop.simps)
    next
      case False
      have p: "unat (progr + of_nat r) = unat progr + r"
        using progr_add [OF e(1) assms(1) read_dir_entry_returns(2) [OF e(2)]] .
      then have "unat bs - unat (progr + of_nat r) < n" using False Suc.prems e(1) by (simp add: word_less_nat_alt)
      from Suc.IH [OF this] p e False c show ?thesis
        by (simp add: loop_turn [OF e] word_less_nat_alt del: find_in_block_loop.simps)
    qed
  next
    case False
    moreover have "\<not> comes_to_zero name fie buf (unat bs) (unat progr) remaining"
      using False by (auto simp: comes_to_zero.simps [of _ _ _ _ "unat progr"] word_less_nat_alt split: res.splits)
    ultimately show ?thesis using loop_stop [of progr bs buf name fie remaining] by blast
  qed
qed simp

lemma loop_fuel:
  assumes "unat bs \<le> 65536" "unat bs - unat progr < n"
    and "fst (find_in_block_loop n fs bs name lba delete fie buf progr this prev remaining s) = Diverge"
  shows "fst (find_in_block_loop m fs bs name lba delete fie buf progr this prev remaining s) = Diverge"
  using assms(2,3)
proof (induction n arbitrary: progr this prev remaining m)
  case (Suc n)
  then obtain e r where e: "progr < bs" "read_dir_entry buf (unat progr) = Ok (e, r)" "goes_on name fie e (remaining - of_nat r)"
    using loop_stop [of progr bs buf name fie remaining n fs lba delete this prev s] by blast
  show ?case
  proof (cases m)
    case m: (Suc m')
    show ?thesis
    proof (cases "r = 0")
      case True
      with e show ?thesis by (simp add: zero_record_diverges)
    next
      case False
      have "unat (progr + of_nat r) = unat progr + r"
        using progr_add [OF e(1) assms(1) read_dir_entry_returns(2) [OF e(2)]] .
      then have "unat bs - unat (progr + of_nat r) < n"
        using False Suc.prems(1) e(1) by (simp add: word_less_nat_alt)
      from Suc.IH [OF this] show ?thesis
        using Suc.prems(2) by (simp add: m loop_turn [OF e] del: find_in_block_loop.simps)
    qed
  qed simp
qed simp

section \<open>Properties\<close>

text \<open>C24. The search of a directory block fails to end exactly if, following the record lengths, it comes to a
  record of length zero that does not stop it, and then no number of turns would end it.  In particular it
  ends on every block without a record of length zero among those it visits, as are all blocks of
  well-formed records.\<close>

theorem find_in_block_ends:
  fixes fs name buf lba delete find_is_empty remaining s
  defines "bs \<equiv> block_size (super_block s)"
  assumes "unat bs \<le> 65536"
  shows "(fst (find_entry_by_name_in_block fs name buf lba delete find_is_empty remaining s) = Diverge \<longleftrightarrow>
      comes_to_zero name find_is_empty buf (unat bs) 0 remaining) \<and>
    (fst (find_entry_by_name_in_block fs name buf lba delete find_is_empty remaining s) = Diverge \<longrightarrow>
      (\<forall>n. fst (find_in_block_loop n fs bs name lba delete find_is_empty buf 0 0 0 remaining s) = Diverge)) \<and>
    (no_zero_record buf (unat bs) 0 \<or> (\<exists>es. laid_out buf 0 es \<and> length buf = unat bs) \<longrightarrow>
      fst (find_entry_by_name_in_block fs name buf lba delete find_is_empty remaining s) \<noteq> Diverge)"
proof -
  let ?loop = "\<lambda>n. find_in_block_loop n fs bs name lba delete find_is_empty buf 0 0 0 remaining s"
  have eq: "find_entry_by_name_in_block fs name buf lba delete find_is_empty remaining s = ?loop (unat bs + 1)"
    by (simp add: find_entry_by_name_in_block_def bs_def bind_def Let_def del: find_in_block_loop.simps)
  have iff: "fst (?loop (unat bs + 1)) = Diverge \<longleftrightarrow> comes_to_zero name find_is_empty buf (unat bs) 0 remaining"
    using loop_ends_iff [OF assms(2), of 0 "unat bs + 1"] by simp
  have fuel: "fst (?loop (unat bs + 1)) = Diverge \<longrightarrow> (\<forall>n. fst (?loop n) = Diverge)"
    using loop_fuel [OF assms(2), of 0 "unat bs + 1"] by (simp del: find_in_block_loop.simps)
  have "no_zero_record buf (unat bs) 0 \<or> (\<exists>es. laid_out buf 0 es \<and> length buf = unat bs) \<longrightarrow>
      no_zero_record buf (unat bs) 0"
    using laid_out_no_zero by metis
  then show ?thesis unfolding eq using iff fuel no_zero_record_ends by blast
qed

text \<open>In the example directory the search for an absent name visits both records and ends; in a block of
  zeros it turns on the spot.\<close>

theorem find_in_block_ends_witness:
  "fst (find_entry_by_name_in_block sample_fs ''b'' sample_dir_block 40 False False 1024 sample_dir_state) \<noteq> Diverge \<and>
   fst (find_entry_by_name_in_block sample_fs ''b'' (replicate 1024 0) 40 False False 1024 sample_dir_state) = Diverge"
proof -
  have bs: "unat (block_size (super_block sample_dir_state)) = 1024" by (simp add: sample_dir_state_def)
  have "read_dir_entry (replicate 1024 0) 0 =
      Ok (\<lparr> de_inode = 0, de_rec_len = 0, de_file_type = 0, de_name = [] \<rparr>, 0)"
    by (subst read_dir_entry_iff) (simp_all add: name_len_at_def from_le_def sub_list_def)
  then have "comes_to_zero ''b'' False (replicate 1024 0) 1024 0 1024"
    by (simp add: comes_to_zero.simps goes_on_def)
  then show ?thesis
    using find_in_block_ends [of sample_dir_state sample_fs "''b''" sample_dir_block 40 False False 1024]
      find_in_block_ends [of sample_dir_state sample_fs "''b''" "replicate 1024 0" 40 False False 1024]
      sample_dir_laid_out by (auto simp: bs)
qed

end
