(* ===== verification/Ext2Ops.thy ===== *)
theory Ext2Ops
  imports Ext2Dir Paths
begin

text \<open>
  The operations of the ext2 driver on whole files and directories: path
  lookup and opening (\<^verbatim>\<open>drivers/fs/ext2/open.rs\<close>), creation
  (\<^verbatim>\<open>create_file.rs\<close>), deletion (\<^verbatim>\<open>delete.rs\<close>), and \<^verbatim>\<open>mkdir\<close> and \<^verbatim>\<open>rmdir\<close>
  (\<^verbatim>\<open>dirs.rs\<close>).
\<close>

section \<open>Looking a path up\<close>

definition ROOT_DIRECTORY_INODE_IDX :: u32 where
  "ROOT_DIRECTORY_INODE_IDX = 2"

fun walk_components :: "Ext2Fs \<Rightarrow> string list \<Rightarrow> InodePlus \<Rightarrow> u32 \<Rightarrow> (u32 \<times> InodePlus option) fs_io" where
  "walk_components fs [] ino directory_inode_idx = ret (directory_inode_idx, None)"
| "walk_components fs (component # rest) ino directory_inode_idx =
     bind (find_entry_by_name fs component ino) (\<lambda>r. case r of
       Some res \<Rightarrow>
         bind (get_nth_inode fs (as_u32 res)) (\<lambda>i.
         if rest = [] then ret (directory_inode_idx, Some i)
         else walk_components fs rest i (as_u32 res))
     | None \<Rightarrow>
         if rest = [] then ret (directory_inode_idx, None) else fail NoSuchFileOrDirectory)"

definition walk_path :: "Ext2Fs \<Rightarrow> Path \<Rightarrow> (InodePlus \<times> InodePlus option) fs_io" where
  "walk_path fs p =
     bind (get_group (group_manager fs) 0) (\<lambda>group.
     bind (read_sectors (io_handler fs) (replicate 512 0) (get_inode_table_lba group)) (\<lambda>_.
     bind (get_nth_inode fs 2) (\<lambda>root.
     bind (walk_components fs (components_list (components (normalize p))) root ROOT_DIRECTORY_INODE_IDX)
     (\<lambda>(directory_inode_idx, file_inode).
     bind (get_nth_inode fs directory_inode_idx) (\<lambda>dir. ret (dir, file_inode))))))"

section \<open>Creating\<close>

fun store_addrs :: "nat \<Rightarrow> AllocatedBlock list \<Rightarrow> u32 list \<Rightarrow> u32 list" where
  "store_addrs i [] blocks = blocks"
| "store_addrs i (b # bs) blocks = store_addrs (Suc i) bs (blocks[i := as_u32 (addr b)])"

definition allocated_blocks_for_new_inode :: "Ext2Fs \<Rightarrow> Inode \<Rightarrow> int \<Rightarrow> nat \<Rightarrow>
    (AllocatedBlock list \<times> Inode) fs_io" where
  "allocated_blocks_for_new_inode fs ino gr num =
    (if 12 < num then fail Unsupported
     else
       bind (allocate_n_blocks_in_group (block_allocator fs) gr num) (\<lambda>bs.
       ret (bs, ino \<lparr> i_block := store_addrs 0 bs (i_block ino),
         i_blocks := i_blocks ino + word_of_nat (length bs) * word_of_nat BLOCK_SIZE div 512 \<rparr>)))"

fun first_clear_bit :: "bytes \<Rightarrow> nat list \<Rightarrow> (HalFsIOErr, nat option) res" where
  "first_clear_bit buf [] = Ok None"
| "first_clear_bit buf (i # rest) =
    (if length buf \<le> i div 8 then Panic
     else if buf ! (i div 8) AND push_bit (i mod 8) 1 = 0 then Ok (Some i)
     else first_clear_bit buf rest)"

fun find_inode_in_groups :: "Ext2Fs \<Rightarrow> bytes \<Rightarrow> u32 list \<Rightarrow> InodePlus fs_io" where
  "find_inode_in_groups fs buf [] = fail NoAvailableInode"
| "find_inode_in_groups fs buf (gr # grs) =
     bind get_st (\<lambda>s.
     let lba = i64 (get_block_group_table_lba fs (super_block s) + desc_lba_offset (uint gr)) in
     bind (if 0 \<noteq> lba then read_sectors (io_handler fs) buf lba else ret buf) (\<lambda>buf.
     bind (lift_res (get_group_from_buffer (group_manager fs) (uint gr) buf)) (\<lambda>group.
     if bg_free_inodes_count (descriptor group) = 0 then find_inode_in_groups fs buf grs
     else
       bind (read_sectors (io_handler fs) (get_buffer (buffer_size fs)) (get_inode_bitmap_lba group)) (\<lambda>bitmap.
       bind (lift_res (first_clear_bit bitmap [0..<unat (s_inodes_per_group (super_block s))])) (\<lambda>r.
       case r of
         Some i \<Rightarrow> ret (relative_idx_to_inode_plus (super_block s) inode_default gr (word_of_nat i))
       | None \<Rightarrow> find_inode_in_groups fs buf grs)))))"

definition find_available_inode :: "Ext2Fs \<Rightarrow> InodePlus fs_io" where
  "find_available_inode fs =
     bind get_st (\<lambda>s.
     bind (lift_res (block_groups_count (super_block s))) (\<lambda>group_count.
     find_inode_in_groups fs (get_buffer (buffer_size fs)) (map word_of_nat [0..<unat group_count])))"

definition write_changes :: "Ext2Fs \<Rightarrow> InodePlus \<Rightarrow> unit fs_io" where
  "write_changes fs ip =
     bind (write_newly_allocated_blocks (block_allocator fs) (get_buffer (buffer_size fs))) (\<lambda>_.
     write_new_inode fs ip)"

definition new_inode :: "u32 \<Rightarrow> bool \<Rightarrow> int \<Rightarrow> Inode" where
  "new_inode time is_dir perms = \<lparr>
     i_mode = word_of_int perms OR (if is_dir then 0x4000 else 0x8000), i_uid = 0, i_size = 0,
     i_atime = time, i_ctime = time, i_mtime = time, i_dtime = 0, i_gid = 0,
     i_links_count = (if is_dir then 2 else 1), i_blocks = 0, i_flags = 0, i_osd1 = 0,
     i_block = replicate 15 0, i_generation = 0, i_file_acl = 0, i_dir_acl = 0, i_faddr = 0,
     i_osd2 = replicate 12 0 \<rparr>"

definition saturating_inc :: "u16 \<Rightarrow> u16" where
  "saturating_inc w = (if w = - 1 then w else w + 1)"

definition create_inode :: "Ext2Fs \<Rightarrow> InodePlus \<Rightarrow> string \<Rightarrow> bool \<Rightarrow> int \<Rightarrow> InodePlus fs_io" where
  "create_inode fs dir_inode name is_dir perms =
    (if 255 < length name then fail NameTooLong
     else if \<not> is_directory (inode dir_inode) then fail NotADirectory
     else
       bind read_clock (\<lambda>t.
       bind (find_available_inode fs) (\<lambda>allocated.
       bind get_st (\<lambda>s.
       bind (allocated_blocks_for_new_inode fs
         (new_inode (case t of None \<Rightarrow> 0 | Some dt \<Rightarrow> rtc_to_posix dt) is_dir perms)
         (uint (ip_group_number allocated))
         (unat (if is_dir then s_prealloc_dir_blocks (super_block s) else s_prealloc_blocks (super_block s))))
       (\<lambda>(_, ino).
       let allocated = allocated \<lparr> inode := ino \<rparr> in
       bind (add_dir_entry fs dir_inode (absolute_idx allocated) name) (\<lambda>dir_inode.
       bind (if is_dir then
           bind (add_dir_entry fs allocated (absolute_idx allocated) ''.'') (\<lambda>allocated.
           bind (add_dir_entry fs allocated (absolute_idx dir_inode) ''..'') (\<lambda>allocated.
           let dir_inode = update_inode (\<lambda>i. i \<lparr> i_links_count := saturating_inc (i_links_count i) \<rparr>) dir_inode in
           bind (write_inode fs dir_inode) (\<lambda>_. ret (dir_inode, allocated))))
         else ret (dir_inode, allocated)) (\<lambda>(dir_inode, allocated).
       bind (write_changes fs allocated) (\<lambda>_.
       bind (write_inode fs dir_inode) (\<lambda>_.
       ret allocated)))))))))"

definition create_file :: "Ext2Fs \<Rightarrow> InodePlus \<Rightarrow> string \<Rightarrow> int \<Rightarrow> InodePlus fs_io" where
  "create_file fs dir_inode name perms = create_inode fs dir_inode name False perms"

section \<open>Opening\<close>

datatype OpenAccessMode = ReadOnly | WriteOnly | ReadNWrite | Search | ExecuteOnly

record OpenFlags =
  access_mode :: OpenAccessMode
  flags :: int
  perms :: "int option"

definition CreateIfNotExist :: int where "CreateIfNotExist = 4"

definition ErrorIfCreateFileExists :: int where "ErrorIfCreateFileExists = 16"

datatype HalInode = Ext2Inode InodePlus

definition ok_or :: "'e \<Rightarrow> 'a option \<Rightarrow> ('e, 'a) res" where
  "ok_or e x = (case x of None \<Rightarrow> Err e | Some v \<Rightarrow> Ok v)"

definition open_file :: "Ext2Fs \<Rightarrow> Path \<Rightarrow> OpenFlags \<Rightarrow> HalInode fs_io" where
  "open_file fs p fl =
     bind (walk_path fs p) (\<lambda>(directory_inode, file_inode).
     bind (case file_inode of
         Some i \<Rightarrow> ret i
       | None \<Rightarrow>
           if flags fl AND CreateIfNotExist \<noteq> 0 then
             bind (lift_res (ok_or BadPath (file_name p))) (\<lambda>name.
             bind (lift_res (ok_or NoPermsProvided (perms fl))) (\<lambda>pm.
             create_file fs directory_inode name pm))
           else fail NoSuchFileOrDirectory) (\<lambda>i.
     if file_inode \<noteq> None \<and> flags fl AND ErrorIfCreateFileExists \<noteq> 0 then fail FileExists
     else ret (Ext2Inode i)))"

section \<open>Freeing\<close>

definition free_block :: "Ext2Fs \<Rightarrow> u32 \<Rightarrow> int \<times> bytes \<Rightarrow> (int \<times> bytes) fs_io" where
  "free_block fs block_lba = (\<lambda>(cur_bitmap_lba, buf).
     bind (get_group_from_block_idx (group_manager fs) block_lba) (\<lambda>group.
     let bitmap_lba = get_block_bitmap_lba group in
     bind (if cur_bitmap_lba \<noteq> bitmap_lba then read_sectors (io_handler fs) buf bitmap_lba else ret buf) (\<lambda>buf.
     let i = unat block_lba mod unat (blocks_per_group (group_manager fs)) in
     if length buf \<le> i div 8 then crash
     else let buf = clear_bit_at buf i in
       bind (write_sectors (io_handler fs) buf bitmap_lba) (\<lambda>_.
       bind (add_freed_block block_lba) (\<lambda>_. ret (bitmap_lba, buf))))))"

text \<open>The pointers of a block, up to the first zero, each given to \<open>act\<close>.\<close>

fun free_pointers :: "bytes \<Rightarrow> nat list \<Rightarrow> (u32 \<Rightarrow> int \<times> bytes \<Rightarrow> (int \<times> bytes) fs_io) \<Rightarrow> int \<times> bytes \<Rightarrow>
    (int \<times> bytes) fs_io" where
  "free_pointers buf [] act c = ret c"
| "free_pointers buf (i # rest) act c =
     bind (lift_res (deserialize_u32_at buf i)) (\<lambda>v.
     if v = 0 then ret c else bind (act v c) (\<lambda>c. free_pointers buf rest act c))"

definition pointer_offsets :: "nat list" where
  "pointer_offsets = map (\<lambda>k. 4 * k) [0..<BLOCK_SIZE div 4]"

definition free_indirect_block :: "Ext2Fs \<Rightarrow> u32 \<Rightarrow> int \<times> bytes \<Rightarrow> (int \<times> bytes) fs_io" where
  "free_indirect_block fs block_idx c =
     bind (read_block (io_handler fs) (replicate BLOCK_SIZE 0) block_idx) (\<lambda>buf.
     bind (free_pointers buf pointer_offsets (free_block fs) c) (\<lambda>c. free_block fs block_idx c))"

text \<open>The double-indirect loop passes its own block on, not the pointer it read.\<close>

definition free_double_indirect_block :: "Ext2Fs \<Rightarrow> u32 \<Rightarrow> int \<times> bytes \<Rightarrow> (int \<times> bytes) fs_io" where
  "free_double_indirect_block fs block_idx c =
     bind (read_block (io_handler fs) (replicate BLOCK_SIZE 0) block_idx) (\<lambda>buf.
     bind (free_pointers buf pointer_offsets (\<lambda>_. free_indirect_block fs block_idx) c) (\<lambda>c.
     free_block fs block_idx c))"

definition free_triple_indirect_block :: "Ext2Fs \<Rightarrow> u32 \<Rightarrow> int \<times> bytes \<Rightarrow> (int \<times> bytes) fs_io" where
  "free_triple_indirect_block fs block_idx c =
     bind (read_block (io_handler fs) (replicate BLOCK_SIZE 0) block_idx) (\<lambda>buf.
     bind (free_pointers buf pointer_offsets (free_double_indirect_block fs) c) (\<lambda>c.
     free_block fs block_idx c))"

text \<open>The direct pointers; \<open>None\<close> is the early return at a zero pointer.\<close>

fun free_direct :: "Ext2Fs \<Rightarrow> u32 list \<Rightarrow> int \<times> bytes \<Rightarrow> (int \<times> bytes) option fs_io" where
  "free_direct fs [] c = ret (Some c)"
| "free_direct fs (b # bs) c =
    (if b = 0 then ret None else bind (free_block fs b c) (\<lambda>c. free_direct fs bs c))"

definition free_blocks :: "Ext2Fs \<Rightarrow> InodePlus \<Rightarrow> unit fs_io" where
  "free_blocks fs ip =
    (let ino = inode ip; n = unat (i_blocks ino) in
     bind (free_direct fs (take 12 (i_block ino)) (0, replicate BLOCK_SIZE 0)) (\<lambda>r. case r of
       None \<Rightarrow> ret ()
     | Some c \<Rightarrow>
       bind (if INODE_BLOCK_LIMIT < n then free_indirect_block fs (i_block ino ! 12) c else ret c) (\<lambda>c.
       bind (if INODE_IND_BLOCK_LIMIT < n then free_double_indirect_block fs (i_block ino ! 13) c else ret c) (\<lambda>c.
       bind (if INODE_DOUBLE_IND_BLOCK_LIMIT < n then free_triple_indirect_block fs (i_block ino ! 14) c else ret c) (\<lambda>_.
       bind get_st (\<lambda>s. let bs = block_size (super_block s) in
       if bs = 0 then crash
       else modify (\<lambda>s. s \<lparr> super_block := (super_block s)
         \<lparr> s_free_blocks_count := s_free_blocks_count (super_block s) + i_blocks ino div bs \<rparr> \<rparr>)))))))"

definition free_inode :: "Ext2Fs \<Rightarrow> InodePlus \<Rightarrow> unit fs_io" where
  "free_inode fs ip =
     bind (free_blocks fs ip) (\<lambda>_.
     bind posix_now (\<lambda>time.
     let ip = update_inode (\<lambda>i. i \<lparr> i_dtime := time, i_blocks := 0 \<rparr>) ip in
     bind (write_inode fs ip) (\<lambda>_.
     bind (get_group (group_manager fs) (uint (ip_group_number ip))) (\<lambda>group.
     let lba = get_inode_bitmap_lba group; i = unat (relative_idx ip) in
     bind (read_sectors (io_handler fs) (replicate BLOCK_SIZE 0) lba) (\<lambda>buf.
     if length buf \<le> i div 8 then crash
     else
       bind (write_sectors (io_handler fs) (clear_bit_at buf i) lba) (\<lambda>_.
       bind (modify (\<lambda>s. s \<lparr> super_block := (super_block s)
         \<lparr> s_free_inodes_count := s_free_inodes_count (super_block s) + 1 \<rparr> \<rparr>)) (\<lambda>_.
       bind get_st (\<lambda>s.
       bind (lift_res (overlay (replicate (length buf) 0) (super_block_bytes (super_block s)))) (\<lambda>buf.
       bind (write_sectors (io_handler fs) buf RESERVED_BOOT_RECORD_OFFSET) (\<lambda>_.
       write_freed_blocks (block_allocator fs)))))))))))"

definition delete_file :: "Ext2Fs \<Rightarrow> Path \<Rightarrow> unit fs_io" where
  "delete_file fs p =
     bind (walk_path fs p) (\<lambda>(directory_inode, file_inode).
     bind (lift_res (ok_or BadPath (file_name p))) (\<lambda>name.
     bind (find_entry_by_name_and_delete fs name directory_inode) (\<lambda>_.
     case file_inode of
       None \<Rightarrow> fail NoSuchFileOrDirectory
     | Some ip \<Rightarrow>
         let ip = update_inode (\<lambda>i. i \<lparr> i_links_count := i_links_count i - 1 \<rparr>) ip in
         if i_links_count (inode ip) = 0 then free_inode fs ip else ret ())))"

section \<open>Directories\<close>

definition mkdir :: "Ext2Fs \<Rightarrow> Path \<Rightarrow> int \<Rightarrow> InodePlus fs_io" where
  "mkdir fs p pm =
     bind (walk_path fs p) (\<lambda>(dir_inode, file_inode).
     if file_inode \<noteq> None then fail FileExists
     else bind (lift_res (ok_or BadPath (file_name p))) (\<lambda>name. create_inode fs dir_inode name True pm))"

text \<open>The emptiness test and the release concern the parent directory.\<close>

definition rmdir :: "Ext2Fs \<Rightarrow> Path \<Rightarrow> unit fs_io" where
  "rmdir fs p =
     bind (walk_path fs p) (\<lambda>(dir_inode, file_inode).
     case file_inode of
       None \<Rightarrow> fail NoSuchFileOrDirectory
     | Some file_inode \<Rightarrow>
         if \<not> is_directory (inode file_inode) then fail NotADirectory
         else bind (is_dir_empty fs dir_inode) (\<lambda>empty.
           if \<not> empty then fail DirectoryNotEmpty else free_inode fs dir_inode))"

end
