(* ===== verification/Fifo.thy ===== *)
theory Fifo
  imports Prelude
begin

text \<open>
  What the clients of a channel rely on: messages come out in the order they
  went in.  \<open>rep s q\<close> says that the channel in state \<open>s\<close> holds the messages \<open>q\<close>, and
  \<open>fits s q n\<close> that it takes \<open>n\<close> more.  Both channels of \<^verbatim>\<open>ejcineque/sync/mpsc\<close> are
  instances.
\<close>

locale fifo_channel =
  fixes rep :: "'s \<Rightarrow> 'a list \<Rightarrow> bool"
    and fits :: "'s \<Rightarrow> 'a list \<Rightarrow> nat \<Rightarrow> bool"
    and put :: "'a \<Rightarrow> ('s, 'e, 'a + unit) st"
    and get :: "('s, 'e, 'a option) st"
  assumes put_ok: "rep s q \<Longrightarrow> fits s q (Suc n) \<Longrightarrow>
      \<exists>s'. put m s = (Ok (Inr ()), s') \<and> rep s' (q @ [m]) \<and> fits s' (q @ [m]) n"
    and get_none: "rep s [] \<Longrightarrow> get s = (Ok None, s)"
    and get_some: "rep s (m # q) \<Longrightarrow> \<exists>s'. get s = (Ok (Some m), s') \<and> rep s' q"
begin

fun put_all :: "'a list \<Rightarrow> ('s, 'e, unit) st" where
  "put_all [] = ret ()"
| "put_all (m # ms) = bind (put m) (\<lambda>_. put_all ms)"

fun get_all :: "nat \<Rightarrow> ('s, 'e, 'a list) st" where
  "get_all 0 = ret []"
| "get_all (Suc n) = bind get (\<lambda>r. case r of None \<Rightarrow> ret [] | Some m \<Rightarrow> bind (get_all n) (\<lambda>ms. ret (m # ms)))"

lemma put_all_ok: "rep s q \<Longrightarrow> fits s q (length ms) \<Longrightarrow>
    \<exists>s'. put_all ms s = (Ok (), s') \<and> rep s' (q @ ms)"
proof (induction ms arbitrary: s q)
  case (Cons m ms)
  obtain s1 where s1: "put m s = (Ok (Inr ()), s1)" "rep s1 (q @ [m])" "fits s1 (q @ [m]) (length ms)"
    using put_ok [OF Cons.prems(1)] Cons.prems(2) by force
  from Cons.IH [OF s1(2,3)] s1(1) show ?case by (auto simp: bind_def)
qed auto

lemma get_all_ok: "rep s q \<Longrightarrow> length q \<le> n \<Longrightarrow> \<exists>s'. get_all n s = (Ok q, s') \<and> rep s' []"
proof (induction n arbitrary: s q)
  case (Suc n)
  show ?case
  proof (cases q)
    case Nil
    with Suc.prems get_none [of s] show ?thesis by (auto simp: bind_def)
  next
    case (Cons m q')
    then obtain s1 where s1: "get s = (Ok (Some m), s1)" "rep s1 q'" using Suc.prems(1) get_some by blast
    from Suc.IH [OF s1(2)] Suc.prems(2) s1(1) show ?thesis by (auto simp: bind_def Cons)
  qed
qed simp

text \<open>Everything sent is received, once and in order.\<close>

lemma put_get_all: "rep s q \<Longrightarrow> fits s q (length ms) \<Longrightarrow> length q + length ms \<le> n \<Longrightarrow>
    \<exists>s'. bind (put_all ms) (\<lambda>_. get_all n) s = (Ok (q @ ms), s') \<and> rep s' []"
  using put_all_ok [of s q ms] get_all_ok [of _ "q @ ms" n] by (fastforce simp: bind_def)

end

end
