(* ===== verification/Bounded.thy ===== *)
theory Bounded
  imports Fifo
begin

text \<open>
  The lock-free bounded channel (\<^verbatim>\<open>ejcineque/sync/mpsc/bounded.rs\<close>): a ring of
  message slots and a ring of waker slots, each slot with a state word.

  This theory runs every method without interruption and shows that the
  channel is then a first-in first-out queue of limited length.  What happens
  when the methods of several threads interleave is the subject of
  \<^verbatim>\<open>Interleave\<close>.  The loops of the source run on fuel; running out of it is the
  outcome \<open>Diverge\<close>, which the lemmas exclude.
\<close>

section \<open>The channel\<close>

text \<open>The state word of a slot: 0 empty, 1 writing, 2 ready, 3 reading.\<close>

datatype slot_state = SEmpty | SWriting | SReady | SReading

text \<open>A value that is not initialised, or has been moved out, is \<open>None\<close>.\<close>

record 'a Slot =
  slot_value :: "'a option"
  slot_st :: slot_state

definition slot_new :: "'a Slot" where
  "slot_new = \<lparr> slot_value = None, slot_st = SEmpty \<rparr>"

text \<open>The last field records the wakers that were called, the oldest first.\<close>

record ('a, 'w) Channel =
  buffer :: "'a Slot list"
  chan_wakers :: "'w Slot list"
  write_pos :: u64
  read_pos :: u64
  waker_write_pos :: u64
  waker_read_pos :: u64
  sender_count :: u64
  closed :: bool
  woken :: "'w list"

definition channel_new :: "nat \<Rightarrow> ('a, 'w) Channel" where
  "channel_new capacity = \<lparr> buffer = replicate capacity slot_new, chan_wakers = replicate capacity slot_new,
     write_pos = 0, read_pos = 0, waker_write_pos = 0, waker_read_pos = 0, sender_count = 1,
     closed = False, woken = [] \<rparr>"

type_synonym ('a, 'w, 'r) chan_op = "(('a, 'w) Channel, unit, 'r) st"

text \<open>A slot that is claimed by a successful \<^verbatim>\<open>compare_exchange\<close>, used and released again.\<close>

definition fill_slot :: "'b \<Rightarrow> 'b Slot" where
  "fill_slot x = \<lparr> slot_value = Some x, slot_st = SReady \<rparr>"

definition drain_slot :: "'b Slot" where
  "drain_slot = \<lparr> slot_value = None, slot_st = SEmpty \<rparr>"

text \<open>\<^verbatim>\<open>compare_exchange(pos, pos + 1)\<close> on a position.\<close>

definition bump_if :: "u64 \<Rightarrow> u64 \<Rightarrow> u64" where
  "bump_if seen pos = (if pos = seen then seen + 1 else pos)"

section \<open>Wakers\<close>

fun try_wake_loop :: "nat \<Rightarrow> ('a, 'w, unit) chan_op" where
  "try_wake_loop 0 = diverge"
| "try_wake_loop (Suc n) = bind get_st (\<lambda>c.
     if waker_read_pos c = waker_write_pos c then ret ()
     else if chan_wakers c = [] then crash
     else
       let i = unat (waker_read_pos c) mod length (chan_wakers c); slot = chan_wakers c ! i in
       if slot_st slot = SReady then
         (case slot_value slot of None \<Rightarrow> crash | Some w \<Rightarrow>
           modify (\<lambda>c. c \<lparr> chan_wakers := (chan_wakers c)[i := drain_slot],
             waker_read_pos := waker_read_pos c + 1, woken := woken c @ [w] \<rparr>))
       else
         bind (modify (\<lambda>d. d \<lparr> waker_read_pos := bump_if (waker_read_pos c) (waker_read_pos d) \<rparr>))
           (\<lambda>_. try_wake_loop n))"

definition try_wake_receiver :: "('a, 'w, unit) chan_op" where
  "try_wake_receiver = bind get_st (\<lambda>c. try_wake_loop (unat (waker_write_pos c - waker_read_pos c) + 1))"

text \<open>The remaining attempts of the source are the recursion argument here.\<close>

fun register_loop :: "nat \<Rightarrow> 'w \<Rightarrow> ('a, 'w, unit) chan_op" where
  "register_loop 0 w = ret ()"
| "register_loop (Suc n) w = bind get_st (\<lambda>c.
     let i = unat (waker_write_pos c) mod length (chan_wakers c) in
     if slot_st (chan_wakers c ! i) = SEmpty then
       modify (\<lambda>c. c \<lparr> chan_wakers := (chan_wakers c)[i := fill_slot w],
         waker_write_pos := waker_write_pos c + 1 \<rparr>)
     else
       bind (modify (\<lambda>d. d \<lparr> waker_write_pos := bump_if (waker_write_pos c) (waker_write_pos d) \<rparr>))
         (\<lambda>_. register_loop n w))"

definition register_waker :: "'w \<Rightarrow> ('a, 'w, unit) chan_op" where
  "register_waker w = bind get_st (\<lambda>c. register_loop (length (chan_wakers c)) w)"

definition is_closed :: "('a, 'w) Channel \<Rightarrow> bool" where
  "is_closed c \<longleftrightarrow> closed c \<and> sender_count c = 0"

section \<open>Messages\<close>

text \<open>\<open>Inl\<close> gives the message back (\<^verbatim>\<open>Err(msg)\<close>), \<open>Inr ()\<close> is \<^verbatim>\<open>Ok(())\<close>.\<close>

fun try_send_loop :: "nat \<Rightarrow> 'a \<Rightarrow> ('a, 'w, 'a + unit) chan_op" where
  "try_send_loop 0 msg = diverge"
| "try_send_loop (Suc n) msg = bind get_st (\<lambda>c.
     if length (buffer c) \<le> unat (write_pos c - read_pos c) then ret (Inl msg)
     else
       let i = unat (write_pos c) mod length (buffer c) in
       if slot_st (buffer c ! i) = SEmpty then
         bind (modify (\<lambda>c. c \<lparr> buffer := (buffer c)[i := fill_slot msg], write_pos := write_pos c + 1 \<rparr>)) (\<lambda>_.
         bind try_wake_receiver (\<lambda>_. ret (Inr ())))
       else
         bind (modify (\<lambda>d. d \<lparr> write_pos := bump_if (write_pos c) (write_pos d) \<rparr>))
           (\<lambda>_. try_send_loop n msg))"

definition try_send :: "'a \<Rightarrow> ('a, 'w, 'a + unit) chan_op" where
  "try_send msg = bind get_st (\<lambda>c.
     if closed c then ret (Inl msg) else try_send_loop (length (buffer c) + 1) msg)"

fun try_recv_loop :: "nat \<Rightarrow> ('a, 'w, 'a option) chan_op" where
  "try_recv_loop 0 = diverge"
| "try_recv_loop (Suc n) = bind get_st (\<lambda>c.
     if read_pos c = write_pos c then ret None
     else if buffer c = [] then crash
     else
       let i = unat (read_pos c) mod length (buffer c); slot = buffer c ! i in
       if slot_st slot = SReady then
         (case slot_value slot of None \<Rightarrow> crash | Some m \<Rightarrow>
           bind (modify (\<lambda>c. c \<lparr> buffer := (buffer c)[i := drain_slot], read_pos := read_pos c + 1 \<rparr>))
             (\<lambda>_. ret (Some m)))
       else
         bind (modify (\<lambda>d. d \<lparr> read_pos := bump_if (read_pos c) (read_pos d) \<rparr>))
           (\<lambda>_. try_recv_loop n))"

definition try_recv :: "('a, 'w, 'a option) chan_op" where
  "try_recv = bind get_st (\<lambda>c. try_recv_loop (unat (write_pos c - read_pos c) + 1))"

datatype 'a poll = Pending | PollReady 'a

definition recv_poll :: "'w \<Rightarrow> ('a, 'w, 'a option poll) chan_op" where
  "recv_poll w =
     bind try_recv (\<lambda>r. case r of
       Some m \<Rightarrow> ret (PollReady (Some m))
     | None \<Rightarrow> bind get_st (\<lambda>c.
         if is_closed c then ret (PollReady None)
         else
           bind (register_waker w) (\<lambda>_.
           bind try_recv (\<lambda>r. case r of
             Some m \<Rightarrow> ret (PollReady (Some m))
           | None \<Rightarrow> bind get_st (\<lambda>c. ret (if is_closed c then PollReady None else Pending))))))"

section \<open>Senders and the end of a channel\<close>

definition sender_clone :: "('a, 'w, unit) chan_op" where
  "sender_clone = modify (\<lambda>c. c \<lparr> sender_count := sender_count c + 1 \<rparr>)"

fun wake_all_loop :: "nat \<Rightarrow> ('a, 'w, unit) chan_op" where
  "wake_all_loop 0 = diverge"
| "wake_all_loop (Suc n) = bind get_st (\<lambda>c.
     if waker_read_pos c = waker_write_pos c then ret ()
     else bind try_wake_receiver (\<lambda>_. wake_all_loop n))"

definition sender_drop :: "('a, 'w, unit) chan_op" where
  "sender_drop = bind get_st (\<lambda>c.
     bind (modify (\<lambda>c. c \<lparr> sender_count := sender_count c - 1 \<rparr>)) (\<lambda>_.
     if sender_count c = 1 then
       bind (modify (\<lambda>c. c \<lparr> closed := True \<rparr>)) (\<lambda>_.
       wake_all_loop (unat (waker_write_pos c - waker_read_pos c) + 1))
     else ret ()))"

text \<open>The destructor: the messages left are dropped one by one, then the stored wakers.\<close>

fun drain_loop :: "nat \<Rightarrow> ('a, 'w, 'a list) chan_op" where
  "drain_loop 0 = diverge"
| "drain_loop (Suc n) = bind try_recv (\<lambda>r. case r of
     None \<Rightarrow> ret []
   | Some m \<Rightarrow> bind (drain_loop n) (\<lambda>ms. ret (m # ms)))"

definition channel_drop :: "('a, 'w, 'a list \<times> 'w list) chan_op" where
  "channel_drop = bind get_st (\<lambda>c.
     bind (drain_loop (unat (write_pos c - read_pos c) + 1)) (\<lambda>ms. bind get_st (\<lambda>c.
     ret (ms, List.map_filter slot_value (filter (\<lambda>s. slot_st s = SReady) (chan_wakers c))))))"

section \<open>Rings\<close>

text \<open>A ring that holds the values \<open>q\<close>, the oldest at the read position, in slots that are ready; the
  other slots are empty.\<close>

definition ring_ok :: "'b Slot list \<Rightarrow> u64 \<Rightarrow> u64 \<Rightarrow> 'b list \<Rightarrow> bool" where
  "ring_ok slots rp wp q \<longleftrightarrow> length q \<le> length slots \<and> unat wp = unat rp + length q \<and>
     (\<forall>i < length slots. slots ! ((unat rp + i) mod length slots) = (if i < length q then fill_slot (q ! i) else drain_slot))"

lemma mod_shift_inject:
  assumes "i < (n :: nat)" "j < n"
  shows "(a + i) mod n = (a + j) mod n \<longleftrightarrow> i = j"
proof -
  have "i = j" if "(a + i) mod n = (a + j) mod n" "i \<le> j" "i < n" "j < n" for i j
  proof -
    have "n dvd (a + j) - (a + i)" using that(1) by (metis mod_eq_dvd_iff_nat add_le_cancel_left that(2))
    then show ?thesis using that(2,4) by (auto dest: dvd_imp_le)
  qed
  then show ?thesis using assms by (metis nat_le_linear)
qed

lemma ring_ok_empty: "ring_ok slots rp wp [] \<Longrightarrow> rp = wp"
  by (simp add: ring_ok_def word_unat_eq_iff)

lemma ring_ok_count: "ring_ok slots rp wp q \<Longrightarrow> unat (wp - rp) = length q"
  by (simp add: ring_ok_def unat_sub word_le_nat_alt)

lemma ring_ok_slot:
  "ring_ok slots rp wp q \<Longrightarrow> i < length slots \<Longrightarrow>
    slots ! ((unat rp + i) mod length slots) = (if i < length q then fill_slot (q ! i) else drain_slot)"
  by (simp add: ring_ok_def)

lemma unat_succ: "unat (w :: u64) < 2 ^ 64 - 1 \<Longrightarrow> unat (w + 1) = unat w + 1"
  by (simp add: unat_word_ariths)

lemma ring_put:
  assumes "ring_ok slots rp wp q" "length q < length slots" "unat wp < 2 ^ 64 - 1"
  defines "i \<equiv> unat wp mod length slots"
  shows "slots ! i = drain_slot" "ring_ok (slots[i := fill_slot x]) rp (wp + 1) (q @ [x])"
proof -
  let ?n = "length slots"
  have i: "i = (unat rp + length q) mod ?n" using assms(1) by (simp add: i_def ring_ok_def)
  then show "slots ! i = drain_slot" using ring_ok_slot [OF assms(1,2)] by simp
  have lt: "k mod ?n < ?n" for k using assms(2) by (intro mod_less_divisor) linarith
  have "slots[i := fill_slot x] ! ((unat rp + j) mod ?n) =
      (if j < length (q @ [x]) then fill_slot ((q @ [x]) ! j) else drain_slot)" if "j < ?n" for j
    using that mod_shift_inject [OF that assms(2), of "unat rp"] ring_ok_slot [OF assms(1) that]
    by (auto simp: i nth_list_update nth_append less_Suc_eq lt)
  then show "ring_ok (slots[i := fill_slot x]) rp (wp + 1) (q @ [x])"
    using assms(1-3) by (simp add: ring_ok_def unat_succ)
qed

lemma ring_take:
  assumes "ring_ok slots rp wp (x # q)"
  defines "i \<equiv> unat rp mod length slots"
  shows "rp \<noteq> wp" "slots \<noteq> []" "slots ! i = fill_slot x" "ring_ok (slots[i := drain_slot]) (rp + 1) wp q"
proof -
  let ?n = "length slots"
  show ne: "rp \<noteq> wp" "slots \<noteq> []" using assms(1) by (auto simp: ring_ok_def)
  have pos: "0 < ?n" using ne(2) by simp
  then show "slots ! i = fill_slot x" using ring_ok_slot [OF assms(1), of 0] by (simp add: i_def)
  have rp: "unat (rp + 1) = unat rp + 1"
    using assms(1) unsigned_less [of wp, where ?'a = nat] by (intro unat_succ) (simp add: ring_ok_def)
  have "slots[i := drain_slot] ! ((unat (rp + 1) + j) mod ?n) = (if j < length q then fill_slot (q ! j) else drain_slot)"
    if j: "j < ?n" for j
  proof (cases "Suc j < ?n")
    case True
    then show ?thesis
      using mod_shift_inject [OF True pos, of "unat rp"] ring_ok_slot [OF assms(1) True] pos
      by (simp add: i_def rp nth_list_update)
  next
    case False
    then have "Suc j = ?n" using j by simp
    then have "(unat (rp + 1) + j) mod ?n = i" by (metis add.assoc i_def mod_add_self2 plus_1_eq_Suc rp)
    moreover have "\<not> j < length q" using False assms(1) by (auto simp: ring_ok_def)
    ultimately show ?thesis using pos by (simp add: i_def)
  qed
  then show "ring_ok (slots[i := drain_slot]) (rp + 1) wp q"
    using assms(1) rp by (simp add: ring_ok_def)
qed

section \<open>The channel as a queue\<close>

text \<open>A channel that holds the messages \<open>q\<close> and the wakers \<open>ws\<close>.\<close>

definition chan_ok :: "('a, 'w) Channel \<Rightarrow> 'a list \<Rightarrow> 'w list \<Rightarrow> bool" where
  "chan_ok c q ws \<longleftrightarrow> ring_ok (buffer c) (read_pos c) (write_pos c) q \<and>
     ring_ok (chan_wakers c) (waker_read_pos c) (waker_write_pos c) ws"

lemma fill_drain [simp]: "slot_st (fill_slot x) = SReady" "slot_value (fill_slot x) = Some x"
    "slot_st drain_slot = SEmpty"
  by (simp_all add: fill_slot_def drain_slot_def)

lemma try_wake_receiver_ok:
  assumes "chan_ok c q ws"
  shows "\<exists>c'. try_wake_receiver c = (Ok (), c') \<and> chan_ok c' q (tl ws) \<and> woken c' = woken c @ take 1 ws \<and>
    buffer c' = buffer c \<and> write_pos c' = write_pos c \<and> read_pos c' = read_pos c \<and>
    waker_write_pos c' = waker_write_pos c \<and> length (chan_wakers c') = length (chan_wakers c) \<and> closed c' = closed c \<and>
    sender_count c' = sender_count c"
proof (cases ws)
  case Nil
  then have "waker_read_pos c = waker_write_pos c"
    using assms ring_ok_empty by (auto simp: chan_ok_def)
  with Nil assms show ?thesis by (simp add: try_wake_receiver_def)
next
  case (Cons w ws')
  then have r: "ring_ok (chan_wakers c) (waker_read_pos c) (waker_write_pos c) (w # ws')"
    using assms by (simp add: chan_ok_def)
  show ?thesis
    using ring_take [OF r] assms Cons by (simp add: try_wake_receiver_def chan_ok_def Let_def)
qed

lemma register_waker_ok:
  assumes "chan_ok c q ws" "length ws < length (chan_wakers c)" "unat (waker_write_pos c) < 2 ^ 64 - 1"
  shows "\<exists>c'. register_waker w c = (Ok (), c') \<and> chan_ok c' q (ws @ [w]) \<and> woken c' = woken c \<and>
    sender_count c' = sender_count c \<and> closed c' = closed c \<and> buffer c' = buffer c \<and> write_pos c' = write_pos c"
proof -
  have r: "ring_ok (chan_wakers c) (waker_read_pos c) (waker_write_pos c) ws" using assms(1) by (simp add: chan_ok_def)
  obtain n where "length (chan_wakers c) = Suc n" using assms(2) by (cases "length (chan_wakers c)") auto
  then show ?thesis
    using ring_put [OF r assms(2,3)] assms(1) by (simp add: register_waker_def chan_ok_def Let_def)
qed

lemma try_recv_ok:
  assumes "chan_ok c q ws"
  shows "\<exists>c'. try_recv c = (Ok (case q of [] \<Rightarrow> None | m # _ \<Rightarrow> Some m), c') \<and> chan_ok c' (tl q) ws \<and>
    woken c' = woken c \<and> sender_count c' = sender_count c \<and> closed c' = closed c \<and> (q = [] \<longrightarrow> c' = c) \<and>
    length (buffer c') = length (buffer c)"
proof (cases q)
  case Nil
  then have "read_pos c = write_pos c"
    using assms ring_ok_empty by (auto simp: chan_ok_def)
  with Nil assms show ?thesis by (simp add: try_recv_def)
next
  case (Cons m q')
  then have r: "ring_ok (buffer c) (read_pos c) (write_pos c) (m # q')" using assms by (simp add: chan_ok_def)
  show ?thesis
    using ring_take [OF r] assms Cons by (simp add: try_recv_def chan_ok_def Let_def)
qed

lemma try_send_full:
  assumes "chan_ok c q ws" "length q = length (buffer c) \<or> closed c"
  shows "try_send m c = (Ok (Inl m), c)"
  using assms ring_ok_count [of "buffer c" "read_pos c" "write_pos c" q] by (auto simp: try_send_def chan_ok_def)

lemma try_send_ok:
  assumes "chan_ok c q ws" "length q < length (buffer c)" "\<not> closed c" "unat (write_pos c) < 2 ^ 64 - 1"
  shows "\<exists>c'. try_send m c = (Ok (Inr ()), c') \<and> chan_ok c' (q @ [m]) (tl ws) \<and> woken c' = woken c @ take 1 ws \<and>
    write_pos c' = write_pos c + 1 \<and> length (buffer c') = length (buffer c) \<and> closed c' = closed c \<and>
    sender_count c' = sender_count c"
proof -
  let ?i = "unat (write_pos c) mod length (buffer c)"
  let ?c = "c \<lparr> buffer := (buffer c)[?i := fill_slot m], write_pos := write_pos c + 1 \<rparr>"
  have r: "ring_ok (buffer c) (read_pos c) (write_pos c) q" using assms(1) by (simp add: chan_ok_def)
  note put = ring_put(1) [OF r assms(2,4)] ring_put(2) [OF r assms(2,4), of m]
  have "chan_ok ?c (q @ [m]) ws" using put(2) assms(1) by (simp add: chan_ok_def)
  from try_wake_receiver_ok [OF this] obtain c' where c': "try_wake_receiver ?c = (Ok (), c')"
      "chan_ok c' (q @ [m]) (tl ws)" "woken c' = woken c @ take 1 ws" "write_pos c' = write_pos c + 1"
      "length (buffer c') = length (buffer c)" "closed c' = closed c" "sender_count c' = sender_count c"
    by auto
  have "unat (write_pos c - read_pos c) < length (buffer c)" using ring_ok_count [OF r] assms(2) by simp
  then have "try_send m c = (Ok (Inr ()), c')"
    using put(1) assms(3) c'(1) by (simp add: try_send_def Let_def bind_def)
  with c' show ?thesis by blast
qed

text \<open>Any number of messages can be sent as long as there are free slots and the position stays in
  its range.\<close>

definition chan_rep :: "('a, 'w) Channel \<Rightarrow> 'a list \<Rightarrow> bool" where
  "chan_rep c q \<longleftrightarrow> (\<exists>ws. chan_ok c q ws)"

definition chan_fits :: "('a, 'w) Channel \<Rightarrow> 'a list \<Rightarrow> nat \<Rightarrow> bool" where
  "chan_fits c q n \<longleftrightarrow> \<not> closed c \<and> length q + n \<le> length (buffer c) \<and> unat (write_pos c) + n < 2 ^ 64"

interpretation bounded: fifo_channel chan_rep chan_fits try_send try_recv
proof (unfold_locales, goal_cases)
  case (1 s q n m)
  then obtain ws where s: "chan_ok s q ws" by (auto simp: chan_rep_def)
  have f: "length q < length (buffer s)" "\<not> closed s" "unat (write_pos s) < 2 ^ 64 - 1"
    using 1(2) by (auto simp: chan_fits_def)
  from try_send_ok [OF s f, of m] unat_succ [OF f(3)] 1(2) show ?case
    by (auto simp: chan_rep_def chan_fits_def)
next
  case (2 s)
  then show ?case using try_recv_ok by (fastforce simp: chan_rep_def)
next
  case (3 s m q)
  then show ?case using try_recv_ok by (fastforce simp: chan_rep_def)
qed

lemma channel_new_ok: "chan_ok (channel_new n) [] []"
  by (simp add: chan_ok_def channel_new_def ring_ok_def slot_new_def drain_slot_def)

section \<open>Properties\<close>

text \<open>C13. A channel used by one task at a time is a first-in first-out queue: after sending a list of
  messages that fit, receiving yields the messages that were waiting followed by those that were
  sent, each once and in order, and leaves the channel empty.\<close>

theorem bounded_channel_fifo:
  assumes "chan_ok c q ws" "\<not> closed c" "length q + length ms \<le> length (buffer c)"
    and "unat (write_pos c) + length ms < 2 ^ 64" "length q + length ms \<le> n"
  shows "\<exists>c' ws'. bind (bounded.put_all ms) (\<lambda>_. bounded.get_all n) c = (Ok (q @ ms), c') \<and> chan_ok c' [] ws'"
proof -
  have "chan_rep c q" "chan_fits c q (length ms)"
    using assms by (auto simp: chan_rep_def chan_fits_def)
  from bounded.put_get_all [OF this assms(5)] show ?thesis by (auto simp: chan_rep_def)
qed

theorem bounded_channel_fifo_witness:
  "\<exists>c' ws'. bind (bounded.put_all [10, 20 :: nat]) (\<lambda>_. bounded.get_all 3)
      (channel_new 2 :: (nat, nat) Channel) = (Ok [10, 20], c') \<and> chan_ok c' [] ws'"
  using bounded_channel_fifo [OF channel_new_ok, of 2 "[10, 20]" 3] by (simp add: channel_new_def)

text \<open>A receiver that is told to wait is woken: when polling an open channel gives \<^verbatim>\<open>Pending\<close>, the
  channel is empty and the waker is stored behind those already waiting; every later message that
  is accepted calls the waker that has waited longest.\<close>

theorem recv_poll_then_send:
  assumes "chan_ok c [] ws" "\<not> is_closed c" "\<not> closed c" "length ws < length (chan_wakers c)"
    and "length (buffer c) = length (chan_wakers c)" "unat (write_pos c) < 2 ^ 64 - 1"
    and "unat (waker_write_pos c) < 2 ^ 64 - 1"
  shows "\<exists>c' c''. recv_poll w c = (Ok Pending, c') \<and> chan_ok c' [] (ws @ [w]) \<and>
    try_send m c' = (Ok (Inr ()), c'') \<and> woken c'' = woken c @ [hd (ws @ [w])]"
proof -
  obtain c1 where c1: "register_waker w c = (Ok (), c1)" "chan_ok c1 [] (ws @ [w])" "woken c1 = woken c"
      "sender_count c1 = sender_count c" "closed c1 = closed c" "buffer c1 = buffer c" "write_pos c1 = write_pos c"
    using register_waker_ok [OF assms(1,4,7), of w] by auto
  have "try_recv c = (Ok None, c)" "try_recv c1 = (Ok None, c1)"
    using try_recv_ok [OF assms(1)] try_recv_ok [OF c1(2)] by auto
  then have "recv_poll w c = (Ok Pending, c1)"
    using c1(1,4,5) assms(2) by (simp add: recv_poll_def bind_def is_closed_def)
  moreover have "0 < length (buffer c1)" using assms(4,5) by (auto simp: c1(6))
  then obtain c2 where "try_send m c1 = (Ok (Inr ()), c2)" "woken c2 = woken c1 @ take 1 (ws @ [w])"
    using try_send_ok [OF c1(2), of m] c1(5,7) assms(3,6) by auto
  moreover have "take 1 (ws @ [w]) = [hd (ws @ [w])]" by (cases ws) simp_all
  ultimately show ?thesis using c1(2,3) by auto
qed

theorem recv_poll_then_send_witness:
  "\<exists>c' c''. recv_poll 7 (channel_new 2 :: (nat, nat) Channel) = (Ok Pending, c') \<and>
    try_send 5 c' = (Ok (Inr ()), c'') \<and> woken c'' = [7]"
  using recv_poll_then_send [OF channel_new_ok, of 2 7 5] by (auto simp: channel_new_def is_closed_def)

end
