(* ===== verification/Interleave.thy ===== *)
theory Interleave
  imports Bounded "HOL-Library.Multiset"
begin

text \<open>
  The message ring of the bounded channel used by several threads at once
  (\<^verbatim>\<open>try_send\<close> and \<^verbatim>\<open>try_recv\<close> of \<^verbatim>\<open>ejcineque/sync/mpsc/bounded.rs\<close>).  A thread is a
  program point of one of the two methods; a step is one load, store or
  read-modify-write of an atomic, or one access to the value of a slot, and any
  thread may take the next step.  Memory is sequentially consistent.  The call that
  wakes a receiver after a message was sent touches only the ring of wakers and is
  left out here.

  Memory safety holds for every interleaving: a slot is accessed by at most one
  thread, only initialised values are read, and every message is taken out at
  most as often as it was put in.  Delivery does not: a receiver that meets a
  slot while its sender is still writing skips it for good, and an accepted
  message stays in the ring while the channel reports that it is empty.
\<close>

section \<open>Program points\<close>

datatype 'a pc =
    Idle
  | SClosed 'a | SLoadW 'a | SLoadR 'a u64 | SCas 'a u64 | SPut 'a u64 | SPublish 'a u64 | SBump 'a | SSkip 'a u64
  | RLoadR | RLoadW u64 | RCas u64 | RTake u64 | RClear 'a u64 | RBump 'a | RSkip u64

text \<open>What a step makes visible: a message put into or taken out of a slot, and the results of calls.\<close>

datatype 'a event = Tau | Put 'a | Taken 'a | Sent 'a | Rejected 'a | Got 'a | NoMessage

definition slot_idx :: "('a, 'w) Channel \<Rightarrow> u64 \<Rightarrow> nat" where
  "slot_idx c pos = unat pos mod length (buffer c)"

definition slot_of :: "('a, 'w) Channel \<Rightarrow> u64 \<Rightarrow> 'a Slot" where
  "slot_of c pos = buffer c ! slot_idx c pos"

definition upd_slot :: "('a Slot \<Rightarrow> 'a Slot) \<Rightarrow> u64 \<Rightarrow> ('a, 'w) Channel \<Rightarrow> ('a, 'w) Channel" where
  "upd_slot f pos c = c \<lparr> buffer := (buffer c)[slot_idx c pos := f (slot_of c pos)] \<rparr>"

text \<open>Reading a value that is not initialised has no meaning; the model reports it as \<open>None\<close>.\<close>

fun send_step :: "('a, 'w) Channel \<Rightarrow> 'a pc \<Rightarrow> (('a, 'w) Channel \<times> 'a pc \<times> 'a event) option" where
  "send_step c (SClosed m) = Some (if closed c then (c, Idle, Rejected m) else (c, SLoadW m, Tau))"
| "send_step c (SLoadW m) = Some (c, SLoadR m (write_pos c), Tau)"
| "send_step c (SLoadR m w) =
     Some (if length (buffer c) \<le> unat (w - read_pos c) then (c, Idle, Rejected m) else (c, SCas m w, Tau))"
| "send_step c (SCas m w) = Some
    (if slot_st (slot_of c w) = SEmpty then (upd_slot (\<lambda>s. s \<lparr> slot_st := SWriting \<rparr>) w c, SPut m w, Tau)
     else (c, SSkip m w, Tau))"
| "send_step c (SPut m w) = Some (upd_slot (\<lambda>s. s \<lparr> slot_value := Some m \<rparr>) w c, SPublish m w, Put m)"
| "send_step c (SPublish m w) = Some (upd_slot (\<lambda>s. s \<lparr> slot_st := SReady \<rparr>) w c, SBump m, Tau)"
| "send_step c (SBump m) = Some (c \<lparr> write_pos := write_pos c + 1 \<rparr>, Idle, Sent m)"
| "send_step c (SSkip m w) = Some (c \<lparr> write_pos := bump_if w (write_pos c) \<rparr>, SLoadW m, Tau)"
| "send_step c p = None"

fun recv_step :: "('a, 'w) Channel \<Rightarrow> 'a pc \<Rightarrow> (('a, 'w) Channel \<times> 'a pc \<times> 'a event) option" where
  "recv_step c RLoadR = Some (c, RLoadW (read_pos c), Tau)"
| "recv_step c (RLoadW r) = Some (if r = write_pos c then (c, Idle, NoMessage) else (c, RCas r, Tau))"
| "recv_step c (RCas r) = Some
    (if slot_st (slot_of c r) = SReady then (upd_slot (\<lambda>s. s \<lparr> slot_st := SReading \<rparr>) r c, RTake r, Tau)
     else (c, RSkip r, Tau))"
| "recv_step c (RTake r) = (case slot_value (slot_of c r) of None \<Rightarrow> None
   | Some m \<Rightarrow> Some (upd_slot (\<lambda>s. s \<lparr> slot_value := None \<rparr>) r c, RClear m r, Taken m))"
| "recv_step c (RClear m r) = Some (upd_slot (\<lambda>s. s \<lparr> slot_st := SEmpty \<rparr>) r c, RBump m, Tau)"
| "recv_step c (RBump m) = Some (c \<lparr> read_pos := read_pos c + 1 \<rparr>, Idle, Got m)"
| "recv_step c (RSkip r) = Some (c \<lparr> read_pos := bump_if r (read_pos c) \<rparr>, RLoadR, Tau)"
| "recv_step c p = None"

definition thread_step :: "('a, 'w) Channel \<Rightarrow> 'a pc \<Rightarrow> (('a, 'w) Channel \<times> 'a pc \<times> 'a event) option" where
  "thread_step c p = (case send_step c p of None \<Rightarrow> recv_step c p | Some x \<Rightarrow> Some x)"

section \<open>The system\<close>

record ('a, 'w) system =
  chan :: "('a, 'w) Channel"
  pcs :: "nat \<Rightarrow> 'a pc"
  events :: "(nat \<times> 'a event) list"

datatype 'a call = Send 'a | Recv

definition entry :: "'a call \<Rightarrow> 'a pc" where
  "entry k = (case k of Send m \<Rightarrow> SClosed m | Recv \<Rightarrow> RLoadR)"

definition system_new :: "nat \<Rightarrow> ('a, 'w) system" where
  "system_new capacity = \<lparr> chan = channel_new capacity, pcs = (\<lambda>_. Idle), events = [] \<rparr>"

definition move_to :: "nat \<Rightarrow> ('a, 'w) Channel \<times> 'a pc \<times> 'a event \<Rightarrow> ('a, 'w) system \<Rightarrow> ('a, 'w) system" where
  "move_to t x s = (case x of (c, p, e) \<Rightarrow>
     s \<lparr> chan := c, pcs := (pcs s)(t := p), events := events s @ [(t, e)] \<rparr>)"

inductive sys_step :: "('a, 'w) system \<Rightarrow> ('a, 'w) system \<Rightarrow> bool" where
  call: "pcs s t = Idle \<Longrightarrow> sys_step s (s \<lparr> pcs := (pcs s)(t := entry k) \<rparr>)"
| move: "thread_step (chan s) (pcs s t) = Some x \<Longrightarrow> sys_step s (move_to t x s)"

inductive reachable :: "nat \<Rightarrow> ('a, 'w) system \<Rightarrow> bool" for capacity where
  init: "reachable capacity (system_new capacity)"
| step: "reachable capacity s \<Longrightarrow> sys_step s s' \<Longrightarrow> reachable capacity s'"

text \<open>A schedule: which thread starts a call or takes its next step.\<close>

fun run_schedule :: "(nat \<times> 'a call option) list \<Rightarrow> ('a, 'w) system \<Rightarrow> ('a, 'w) system option" where
  "run_schedule [] s = Some s"
| "run_schedule ((t, Some k) # xs) s =
     (if pcs s t = Idle then run_schedule xs (s \<lparr> pcs := (pcs s)(t := entry k) \<rparr>) else None)"
| "run_schedule ((t, None) # xs) s = (case thread_step (chan s) (pcs s t) of None \<Rightarrow> None
   | Some x \<Rightarrow> run_schedule xs (move_to t x s))"

lemma run_schedule_reachable: "reachable n s \<Longrightarrow> run_schedule xs s = Some s' \<Longrightarrow> reachable n s'"
  by (induction xs s rule: run_schedule.induct)
    (auto intro: reachable.step sys_step.intros split: if_splits option.splits)

section \<open>Who may access a slot\<close>

text \<open>The position whose slot a thread has claimed, and the state word it has claimed it with.\<close>

fun access :: "'a pc \<Rightarrow> (u64 \<times> slot_state) option" where
  "access (SPut m w) = Some (w, SWriting)"
| "access (SPublish m w) = Some (w, SWriting)"
| "access (RTake r) = Some (r, SReading)"
| "access (RClear m r) = Some (r, SReading)"
| "access p = None"

fun value_ok :: "'a pc \<Rightarrow> 'a option \<Rightarrow> bool" where
  "value_ok (SPut m w) v \<longleftrightarrow> v = None"
| "value_ok (SPublish m w) v \<longleftrightarrow> v = Some m"
| "value_ok (RTake r) v \<longleftrightarrow> v \<noteq> None"
| "value_ok (RClear m r) v \<longleftrightarrow> v = None"
| "value_ok p v \<longleftrightarrow> True"

definition at_slot :: "('a, 'w) Channel \<Rightarrow> 'a pc \<Rightarrow> nat \<Rightarrow> bool" where
  "at_slot c p i \<longleftrightarrow> (case access p of None \<Rightarrow> False | Some (pos, st) \<Rightarrow> slot_idx c pos = i)"

definition pc_ok :: "('a, 'w) Channel \<Rightarrow> 'a pc \<Rightarrow> bool" where
  "pc_ok c p \<longleftrightarrow> (case access p of None \<Rightarrow> True
     | Some (pos, st) \<Rightarrow> slot_st (slot_of c pos) = st \<and> value_ok p (slot_value (slot_of c pos)))"

definition slot_inv :: "'a Slot \<Rightarrow> bool" where
  "slot_inv x \<longleftrightarrow> (slot_st x = SEmpty \<longrightarrow> slot_value x = None) \<and> (slot_st x = SReady \<longrightarrow> slot_value x \<noteq> None)"

definition sys_inv :: "nat \<Rightarrow> ('a, 'w) system \<Rightarrow> bool" where
  "sys_inv n s \<longleftrightarrow> length (buffer (chan s)) = n \<and> (\<forall>t. pc_ok (chan s) (pcs s t)) \<and>
     (\<forall>t t' i. t \<noteq> t' \<longrightarrow> at_slot (chan s) (pcs s t) i \<longrightarrow> \<not> at_slot (chan s) (pcs s t') i) \<and>
     (\<forall>x \<in> set (buffer (chan s)). slot_inv x)"

lemma slot_idx_less: "0 < length (buffer c) \<Longrightarrow> slot_idx c pos < length (buffer c)"
  by (simp add: slot_idx_def)

lemma upd_slot_simps [simp]: "length (buffer (upd_slot f pos c)) = length (buffer c)"
    "slot_idx (upd_slot f pos c) p = slot_idx c p" "at_slot (upd_slot f pos c) q i = at_slot c q i"
  by (auto simp: upd_slot_def slot_idx_def at_slot_def split: option.splits)

lemma slot_of_upd: "0 < length (buffer c) \<Longrightarrow> slot_of (upd_slot f pos c) p =
    (if slot_idx c p = slot_idx c pos then f (slot_of c pos) else slot_of c p)"
  by (simp add: slot_of_def upd_slot_def slot_idx_def nth_list_update)

lemma same_buffer:
  assumes "buffer c' = buffer c"
  shows "slot_idx c' p = slot_idx c p" "slot_of c' p = slot_of c p" "at_slot c' q i = at_slot c q i" "pc_ok c' q = pc_ok c q"
  using assms by (auto simp: slot_idx_def slot_of_def at_slot_def pc_ok_def split: option.splits)

text \<open>Steps that leave the slots alone.\<close>

lemma sys_inv_local:
  assumes "sys_inv n s" "buffer c' = buffer (chan s)" "access p' = None"
  shows "sys_inv n (s \<lparr> chan := c', pcs := (pcs s)(t := p'), events := es \<rparr>)"
  using assms(1) by (auto simp: sys_inv_def assms(2) same_buffer [OF assms(2)])
    (simp_all add: pc_ok_def at_slot_def assms(3))

text \<open>Steps on a slot that no other thread has claimed.\<close>

lemma sys_inv_slot:
  assumes "sys_inv n s" "0 < n" "\<forall>t'. t' \<noteq> t \<longrightarrow> \<not> at_slot (chan s) (pcs s t') (slot_idx (chan s) pos)"
    and "x = f (slot_of (chan s) pos)" "slot_inv x"
    and "access p' = None \<or> access p' = Some (pos, slot_st x) \<and> value_ok p' (slot_value x)"
  shows "sys_inv n (s \<lparr> chan := upd_slot f pos (chan s), pcs := (pcs s)(t := p'), events := es \<rparr>)"
proof -
  let ?c = "upd_slot f pos (chan s)" and ?i = "slot_idx (chan s) pos"
  have n: "length (buffer (chan s)) = n" "0 < length (buffer (chan s))" using assms(1,2) by (simp_all add: sys_inv_def)
  have own: "slot_of ?c pos = x" using slot_of_upd [OF n(2)] assms(4) by simp
  have "pc_ok ?c (((pcs s)(t := p')) t')" for t'
  proof (cases "t' = t")
    case True
    then show ?thesis using assms(6) own by (auto simp: pc_ok_def)
  next
    case False
    then have "\<not> at_slot (chan s) (pcs s t') ?i" "pc_ok (chan s) (pcs s t')"
      using assms(1,3) by (auto simp: sys_inv_def)
    with False show ?thesis by (auto simp: pc_ok_def at_slot_def slot_of_upd [OF n(2)] split: option.splits)
  qed
  moreover have "at_slot ?c p' i \<Longrightarrow> i = ?i" for i using assms(6) by (auto simp: at_slot_def)
  moreover have "slot_inv y" if "y \<in> set (buffer ?c)" for y
    using that assms(1,4,5) by (auto simp: upd_slot_def sys_inv_def dest!: set_update_subset_insert [THEN subsetD])
  ultimately show ?thesis
    using assms(1,3) n(1) by (auto simp: sys_inv_def)
qed

lemma unclaimed:
  assumes "sys_inv n s" "slot_st (slot_of (chan s) pos) = SEmpty \<or> slot_st (slot_of (chan s) pos) = SReady"
  shows "\<not> at_slot (chan s) (pcs s t) (slot_idx (chan s) pos)"
proof
  assume a: "at_slot (chan s) (pcs s t) (slot_idx (chan s) pos)"
  have "pc_ok (chan s) (pcs s t)" using assms(1) by (simp add: sys_inv_def)
  with a assms(2) show False
    by (cases "pcs s t") (auto simp: at_slot_def pc_ok_def slot_of_def)
qed

lemma claimed:
  assumes "sys_inv n s" "access (pcs s t) = Some (pos, st)" "t' \<noteq> t"
  shows "\<not> at_slot (chan s) (pcs s t') (slot_idx (chan s) pos)"
proof -
  have "at_slot (chan s) (pcs s t) (slot_idx (chan s) pos)" using assms(2) by (simp add: at_slot_def)
  then show ?thesis using assms(1,3) unfolding sys_inv_def by metis
qed

lemma slot_inv_of: "sys_inv n s \<Longrightarrow> 0 < n \<Longrightarrow> slot_inv (slot_of (chan s) pos)"
  using slot_idx_less [of "chan s" pos] by (simp add: sys_inv_def slot_of_def)

section \<open>Every step keeps the invariant\<close>

lemma move_local:
  "sys_inv n s \<Longrightarrow> buffer c' = buffer (chan s) \<Longrightarrow> access p' = None \<Longrightarrow> sys_inv n (move_to t (c', p', e) s)"
  using sys_inv_local by (simp add: move_to_def)

lemma move_slot:
  assumes "sys_inv n s" "0 < n" "\<forall>t'. t' \<noteq> t \<longrightarrow> \<not> at_slot (chan s) (pcs s t') (slot_idx (chan s) pos)"
    and "slot_inv (f (slot_of (chan s) pos))"
    and "access p' = None \<or> access p' = Some (pos, slot_st (f (slot_of (chan s) pos))) \<and>
      value_ok p' (slot_value (f (slot_of (chan s) pos)))"
  shows "sys_inv n (move_to t (upd_slot f pos (chan s), p', e) s)"
  using assms by (simp add: move_to_def sys_inv_slot [where f = f])

lemma thread_step_inv:
  assumes "sys_inv n s" "0 < n" "thread_step (chan s) (pcs s t) = Some x"
  shows "sys_inv n (move_to t x s)"
proof -
  note I = assms(1) and loc = move_local [OF assms(1)] and upd = move_slot [OF assms(1,2)]
  have ok: "pc_ok (chan s) (pcs s t)" using I by (simp add: sys_inv_def)
  show ?thesis
  proof (cases "pcs s t")
    case (SCas m w)
    show ?thesis
    proof (cases "slot_st (slot_of (chan s) w) = SEmpty")
      case True
      then have "x = (upd_slot (\<lambda>s. s \<lparr> slot_st := SWriting \<rparr>) w (chan s), SPut m w, Tau)"
        using assms(3) SCas by (simp add: thread_step_def)
      then show ?thesis using True slot_inv_of [OF I assms(2), of w] unclaimed [OF I]
        by (simp only:, intro upd) (auto simp: slot_inv_def)
    qed (use assms(3) SCas in \<open>auto simp: thread_step_def intro: loc\<close>)
  next
    case (RCas r)
    show ?thesis
    proof (cases "slot_st (slot_of (chan s) r) = SReady")
      case True
      then have "x = (upd_slot (\<lambda>s. s \<lparr> slot_st := SReading \<rparr>) r (chan s), RTake r, Tau)"
        using assms(3) RCas by (simp add: thread_step_def)
      then show ?thesis using True slot_inv_of [OF I assms(2), of r] unclaimed [OF I]
        by (simp only:, intro upd) (auto simp: slot_inv_def)
    qed (use assms(3) RCas in \<open>auto simp: thread_step_def intro: loc\<close>)
  next
    case (SPut m w)
    then show ?thesis using assms(3) ok claimed [OF I, of t w SWriting]
      by (auto simp: thread_step_def pc_ok_def slot_inv_def intro!: upd)
  next
    case (SPublish m w)
    then show ?thesis using assms(3) ok claimed [OF I, of t w SWriting]
      by (auto simp: thread_step_def pc_ok_def slot_inv_def intro!: upd)
  next
    case (RTake r)
    then show ?thesis using assms(3) ok claimed [OF I, of t r SReading]
      by (auto simp: thread_step_def pc_ok_def slot_inv_def intro!: upd)
  next
    case (RClear m r)
    then show ?thesis using assms(3) ok claimed [OF I, of t r SReading]
      by (auto simp: thread_step_def pc_ok_def slot_inv_def intro!: upd)
  qed (use assms(3) in \<open>auto simp: thread_step_def intro!: loc split: if_splits\<close>)
qed

lemma call_inv:
  assumes "sys_inv n s" "pcs s t = Idle"
  shows "sys_inv n (s \<lparr> pcs := (pcs s)(t := entry k) \<rparr>)"
  using sys_inv_local [where t = t and es = "events s" and p' = "entry k", OF assms(1) refl]
  by (cases k) (simp_all add: entry_def)

lemma reachable_inv: "reachable n s \<Longrightarrow> 0 < n \<Longrightarrow> sys_inv n s"
proof (induction rule: reachable.induct)
  case init
  show ?case by (auto simp: sys_inv_def system_new_def channel_new_def pc_ok_def at_slot_def slot_inv_def slot_new_def)
next
  case (step s s')
  from step.hyps(2) step.IH [OF step.prems] step.prems show ?case
    by (cases rule: sys_step.cases) (auto intro: call_inv thread_step_inv)
qed

section \<open>Messages are neither made up nor duplicated\<close>

definition held :: "'a Slot \<Rightarrow> 'a multiset" where
  "held x = (case slot_value x of None \<Rightarrow> {#} | Some m \<Rightarrow> {#m#})"

definition contents :: "('a, 'w) Channel \<Rightarrow> 'a multiset" where
  "contents c = sum_list (map held (buffer c))"

fun put_of :: "'a event \<Rightarrow> 'a multiset" where
  "put_of (Put m) = {#m#}"
| "put_of e = {#}"

fun taken_of :: "'a event \<Rightarrow> 'a multiset" where
  "taken_of (Taken m) = {#m#}"
| "taken_of e = {#}"

definition all_put :: "('a, 'w) system \<Rightarrow> 'a multiset" where
  "all_put s = sum_list (map (\<lambda>(t, e). put_of e) (events s))"

definition all_taken :: "('a, 'w) system \<Rightarrow> 'a multiset" where
  "all_taken s = sum_list (map (\<lambda>(t, e). taken_of e) (events s))"

lemma sum_held_update: "i < length xs \<Longrightarrow> sum_list (map held (xs[i := y])) + held (xs ! i) = sum_list (map held xs) + held y"
proof (induction xs arbitrary: i)
  case (Cons x xs)
  then show ?case by (cases i) (simp_all add: ac_simps)
qed simp

lemma contents_upd: "0 < length (buffer c) \<Longrightarrow>
    contents (upd_slot f pos c) + held (slot_of c pos) = contents c + held (f (slot_of c pos))"
  using sum_held_update [OF slot_idx_less, of c pos "f (slot_of c pos)"]
  by (simp add: contents_def upd_slot_def slot_of_def)

lemma contents_same_value:
  assumes "0 < length (buffer c)" "slot_value (f (slot_of c pos)) = slot_value (slot_of c pos)"
  shows "contents (upd_slot f pos c) = contents c"
  using contents_upd [OF assms(1), of f pos] by (simp add: held_def assms(2))

lemma contents_pos [simp]: "contents (c \<lparr> write_pos := p \<rparr>) = contents c" "contents (c \<lparr> read_pos := p \<rparr>) = contents c"
  by (simp_all add: contents_def)

lemma thread_step_contents:
  assumes "sys_inv n s" "0 < n" "thread_step (chan s) (pcs s t) = Some (c', p', e)"
  shows "contents c' + taken_of e = contents (chan s) + put_of e"
proof -
  have len: "0 < length (buffer (chan s))" and ok: "pc_ok (chan s) (pcs s t)"
    using assms(1,2) by (simp_all add: sys_inv_def)
  note same = contents_same_value [OF len] and upd = contents_upd [OF len]
  show ?thesis
  proof (cases "pcs s t")
    case (SPut m w)
    then show ?thesis using assms(3) ok upd [of "\<lambda>x. x \<lparr> slot_value := Some m \<rparr>" w]
      by (auto simp: thread_step_def pc_ok_def held_def)
  next
    case (RTake r)
    then show ?thesis using assms(3) ok upd [of "\<lambda>x. x \<lparr> slot_value := None \<rparr>" r]
      by (auto simp: thread_step_def pc_ok_def held_def)
  qed (use assms(3) in \<open>auto simp: thread_step_def same split: if_splits\<close>)
qed

lemma move_to_logs: "all_put (move_to t (c, p, e) s) = all_put s + put_of e"
    "all_taken (move_to t (c, p, e) s) = all_taken s + taken_of e" "chan (move_to t (c, p, e) s) = c"
  by (simp_all add: all_put_def all_taken_def move_to_def)

lemma call_logs [simp]: "all_put (s \<lparr> pcs := q \<rparr>) = all_put s" "all_taken (s \<lparr> pcs := q \<rparr>) = all_taken s"
  by (simp_all add: all_put_def all_taken_def)

lemma reachable_conserves: "reachable n s \<Longrightarrow> 0 < n \<Longrightarrow> all_put s = all_taken s + contents (chan s)"
proof (induction rule: reachable.induct)
  case init
  have "sum_list (map held (replicate n slot_new)) = {#}" by (induction n) (simp_all add: held_def slot_new_def)
  then show ?case by (simp add: all_put_def all_taken_def system_new_def channel_new_def contents_def)
next
  case (step s s')
  from step.hyps(2) show ?case
  proof (cases rule: sys_step.cases)
    case (move t x)
    obtain c p e where x: "x = (c, p, e)" by (cases x) auto
    have "contents c + taken_of e = contents (chan s) + put_of e"
      using thread_step_contents reachable_inv [OF step.hyps(1) step.prems] step.prems move(2) x by blast
    then show ?thesis using step.IH [OF step.prems] by (simp add: move(1) x move_to_logs ac_simps)
  qed (use step in simp)
qed

section \<open>Properties\<close>

text \<open>C1. Whatever the interleaving of senders and receivers, two threads never access the value of
  the same slot, a receiver that has claimed a slot finds an initialised value in it, and the
  messages put into slots are exactly those taken out and those still in the ring, each counted as
  often as it occurs: no message is read twice, made up or overwritten.\<close>

theorem channel_memory_safe:
  assumes "reachable n s" "0 < n"
  shows "(\<forall>t t' i. t \<noteq> t' \<longrightarrow> at_slot (chan s) (pcs s t) i \<longrightarrow> \<not> at_slot (chan s) (pcs s t') i) \<and>
    (\<forall>t r. pcs s t = RTake r \<longrightarrow> slot_value (slot_of (chan s) r) \<noteq> None) \<and>
    all_put s = all_taken s + contents (chan s)"
proof -
  have I: "sys_inv n s" by (rule reachable_inv [OF assms])
  have "slot_value (slot_of (chan s) r) \<noteq> None" if "pcs s t = RTake r" for t r
  proof -
    have "pc_ok (chan s) (RTake r)" using I that [symmetric] by (simp add: sys_inv_def)
    then show ?thesis by (simp add: pc_ok_def)
  qed
  then show ?thesis using I reachable_conserves [OF assms] unfolding sys_inv_def by blast
qed

text \<open>One sender has claimed the first slot and not written it yet; a second one finds it taken,
  moves the write position on and delivers; a receiver skips the first slot and takes the second.\<close>

definition strand_schedule :: "(nat \<times> nat call option) list" where
  "strand_schedule = (0, Some (Send 1)) # replicate 4 (0, None) @ (1, Some (Send 2)) # replicate 11 (1, None) @
     (2, Some Recv) # replicate 10 (2, None) @ replicate 3 (0, None) @ (2, Some Recv) # replicate 6 (2, None)"

lemma replicates: "replicate 3 x = [x, x, x]" "replicate 4 x = [x, x, x, x]" "replicate 6 x = [x, x, x, x, x, x]"
    "replicate 10 x = [x, x, x, x, x, x, x, x, x, x]" "replicate 11 x = [x, x, x, x, x, x, x, x, x, x, x]"
  by (simp_all add: numeral_eq_Suc)

lemma strand_run: "\<exists>s. run_schedule strand_schedule (system_new 4 :: (nat, nat) system) = Some s \<and>
    (\<forall>t. pcs s t = Idle) \<and> (0, Sent 1) \<in> set (events s) \<and> all_taken s = {#2#} \<and> slot_of (chan s) 0 = fill_slot 1 \<and>
    read_pos (chan s) = write_pos (chan s) \<and> (2, NoMessage) \<in> set (events s)"
  by (simp add: strand_schedule_def system_new_def channel_new_def entry_def thread_step_def move_to_def
      upd_slot_def slot_of_def slot_idx_def slot_new_def bump_if_def all_taken_def fill_slot_def replicates)

theorem channel_memory_safe_witness:
  "\<exists>s. reachable 4 (s :: (nat, nat) system) \<and> all_taken s = {#2#} \<and> all_put s = {#2#} + contents (chan s)"
proof -
  obtain s where s: "run_schedule strand_schedule (system_new 4 :: (nat, nat) system) = Some s" "all_taken s = {#2#}"
    using strand_run by blast
  have "reachable 4 s" using run_schedule_reachable [OF reachable.init s(1)] .
  with channel_memory_safe [OF this] s(2) show ?thesis by auto
qed

text \<open>C33. A message can be accepted and then never delivered: there is an interleaving of two senders
  and a receiver after which no call is in progress, the first sender was told that its message was
  sent, nobody received it, and the channel reports that it is empty while the message lies in a slot
  behind the read position.\<close>

theorem accepted_message_stranded:
  "\<exists>s. reachable 4 (s :: (nat, nat) system) \<and> (\<forall>t. pcs s t = Idle) \<and> (0, Sent 1) \<in> set (events s) \<and>
     1 \<notin># all_taken s \<and> slot_of (chan s) 0 = fill_slot 1 \<and> read_pos (chan s) = write_pos (chan s) \<and>
     (2, NoMessage) \<in> set (events s)"
proof -
  obtain s where s: "run_schedule strand_schedule (system_new 4 :: (nat, nat) system) = Some s"
      "(\<forall>t. pcs s t = Idle)" "(0, Sent 1) \<in> set (events s)" "all_taken s = {#2#}" "slot_of (chan s) 0 = fill_slot 1"
      "read_pos (chan s) = write_pos (chan s)" "(2, NoMessage) \<in> set (events s)"
    using strand_run by blast
  have "reachable 4 s" using run_schedule_reachable [OF reachable.init s(1)] .
  with s show ?thesis by auto
qed

end
