(* ===== verification/Sync.thy ===== *)
theory Sync
  imports Bounded
begin

text \<open>
  The lock-based parts of the asynchronous runtime: the unbounded channel
  (\<^verbatim>\<open>ejcineque/sync/mpsc/unbounded.rs\<close>), the one-shot cell
  (\<^verbatim>\<open>ejcineque/sync/spsc/cell.rs\<close>), the spin lock (\<^verbatim>\<open>ejcineque/sync/spin.rs\<close>) and
  the small futures of \<^verbatim>\<open>ejcineque/futures\<close> and \<^verbatim>\<open>ejcineque/time\<close>.  A method that
  holds the lock of its object is one step of the model.
\<close>

section \<open>The unbounded channel\<close>

record ('a, 'w) UnboundedChannel =
  ub_buffer :: "'a list"
  rx_wakers :: "'w list"
  ub_sender_count :: u64
  ub_woken :: "'w list"

definition unbounded_channel :: "('a, 'w) UnboundedChannel" where
  "unbounded_channel = \<lparr> ub_buffer = [], rx_wakers = [], ub_sender_count = 1, ub_woken = [] \<rparr>"

definition unbounded_clone :: "('a, 'w) UnboundedChannel \<Rightarrow> ('a, 'w) UnboundedChannel" where
  "unbounded_clone c = c \<lparr> ub_sender_count := ub_sender_count c + 1 \<rparr>"

definition unbounded_drop :: "('a, 'w) UnboundedChannel \<Rightarrow> ('a, 'w) UnboundedChannel" where
  "unbounded_drop c = c \<lparr> ub_sender_count := ub_sender_count c - 1 \<rparr>"

definition unbounded_send :: "'a \<Rightarrow> ('a, 'w) UnboundedChannel \<Rightarrow> ('a, 'w) UnboundedChannel" where
  "unbounded_send msg c =
    (let c = c \<lparr> ub_buffer := ub_buffer c @ [msg] \<rparr> in
     case rx_wakers c of [] \<Rightarrow> c
     | w # ws \<Rightarrow> c \<lparr> rx_wakers := ws, ub_woken := ub_woken c @ [w] \<rparr>)"

definition unbounded_try_recv :: "('a, 'w) UnboundedChannel \<Rightarrow> 'a option \<times> ('a, 'w) UnboundedChannel" where
  "unbounded_try_recv c = (case ub_buffer c of [] \<Rightarrow> (None, c) | m # ms \<Rightarrow> (Some m, c \<lparr> ub_buffer := ms \<rparr>))"

definition unbounded_poll :: "'w \<Rightarrow> ('a, 'w) UnboundedChannel \<Rightarrow> 'a option poll \<times> ('a, 'w) UnboundedChannel" where
  "unbounded_poll w c = (case ub_buffer c of
     m # ms \<Rightarrow> (PollReady (Some m), c \<lparr> ub_buffer := ms \<rparr>)
   | [] \<Rightarrow> if ub_sender_count c = 0 then (PollReady None, c)
       else (Pending, c \<lparr> rx_wakers := rx_wakers c @ [w] \<rparr>))"

interpretation unbounded: fifo_channel "\<lambda>c q. ub_buffer c = q" "\<lambda>c q n. True"
    "\<lambda>m c. (Ok (Inr ()), unbounded_send m c)" "\<lambda>c. case unbounded_try_recv c of (r, c') \<Rightarrow> (Ok r, c')"
  by unfold_locales
    (auto simp: unbounded_send_def unbounded_try_recv_def Let_def split: list.splits)

section \<open>Receivers of an unbounded channel\<close>

text \<open>Tasks that send and receive, by number.  A task that was told to wait polls again only after its
  waker was called; \<open>rx_ready\<close> holds the tasks that were woken and have not polled yet.\<close>

record 'a rx_system =
  rx_chan :: "('a, nat) UnboundedChannel"
  rx_ready :: "nat list"

inductive rx_step :: "'a rx_system \<Rightarrow> 'a rx_system \<Rightarrow> bool" where
  send: "c' = unbounded_send m (rx_chan s) \<Longrightarrow>
    rx_step s (s \<lparr> rx_chan := c', rx_ready := rx_ready s @ drop (length (ub_woken (rx_chan s))) (ub_woken c') \<rparr>)"
| poll: "r \<notin> set (rx_wakers (rx_chan s)) \<Longrightarrow> unbounded_poll r (rx_chan s) = (p, c') \<Longrightarrow>
    rx_step s (s \<lparr> rx_chan := c', rx_ready := remove1 r (rx_ready s) \<rparr>)"
| take: "unbounded_try_recv (rx_chan s) = (x, c') \<Longrightarrow> rx_step s (s \<lparr> rx_chan := c' \<rparr>)"
| clone: "rx_step s (s \<lparr> rx_chan := unbounded_clone (rx_chan s) \<rparr>)"
| drop: "rx_step s (s \<lparr> rx_chan := unbounded_drop (rx_chan s) \<rparr>)"

inductive rx_reachable :: "'a rx_system \<Rightarrow> bool" where
  init: "rx_reachable \<lparr> rx_chan = unbounded_channel, rx_ready = [] \<rparr>"
| step: "rx_reachable s \<Longrightarrow> rx_step s s' \<Longrightarrow> rx_reachable s'"

text \<open>While a task waits, every message in the buffer has a task that was woken for it.\<close>

definition rx_inv :: "'a rx_system \<Rightarrow> bool" where
  "rx_inv s \<longleftrightarrow> rx_wakers (rx_chan s) = [] \<or> length (ub_buffer (rx_chan s)) \<le> length (rx_ready s)"

lemma rx_step_inv: "rx_step s s' \<Longrightarrow> rx_inv s \<Longrightarrow> rx_inv s'"
proof (induction rule: rx_step.induct)
  case (poll r s p c')
  then show ?case
    by (auto simp: rx_inv_def unbounded_poll_def length_remove1 split: list.splits if_splits)
qed (auto simp: rx_inv_def unbounded_send_def unbounded_try_recv_def unbounded_clone_def unbounded_drop_def Let_def
    split: list.splits)

lemma rx_reachable_inv: "rx_reachable s \<Longrightarrow> rx_inv s"
proof (induction rule: rx_reachable.induct)
  case init
  show ?case by (simp add: rx_inv_def unbounded_channel_def)
next
  case (step s s')
  from step.hyps(2) step.IH show ?case by (rule rx_step_inv)
qed

section \<open>The one-shot cell\<close>

record ('a, 'w) SpscCell =
  cell_inner :: "'a option"
  cell_waker :: "'w option"
  cell_woken :: "'w list"

definition spsc_cells :: "('a, 'w) SpscCell" where
  "spsc_cells = \<lparr> cell_inner = None, cell_waker = None, cell_woken = [] \<rparr>"

definition cell_set :: "'a \<Rightarrow> ('a, 'w) SpscCell \<Rightarrow> ('a, 'w) SpscCell" where
  "cell_set v c =
    (let c = c \<lparr> cell_inner := Some v \<rparr> in
     case cell_waker c of None \<Rightarrow> c | Some w \<Rightarrow> c \<lparr> cell_woken := cell_woken c @ [w] \<rparr>)"

definition cell_poll :: "'w \<Rightarrow> ('a, 'w) SpscCell \<Rightarrow> 'a poll \<times> ('a, 'w) SpscCell" where
  "cell_poll w c = (case cell_inner c of
     Some v \<Rightarrow> (PollReady v, c \<lparr> cell_inner := None \<rparr>)
   | None \<Rightarrow> (Pending, c \<lparr> cell_waker := Some w \<rparr>))"

section \<open>The spin lock\<close>

text \<open>\<open>held i\<close> says whether another thread holds the lock at the i-th attempt.  The attempts are
  counted down from ten million; the attempt that brings the count to zero panics.\<close>

fun spin_lock_loop :: "nat \<Rightarrow> (nat \<Rightarrow> bool) \<Rightarrow> nat \<Rightarrow> (unit, nat) res" where
  "spin_lock_loop 0 held i = Panic"
| "spin_lock_loop (Suc n) held i =
     (if held i then (if n = 0 then Panic else spin_lock_loop n held (Suc i)) else Ok i)"

definition spin_lock :: "(nat \<Rightarrow> bool) \<Rightarrow> (unit, nat) res" where
  "spin_lock held = spin_lock_loop 10000000 held 0"

lemma spin_lock_loop_spec: "0 < n \<Longrightarrow> spin_lock_loop n held i =
    (if \<exists>k < n. \<not> held (i + k) then Ok (i + (LEAST k. \<not> held (i + k))) else Panic)"
proof (induction n arbitrary: i)
  case (Suc n)
  show ?case
  proof (cases "held i")
    case True
    have ex: "(\<exists>k < Suc n. \<not> held (i + k)) \<longleftrightarrow> (\<exists>k < n. \<not> held (Suc i + k))"
      using True by (metis add_Suc_right add_Suc_shift add_0_right less_Suc_eq_0_disj)
    have "(LEAST k. \<not> held (i + k)) = Suc (LEAST k. \<not> held (Suc i + k))" if "\<not> held (i + k)" for k
      using Least_Suc [of "\<lambda>k. \<not> held (i + k)" k] that True by simp
    then show ?thesis using True ex Suc.IH [of "Suc i"]
      by (cases "n = 0") (auto simp del: ex_simps)
  next
    case False
    then have "(LEAST k. \<not> held (i + k)) = 0" by (intro Least_equality) simp_all
    moreover have "\<exists>k < Suc n. \<not> held (i + k)" using False by (intro exI [of _ 0]) simp
    ultimately show ?thesis using False by simp
  qed
qed simp

section \<open>Small futures\<close>

text \<open>Each poll answers and says whether the waker of the context was called.\<close>

definition yield_poll :: "bool \<Rightarrow> unit poll \<times> bool \<times> bool" where
  "yield_poll yielded = (if yielded then (PollReady (), yielded, False) else (Pending, True, True))"

text \<open>The remaining ticks and the list of timer wakers.\<close>

definition wait_int :: "u32 \<Rightarrow> u32" where
  "wait_int tick_count = tick_count + 1"

definition wait_poll :: "'w \<Rightarrow> u32 \<times> 'w list \<Rightarrow> unit poll \<times> u32 \<times> 'w list" where
  "wait_poll w s = (case s of (tick_count, timer_wakers) \<Rightarrow>
     let tick_count = tick_count - 1 in
     if tick_count \<le> 0 then (PollReady (), tick_count, timer_wakers)
     else (Pending, tick_count, timer_wakers @ [w]))"

datatype ('t, 'd) Either = Left 't | Right 'd

definition race_poll :: "('s \<Rightarrow> 't poll \<times> 's) \<Rightarrow> ('s \<Rightarrow> 'd poll \<times> 's) \<Rightarrow> 's \<Rightarrow> ('t, 'd) Either poll \<times> 's" where
  "race_poll left right s = (case left s of
     (PollReady x, s) \<Rightarrow> (PollReady (Left x), s)
   | (Pending, s) \<Rightarrow> (case right s of (PollReady y, s) \<Rightarrow> (PollReady (Right y), s) | (Pending, s) \<Rightarrow> (Pending, s)))"

fun multi_race_poll :: "('s \<Rightarrow> 't poll \<times> 's) list \<Rightarrow> 's \<Rightarrow> 't poll \<times> 's" where
  "multi_race_poll [] s = (Pending, s)"
| "multi_race_poll (f # fs) s = (case f s of (PollReady x, s) \<Rightarrow> (PollReady x, s) | (Pending, s) \<Rightarrow> multi_race_poll fs s)"

text \<open>Polling until the answer, counting the polls that answered \<^verbatim>\<open>Pending\<close>.\<close>

fun polls_until_ready :: "nat \<Rightarrow> u32 \<times> 'w list \<Rightarrow> 'w \<Rightarrow> nat option" where
  "polls_until_ready 0 s w = None"
| "polls_until_ready (Suc n) s w = (case wait_poll w s of
     (PollReady _, s) \<Rightarrow> Some 0 | (Pending, s) \<Rightarrow> map_option Suc (polls_until_ready n s w))"

lemma polls_until_ready_tick: "tick \<noteq> 0 \<Longrightarrow> unat tick \<le> n \<Longrightarrow> polls_until_ready n (tick, ws) w = Some (unat tick - 1)"
proof (induction n arbitrary: tick ws)
  case (Suc n)
  have u: "unat (tick - 1) = unat tick - 1" using Suc.prems(1) by (rule unat_minus_one)
  show ?case
  proof (cases "tick - 1 = 0")
    case True
    then show ?thesis using u by (simp add: wait_poll_def)
  next
    case False
    then have "polls_until_ready n (tick - 1, ws @ [w]) w = Some (unat (tick - 1) - 1)"
      using Suc u by (intro Suc.IH) simp_all
    moreover have "0 < unat (tick - 1)" using False by (simp add: unat_gt_0)
    ultimately show ?thesis using False u by (simp add: wait_poll_def)
  qed
qed (simp add: unat_eq_zero)

section \<open>Properties\<close>

text \<open>C17. No wake-up is lost on an unbounded channel: while some task waits, there are at least as many
  woken tasks that have still to poll as there are messages in the buffer.  So once every woken task
  has polled, a waiting task means that there is no message.\<close>

theorem unbounded_no_lost_wakeup:
  assumes "rx_reachable s" "rx_wakers (rx_chan s) \<noteq> []"
  shows "length (ub_buffer (rx_chan s)) \<le> length (rx_ready s)"
  using rx_reachable_inv [OF assms(1)] assms(2) by (simp add: rx_inv_def)

lemma rx_poll_first: "rx_reachable \<lparr> rx_chan = unbounded_channel \<lparr> rx_wakers := [3] \<rparr>, rx_ready = [] \<rparr>"
proof (rule rx_reachable.step [OF rx_reachable.init])
  show "rx_step \<lparr> rx_chan = unbounded_channel, rx_ready = [] \<rparr>
      \<lparr> rx_chan = unbounded_channel \<lparr> rx_wakers := [3] \<rparr>, rx_ready = [] \<rparr>"
    using rx_step.poll [of 3 "\<lparr> rx_chan = unbounded_channel, rx_ready = [] \<rparr>"]
    by (simp add: unbounded_channel_def unbounded_poll_def)
qed

theorem unbounded_no_lost_wakeup_witness:
  "\<exists>s. rx_reachable s \<and> rx_wakers (rx_chan s) = [3] \<and> ub_buffer (rx_chan s) = []"
  using unbounded_no_lost_wakeup [OF rx_poll_first] rx_poll_first
  by (intro exI [of _ "\<lparr> rx_chan = unbounded_channel \<lparr> rx_wakers := [3] \<rparr>, rx_ready = [] \<rparr>"]) simp

text \<open>Dropping the last sender of an unbounded channel wakes nobody: a task may be left waiting,
  with no woken task and no sender, although polling would tell it that the channel is closed.\<close>

theorem unbounded_drop_strands_receiver:
  "\<exists>s. rx_reachable (s :: 'a rx_system) \<and> ub_sender_count (rx_chan s) = 0 \<and> rx_wakers (rx_chan s) = [3] \<and>
    rx_ready s = [] \<and> fst (unbounded_poll 3 (rx_chan s)) = PollReady None"
proof -
  let ?s = "\<lparr> rx_chan = unbounded_channel \<lparr> rx_wakers := [3] \<rparr>, rx_ready = [] \<rparr> :: 'a rx_system"
  have "rx_reachable (?s \<lparr> rx_chan := unbounded_drop (rx_chan ?s) \<rparr>)"
    by (rule rx_reachable.step [OF rx_poll_first rx_step.drop])
  then show ?thesis
    by (intro exI, intro conjI) (assumption, simp_all add: unbounded_drop_def unbounded_channel_def unbounded_poll_def)
qed

text \<open>A value set in a one-shot cell reaches the getter: if the getter polled first, it was told to
  wait and its waker is called by the setter; the next poll yields the value.\<close>

theorem cell_delivers:
  "fst (cell_poll w (cell_set v (snd (cell_poll w spsc_cells)))) = PollReady v \<and>
   cell_woken (cell_set v (snd (cell_poll w spsc_cells))) = [w] \<and>
   fst (cell_poll w (cell_set v spsc_cells)) = PollReady v"
  by (simp add: cell_poll_def cell_set_def spsc_cells_def)

text \<open>Waiting for \<open>n\<close> ticks answers \<^verbatim>\<open>Pending\<close> exactly \<open>n\<close> times and then completes, for every 32-bit
  number except the largest, for which the internal count starts at zero.\<close>

theorem wait_ends:
  assumes "n \<noteq> - 1"
  shows "polls_until_ready (unat n + 1) (wait_int n, ws) w = Some (unat n)"
proof -
  have "n + 1 \<noteq> 0" using assms by (metis add.inverse_unique add.commute)
  moreover have "unat (n + 1) = unat n + 1" using unat_minus_one [OF calculation] unat_gt_0 [of "n + 1"] calculation by simp
  ultimately show ?thesis using polls_until_ready_tick [of "n + 1" "unat n + 1" ws w] by (simp add: wait_int_def)
qed

theorem wait_ends_witness: "polls_until_ready 4 (wait_int 3, []) (0 :: nat) = Some 3"
  using wait_ends [of 3 "[]" 0] by simp

end
