(* ===== verification/AsyncMutex.thy ===== *)
theory AsyncMutex
  imports Bounded
begin

text \<open>
  The asynchronous mutex (\<^verbatim>\<open>ejcineque/sync/mutex.rs\<close>).  The tasks that wait are
  nodes of a circular doubly linked list that lies in the futures themselves;
  the model keeps them in a store from addresses to nodes, so that aliasing and
  dangling pointers are visible.  An address without a node that is dereferenced
  makes an operation undefined (\<open>None\<close>).

  The list is shown to be a queue.  Polling and dropping the guard are split into
  their atomic steps, and these interleave: mutual exclusion holds in every run,
  and the list is safe in orderly runs, in which tasks poll only when they start
  or were woken and do not give up while they wait.  The wake-ups are not
  reliable: a task that was woken and finds the mutex taken again is not linked a
  second time, so nobody wakes it any more.
\<close>

section \<open>The mutex\<close>

record 'w MutexWakerNode =
  node_next :: "nat option"
  node_prev :: "nat option"
  node_waker :: 'w

type_synonym 'w store = "nat \<Rightarrow> 'w MutexWakerNode option"

record 'w Mutex =
  wakers_list_head :: "nat option"
  wakers_list_tail :: "nat option"
  mutex_locked :: bool
  nodes :: "'w store"
  mutex_woken :: "'w list"

definition mutex_new :: "'w Mutex" where
  "mutex_new = \<lparr> wakers_list_head = None, wakers_list_tail = None, mutex_locked = False,
     nodes = (\<lambda>_. None), mutex_woken = [] \<rparr>"

definition mutex_try_lock :: "'w Mutex \<Rightarrow> bool \<times> 'w Mutex" where
  "mutex_try_lock m = (if mutex_locked m then (False, m) else (True, m \<lparr> mutex_locked := True \<rparr>))"

text \<open>Assigning through a pointer.\<close>

definition set_field :: "('w MutexWakerNode \<Rightarrow> 'w MutexWakerNode) \<Rightarrow> nat option \<Rightarrow> 'w store \<Rightarrow> 'w store option" where
  "set_field f p h = (case p of None \<Rightarrow> None | Some a \<Rightarrow>
     (case h a of None \<Rightarrow> None | Some n \<Rightarrow> Some (h(a \<mapsto> f n))))"

text \<open>Linking the node of the future at address \<open>a\<close> in front of the head.\<close>

definition link_node :: "nat \<Rightarrow> 'w \<Rightarrow> 'w Mutex \<Rightarrow> 'w Mutex option" where
  "link_node a w m =
    (if wakers_list_head m = None \<or> wakers_list_tail m = None then
       Some (m \<lparr> nodes := (nodes m)(a \<mapsto> \<lparr> node_next = Some a, node_prev = Some a, node_waker = w \<rparr>),
         wakers_list_head := Some a, wakers_list_tail := Some a \<rparr>)
     else
       let h = (nodes m)(a \<mapsto> \<lparr> node_next = wakers_list_head m, node_prev = wakers_list_tail m, node_waker = w \<rparr>) in
       case set_field (\<lambda>n. n \<lparr> node_prev := Some a \<rparr>) (wakers_list_head m) h of None \<Rightarrow> None
       | Some h \<Rightarrow> (case set_field (\<lambda>n. n \<lparr> node_next := Some a \<rparr>) (wakers_list_tail m) h of None \<Rightarrow> None
         | Some h \<Rightarrow> Some (m \<lparr> nodes := h, wakers_list_head := Some a \<rparr>)))"

text \<open>
  A poll tries the lock and then, in a separate critical section of the list, enters the list if
  its future has no node yet.  \<open>mutex_poll\<close> is the poll of a task that is not interrupted in between.
\<close>

definition enter_list :: "nat \<Rightarrow> 'w \<Rightarrow> 'w Mutex \<Rightarrow> 'w Mutex option" where
  "enter_list a w m = (if nodes m a = None then link_node a w m else Some m)"

definition mutex_poll :: "nat \<Rightarrow> 'w \<Rightarrow> 'w Mutex \<Rightarrow> (bool \<times> 'w Mutex) option" where
  "mutex_poll a w m = (case mutex_try_lock m of
     (True, m) \<Rightarrow> Some (True, m)
   | (False, m) \<Rightarrow> map_option (\<lambda>m. (False, m)) (enter_list a w m))"

definition unlink_tail :: "'w Mutex \<Rightarrow> 'w Mutex option" where
  "unlink_tail m = (case wakers_list_tail m of None \<Rightarrow> Some m | Some t \<Rightarrow>
     if wakers_list_head m = None then Some m
     else case nodes m t of None \<Rightarrow> None | Some n \<Rightarrow>
       map_option (\<lambda>m. m \<lparr> mutex_woken := mutex_woken m @ [node_waker n] \<rparr>)
         (if node_prev n = Some t then Some (m \<lparr> wakers_list_head := None, wakers_list_tail := None \<rparr>)
          else
            case set_field (\<lambda>x. x \<lparr> node_next := wakers_list_head m \<rparr>) (node_prev n) (nodes m) of None \<Rightarrow> None
            | Some h \<Rightarrow> (case set_field (\<lambda>x. x \<lparr> node_prev := node_prev n \<rparr>) (wakers_list_head m) h of None \<Rightarrow> None
              | Some h \<Rightarrow> Some (m \<lparr> nodes := h, wakers_list_tail := node_prev n \<rparr>))))"

text \<open>Dropping the guard first opens the lock and then, in a critical section of the list, unlinks and wakes.\<close>

definition open_lock :: "'w Mutex \<Rightarrow> 'w Mutex" where
  "open_lock m = m \<lparr> mutex_locked := False \<rparr>"

definition guard_drop :: "'w Mutex \<Rightarrow> 'w Mutex option" where
  "guard_drop m = unlink_tail (open_lock m)"

text \<open>The end of a future: its memory is gone, whether its node is linked or not.\<close>

definition future_drop :: "nat \<Rightarrow> 'w Mutex \<Rightarrow> 'w Mutex" where
  "future_drop a m = m \<lparr> nodes := (nodes m)(a := None) \<rparr>"

section \<open>The list of waiting tasks is a queue\<close>

text \<open>A chain of nodes from the first to the last, with what precedes the first and follows the last.\<close>

fun chain :: "'w store \<Rightarrow> nat \<Rightarrow> (nat \<times> 'w) list \<Rightarrow> nat \<Rightarrow> bool" where
  "chain h p [] n \<longleftrightarrow> True"
| "chain h p [(x, w)] n \<longleftrightarrow> h x = Some \<lparr> node_next = Some n, node_prev = Some p, node_waker = w \<rparr>"
| "chain h p ((x, w) # y # ys) n \<longleftrightarrow>
     h x = Some \<lparr> node_next = Some (fst y), node_prev = Some p, node_waker = w \<rparr> \<and> chain h x (y # ys) n"

definition waiting :: "'w Mutex \<Rightarrow> (nat \<times> 'w) list \<Rightarrow> bool" where
  "waiting m xs \<longleftrightarrow> distinct (map fst xs) \<and>
     (if xs = [] then wakers_list_head m = None \<and> wakers_list_tail m = None
      else wakers_list_head m = Some (fst (hd xs)) \<and> wakers_list_tail m = Some (fst (last xs)) \<and>
        chain (nodes m) (fst (last xs)) xs (fst (hd xs)))"

lemma chain_frame: "a \<notin> fst ` set xs \<Longrightarrow> chain (h(a := v)) p xs n = chain h p xs n"
  by (induction h p xs n rule: chain.induct) auto

lemma chain_set_prev:
  assumes "chain h p (x # xs) n" "fst x \<notin> fst ` set xs"
  shows "\<exists>h'. set_field (\<lambda>y. y \<lparr> node_prev := Some p' \<rparr>) (Some (fst x)) h = Some h' \<and> chain h' p' (x # xs) n \<and>
    (\<forall>a. a \<noteq> fst x \<longrightarrow> h' a = h a)"
  using assms by (cases x; cases xs) (auto simp: set_field_def chain_frame)

lemma chain_snoc: "chain h p (xs @ [(x, w)]) n \<longleftrightarrow>
    chain h p xs x \<and>
    h x = Some \<lparr> node_next = Some n, node_prev = Some (if xs = [] then p else fst (last xs)), node_waker = w \<rparr>"
  by (induction h p xs n rule: chain.induct) auto

lemma chain_set_next:
  assumes "chain h p xs n" "xs \<noteq> []" "distinct (map fst xs)"
  shows "\<exists>h'. set_field (\<lambda>y. y \<lparr> node_next := Some n' \<rparr>) (Some (fst (last xs))) h = Some h' \<and> chain h' p xs n' \<and>
    (\<forall>a. a \<noteq> fst (last xs) \<longrightarrow> h' a = h a)"
proof -
  obtain ys x w where xs: "xs = ys @ [(x, w)]" using assms(2) by (metis rev_exhaust surj_pair)
  have "x \<notin> fst ` set ys" using assms(3) by (auto simp: xs)
  then show ?thesis
    using assms(1) by (simp add: xs chain_snoc set_field_def chain_frame)
qed

lemma link_node_waiting:
  assumes "waiting m xs" "a \<notin> fst ` set xs"
  shows "\<exists>m'. link_node a w m = Some m' \<and> waiting m' ((a, w) # xs) \<and> mutex_woken m' = mutex_woken m \<and>
    mutex_locked m' = mutex_locked m \<and> (\<forall>b. b \<noteq> a \<longrightarrow> (nodes m' b = None \<longleftrightarrow> nodes m b = None)) \<and> nodes m' a \<noteq> None"
proof (cases xs)
  case Nil
  with assms(1) show ?thesis by (simp add: waiting_def link_node_def)
next
  case (Cons x ys)
  let ?h = "(nodes m)(a \<mapsto> \<lparr> node_next = wakers_list_head m, node_prev = wakers_list_tail m, node_waker = w \<rparr>)"
  let ?t = "fst (last xs)"
  have m: "wakers_list_head m = Some (fst x)" "wakers_list_tail m = Some ?t" "chain (nodes m) ?t xs (fst x)"
      "distinct (map fst xs)"
    using assms(1) Cons by (simp_all add: waiting_def)
  have "chain ?h ?t xs (fst x)" using m(3) assms(2) by (simp add: chain_frame)
  then obtain h1 where h1: "set_field (\<lambda>y. y \<lparr> node_prev := Some a \<rparr>) (Some (fst x)) ?h = Some h1"
      "chain h1 a xs (fst x)" "\<forall>b. b \<noteq> fst x \<longrightarrow> h1 b = ?h b"
    using chain_set_prev [of ?h ?t x ys "fst x" a] m(4) by (auto simp: Cons)
  obtain h2 where h2: "set_field (\<lambda>y. y \<lparr> node_next := Some a \<rparr>) (Some ?t) h1 = Some h2" "chain h2 a xs a"
      "\<forall>b. b \<noteq> ?t \<longrightarrow> h2 b = h1 b"
    using chain_set_next [OF h1(2) _ m(4), of a] Cons by auto
  have "x \<in> set xs" "last xs \<in> set xs" using Cons by simp_all
  then have "a \<noteq> fst x" "a \<noteq> ?t" using assms(2) by blast+
  then have "h2 a = Some \<lparr> node_next = Some (fst x), node_prev = Some ?t, node_waker = w \<rparr>"
    using h1(3) h2(3) m(1,2) by simp
  then have "chain h2 ?t ((a, w) # xs) a" using h2(2) by (simp add: Cons)
  moreover have "h2 b = None \<longleftrightarrow> nodes m b = None" if "b \<noteq> a" for b
    using that h1 h2 by (cases "b = fst x"; cases "b = ?t") (auto simp: set_field_def split: option.splits if_splits)
  ultimately show ?thesis
    using h1(1) h2(1) m assms(2) Cons \<open>h2 a = _\<close> by (auto simp: link_node_def waiting_def Let_def last_ConsR simp del: last.simps)
qed

lemma unlink_tail_empty: "waiting m [] \<Longrightarrow> unlink_tail m = Some m"
  by (simp add: waiting_def unlink_tail_def)

lemma unlink_tail_waiting:
  assumes "waiting m (xs @ [(t, w)])"
  shows "\<exists>m'. unlink_tail m = Some m' \<and> waiting m' xs \<and> mutex_woken m' = mutex_woken m @ [w] \<and>
    mutex_locked m' = mutex_locked m"
proof (cases xs)
  case Nil
  with assms show ?thesis by (simp add: waiting_def unlink_tail_def)
next
  case (Cons x ys)
  have m: "wakers_list_head m = Some (fst x)" "wakers_list_tail m = Some t" "distinct (map fst xs)" "t \<notin> fst ` set xs"
      "chain (nodes m) t xs t"
      "nodes m t = Some \<lparr> node_next = Some (fst x), node_prev = Some (fst (last xs)), node_waker = w \<rparr>"
    using assms chain_snoc [of "nodes m" t xs t w "fst x"] Cons by (auto simp: waiting_def simp del: chain.simps)
  have ne: "fst (last xs) \<noteq> t" using m(4) Cons by (metis image_eqI last_in_set list.distinct(1))
  obtain h1 where h1: "set_field (\<lambda>y. y \<lparr> node_next := Some (fst x) \<rparr>) (Some (fst (last xs))) (nodes m) = Some h1"
      "chain h1 t xs (fst x)"
    using chain_set_next [OF m(5) _ m(3), of "fst x"] Cons by auto
  obtain h2 where h2: "set_field (\<lambda>y. y \<lparr> node_prev := Some (fst (last xs)) \<rparr>) (Some (fst x)) h1 = Some h2"
      "chain h2 (fst (last xs)) xs (fst x)"
    using chain_set_prev [of h1 t x ys "fst x" "fst (last xs)"] h1(2) m(3) by (auto simp: Cons)
  show ?thesis
    using h1(1) h2 m ne Cons by (auto simp: unlink_tail_def waiting_def simp del: last.simps chain.simps)
qed

section \<open>Tasks that use a mutex\<close>

text \<open>
  Each task is a number, its waker, and has one future, whose address is the number too.  The steps
  of different tasks interleave.  The atomic steps are the exchange of the lock flag, the store that
  opens the lock, and the two critical sections of the list, which exclude each other by the flag
  \<^verbatim>\<open>wakers_list_state\<close>.  Between them a task is in mode \<open>Linking\<close>, when its exchange failed and it has
  still to enter the list, or in mode \<open>Unlinking\<close>, when it opened the lock and has still to wake.

  In an orderly run a task polls when it comes from outside or was woken, and its future lives until
  it gets the guard.
\<close>

datatype mode = Outside | Linking | Waits | Woken | Holds | Unlinking

record mutex_sys =
  mtx :: "nat Mutex"
  mode :: "nat \<Rightarrow> mode"

definition wake_tasks :: "nat list \<Rightarrow> (nat \<Rightarrow> mode) \<Rightarrow> nat \<Rightarrow> mode" where
  "wake_tasks ws f = (\<lambda>t. if t \<in> set ws \<and> f t = Waits then Woken else f t)"

abbreviation holding :: "nat \<Rightarrow> nat Mutex \<Rightarrow> mutex_sys \<Rightarrow> mutex_sys" where
  "holding t m s \<equiv> \<lparr> mtx = future_drop t m, mode = (mode s)(t := Holds) \<rparr>"

abbreviation in_mode :: "mode \<Rightarrow> nat \<Rightarrow> nat Mutex \<Rightarrow> mutex_sys \<Rightarrow> mutex_sys" where
  "in_mode k t m s \<equiv> \<lparr> mtx = m, mode = (mode s)(t := k) \<rparr>"

abbreviation released :: "nat \<Rightarrow> nat Mutex \<Rightarrow> mutex_sys \<Rightarrow> mutex_sys" where
  "released t m s \<equiv> \<lparr> mtx = m \<lparr> mutex_woken := [] \<rparr>, mode = wake_tasks (mutex_woken m) ((mode s)(t := Outside)) \<rparr>"

inductive mutex_step :: "mutex_sys \<Rightarrow> mutex_sys \<Rightarrow> bool" where
  acquire: "mode s t = Outside \<or> mode s t = Woken \<Longrightarrow> mutex_try_lock (mtx s) = (True, m) \<Longrightarrow>
    mutex_step s (holding t m s)"
| refused: "mode s t = Outside \<or> mode s t = Woken \<Longrightarrow> mutex_try_lock (mtx s) = (False, m) \<Longrightarrow>
    mutex_step s (in_mode Linking t m s)"
| suspend: "mode s t = Linking \<Longrightarrow> enter_list t t (mtx s) = Some m \<Longrightarrow> mutex_step s (in_mode Waits t m s)"
| unlock: "mode s t = Holds \<Longrightarrow> mutex_step s (in_mode Unlinking t (open_lock (mtx s)) s)"
| release: "mode s t = Unlinking \<Longrightarrow> unlink_tail (mtx s) = Some m \<Longrightarrow> mutex_step s (released t m s)"

inductive mutex_reachable :: "mutex_sys \<Rightarrow> bool" where
  init: "mutex_reachable \<lparr> mtx = mutex_new, mode = (\<lambda>_. Outside) \<rparr>"
| step: "mutex_reachable s \<Longrightarrow> mutex_step s s' \<Longrightarrow> mutex_reachable s'"

text \<open>
  In any run, a task may also poll while it waits, as a future does that is polled together with others
  (\<^verbatim>\<open>futures/race.rs\<close>), and the future of a task that waits or was woken may be dropped, linked or not.  Since a waiting task
  may poll at any time here, a wake-up that reaches it during a poll need not be recorded.
\<close>

inductive loose_step :: "mutex_sys \<Rightarrow> mutex_sys \<Rightarrow> bool" where
  orderly: "mutex_step s s' \<Longrightarrow> loose_step s s'"
| acquire: "mode s t = Waits \<Longrightarrow> mutex_try_lock (mtx s) = (True, m) \<Longrightarrow> loose_step s (holding t m s)"
| refused: "mode s t = Waits \<Longrightarrow> mutex_try_lock (mtx s) = (False, m) \<Longrightarrow> loose_step s (in_mode Linking t m s)"
| cancel: "mode s t = Waits \<or> mode s t = Woken \<Longrightarrow> loose_step s (in_mode Outside t (future_drop t (mtx s)) s)"

inductive loose_reachable :: "mutex_sys \<Rightarrow> bool" where
  init: "loose_reachable \<lparr> mtx = mutex_new, mode = (\<lambda>_. Outside) \<rparr>"
| step: "loose_reachable s \<Longrightarrow> loose_step s s' \<Longrightarrow> loose_reachable s'"

section \<open>Mutual exclusion in any run\<close>

text \<open>The lock flag alone excludes: it is set exactly if one task holds the guard.\<close>

definition flag_ok :: "mutex_sys \<Rightarrow> bool" where
  "flag_ok s \<longleftrightarrow> (\<forall>t t'. mode s t = Holds \<longrightarrow> mode s t' = Holds \<longrightarrow> t = t') \<and>
     (mutex_locked (mtx s) \<longleftrightarrow> (\<exists>t. mode s t = Holds))"

lemma try_lock_True: "mutex_try_lock m = (True, m') \<longleftrightarrow> \<not> mutex_locked m \<and> m' = m \<lparr> mutex_locked := True \<rparr>"
  and try_lock_False: "mutex_try_lock m = (False, m') \<longleftrightarrow> mutex_locked m \<and> m' = m"
  by (auto simp: mutex_try_lock_def)

lemma enter_list_locked: "enter_list a w m = Some m' \<Longrightarrow> mutex_locked m' = mutex_locked m"
  by (auto simp: enter_list_def link_node_def Let_def split: if_splits option.splits)

lemma unlink_tail_locked: "unlink_tail m = Some m' \<Longrightarrow> mutex_locked m' = mutex_locked m"
  by (auto simp: unlink_tail_def split: if_splits option.splits)

lemma holds_upd: "f t \<noteq> Holds \<Longrightarrow> k \<noteq> Holds \<Longrightarrow> (f(t := k)) u = Holds \<longleftrightarrow> f u = Holds"
  by simp

lemma holds_wake: "wake_tasks ws f u = Holds \<longleftrightarrow> f u = Holds"
  by (simp add: wake_tasks_def)

lemma flag_acquire: "flag_ok s \<Longrightarrow> mutex_try_lock (mtx s) = (True, m) \<Longrightarrow> flag_ok (holding t m s)"
  by (auto simp: flag_ok_def try_lock_True future_drop_def)

text \<open>A step of a task that neither gets nor gives up the guard.\<close>

lemma flag_other:
  assumes "flag_ok s" "mode s t \<noteq> Holds" "k \<noteq> Holds" "mutex_locked m = mutex_locked (mtx s)"
  shows "flag_ok (in_mode k t m s)"
  using assms by (simp add: flag_ok_def holds_upd del: fun_upd_apply)

lemma flag_step: "mutex_step s s' \<Longrightarrow> flag_ok s \<Longrightarrow> flag_ok s'"
proof (induction rule: mutex_step.induct)
  case (acquire s t m)
  then show ?case by (simp add: flag_acquire)
next
  case (refused s t m)
  then show ?case by (intro flag_other) (auto simp: try_lock_False)
next
  case (suspend s t m)
  then show ?case by (intro flag_other) (auto simp: enter_list_locked)
next
  case (unlock s t)
  then show ?case by (auto simp: flag_ok_def open_lock_def)
next
  case (release s t m)
  then show ?case using unlink_tail_locked [OF release.hyps(2)]
    by (simp add: flag_ok_def holds_upd holds_wake del: fun_upd_apply)
qed

lemma loose_flag_step: "loose_step s s' \<Longrightarrow> flag_ok s \<Longrightarrow> flag_ok s'"
proof (induction rule: loose_step.induct)
  case (orderly s s')
  then show ?case by (rule flag_step)
next
  case (acquire s t m)
  then show ?case by (simp add: flag_acquire)
next
  case (refused s t m)
  then show ?case by (intro flag_other) (auto simp: try_lock_False)
next
  case (cancel s t)
  then show ?case by (intro flag_other) (auto simp: future_drop_def)
qed

lemma loose_flag: "loose_reachable s \<Longrightarrow> flag_ok s"
proof (induction rule: loose_reachable.induct)
  case init
  show ?case by (simp add: flag_ok_def mutex_new_def)
next
  case (step s s')
  then show ?case using loose_flag_step by blast
qed

lemma mutex_reachable_loose: "mutex_reachable s \<Longrightarrow> loose_reachable s"
  by (induction rule: mutex_reachable.induct) (auto intro: loose_reachable.intros loose_step.orderly)

section \<open>The list in an orderly run\<close>

text \<open>The queue holds waiting tasks only, every linked node is alive, and a task outside, with the
  guard or about to wake another has no node.\<close>

lemma waiting_cong: "wakers_list_head m' = wakers_list_head m \<Longrightarrow> wakers_list_tail m' = wakers_list_tail m \<Longrightarrow>
    nodes m' = nodes m \<Longrightarrow> waiting m' xs = waiting m xs"
  by (simp add: waiting_def)

lemma waiting_future_drop: "waiting m xs \<Longrightarrow> a \<notin> fst ` set xs \<Longrightarrow> waiting (future_drop a m) xs"
  by (auto simp: waiting_def future_drop_def chain_frame)

lemma chain_alive: "chain h p xs n \<Longrightarrow> a \<in> fst ` set xs \<Longrightarrow> h a \<noteq> None"
  by (induction h p xs n rule: chain.induct) auto

lemma set_field_dom: "set_field f p h = Some h' \<Longrightarrow> (h' a = None \<longleftrightarrow> h a = None)"
  by (auto simp: set_field_def split: option.splits if_splits)

lemma unlink_tail_dom: "unlink_tail m = Some m' \<Longrightarrow> (nodes m' a = None \<longleftrightarrow> nodes m a = None)"
  by (auto simp: unlink_tail_def split: option.splits if_splits dest!: set_field_dom)

definition queue_ok :: "mutex_sys \<Rightarrow> (nat \<times> nat) list \<Rightarrow> bool" where
  "queue_ok s xs \<longleftrightarrow> waiting (mtx s) xs \<and> (\<forall>a w. (a, w) \<in> set xs \<longrightarrow> a = w \<and> mode s a = Waits)"

definition modes_ok :: "mutex_sys \<Rightarrow> bool" where
  "modes_ok s \<longleftrightarrow> mutex_woken (mtx s) = [] \<and> (\<forall>t. mode s t \<in> {Outside, Holds, Unlinking} \<longrightarrow> nodes (mtx s) t = None)"

definition mutex_inv :: "mutex_sys \<Rightarrow> bool" where
  "mutex_inv s \<longleftrightarrow> modes_ok s \<and> (\<exists>xs. queue_ok s xs)"

lemma not_fst: "t \<notin> fst ` set xs \<longleftrightarrow> (\<forall>b. (t, b) \<notin> set xs)"
  by (force simp: image_iff)

lemma not_queued: "queue_ok s xs \<Longrightarrow> mode s t \<noteq> Waits \<Longrightarrow> t \<notin> fst ` set xs"
  by (auto simp: queue_ok_def)

lemma acquire_inv:
  assumes "queue_ok s xs" "modes_ok s" "mode s t = Outside \<or> mode s t = Woken" "mutex_try_lock (mtx s) = (True, m)"
  shows "queue_ok (holding t m s) xs" "modes_ok (holding t m s)"
proof -
  have t: "t \<notin> fst ` set xs" by (rule not_queued [OF assms(1)]) (use assms(3) in auto)
  have m: "m = mtx s \<lparr> mutex_locked := True \<rparr>" using assms(4) by (simp add: try_lock_True)
  have "waiting m xs" using assms(1) m by (simp add: queue_ok_def waiting_def)
  from waiting_future_drop [OF this t]
  show "queue_ok (holding t m s) xs" using assms(1) t by (auto simp: queue_ok_def not_fst)
  show "modes_ok (holding t m s)" using assms(2) m by (auto simp: modes_ok_def future_drop_def)
qed

lemma refused_inv:
  assumes "queue_ok s xs" "modes_ok s" "mode s t = Outside \<or> mode s t = Woken" "mutex_try_lock (mtx s) = (False, m)"
  shows "queue_ok (in_mode Linking t m s) xs" "modes_ok (in_mode Linking t m s)"
  using assms by (auto simp: queue_ok_def modes_ok_def try_lock_False)

lemma suspend_inv:
  assumes "queue_ok s xs" "modes_ok s" "mode s t = Linking"
  shows "\<exists>m. enter_list t t (mtx s) = Some m \<and>
    queue_ok (in_mode Waits t m s) (if nodes (mtx s) t = None then (t, t) # xs else xs) \<and> modes_ok (in_mode Waits t m s)"
proof -
  have t: "t \<notin> fst ` set xs" by (rule not_queued [OF assms(1)]) (use assms(3) in auto)
  have w: "waiting (mtx s) xs" using assms(1) by (simp add: queue_ok_def)
  obtain m' where m': "link_node t t (mtx s) = Some m'" "waiting m' ((t, t) # xs)" "mutex_woken m' = mutex_woken (mtx s)"
      "\<forall>b. b \<noteq> t \<longrightarrow> (nodes m' b = None \<longleftrightarrow> nodes (mtx s) b = None)"
    using link_node_waiting [OF w t] by blast
  then show ?thesis
    using assms by (cases "nodes (mtx s) t = None") (auto simp: enter_list_def queue_ok_def modes_ok_def)
qed

lemma unlock_inv:
  assumes "queue_ok s xs" "modes_ok s" "mode s t = Holds"
  shows "queue_ok (in_mode Unlinking t (open_lock (mtx s)) s) xs" "modes_ok (in_mode Unlinking t (open_lock (mtx s)) s)"
  using assms by (auto simp: queue_ok_def modes_ok_def open_lock_def waiting_def)

lemma release_inv:
  assumes "queue_ok s xs" "modes_ok s" "mode s t = Unlinking"
  shows "\<exists>m. unlink_tail (mtx s) = Some m \<and> mutex_woken m = map snd (take 1 (rev xs)) \<and>
    queue_ok (released t m s) (butlast xs) \<and> modes_ok (released t m s)"
proof -
  have w: "waiting (mtx s) xs" using assms(1) by (simp add: queue_ok_def)
  have t: "t \<notin> fst ` set xs" by (rule not_queued [OF assms(1)]) (use assms(3) in auto)
  have wk: "mutex_woken (mtx s) = []" using assms(2) by (simp add: modes_ok_def)
  obtain m where m: "unlink_tail (mtx s) = Some m" "waiting m (butlast xs)" "mutex_woken m = map snd (take 1 (rev xs))"
  proof (cases xs rule: rev_cases)
    case Nil
    then show ?thesis using that w wk unlink_tail_empty [of "mtx s"] by simp
  next
    case (snoc ys y)
    obtain a v where y: "y = (a, v)" by (cases y)
    from unlink_tail_waiting [of "mtx s" ys a v] w wk snoc y that show ?thesis by auto
  qed
  have dom: "nodes m a = None \<longleftrightarrow> nodes (mtx s) a = None" for a using unlink_tail_dom [OF m(1)] .
  have d: "distinct (map fst xs)" using w by (simp add: waiting_def)
  have "mode (released t m s) a = Waits" if ab: "(a, b) \<in> set (butlast xs)" for a b
  proof (cases xs rule: rev_cases)
    case (snoc ys y)
    have "snd y = fst y" using assms(1) snoc by (cases y) (auto simp: queue_ok_def)
    moreover have "a \<in> fst ` set ys" using ab snoc by (auto intro: rev_image_eqI)
    then have "a \<noteq> fst y" using d snoc by (cases y) (auto simp: not_fst)
    ultimately have "a \<notin> set (mutex_woken m)" using m(3) snoc by simp
    moreover have "mode s a = Waits" "a \<noteq> t" using assms(1) t in_set_butlastD [OF ab] by (force simp: queue_ok_def)+
    ultimately show ?thesis by (simp add: wake_tasks_def)
  qed (use ab in simp)
  moreover have "a = b" if "(a, b) \<in> set (butlast xs)" for a b
    using that assms(1) in_set_butlastD [OF that] by (auto simp: queue_ok_def)
  ultimately have "queue_ok (released t m s) (butlast xs)" using m(2) by (auto simp: queue_ok_def waiting_def)
  moreover have "modes_ok (released t m s)"
    using assms(2,3) dom by (auto simp: modes_ok_def wake_tasks_def)
  ultimately show ?thesis using m(1,3) by blast
qed

lemma mutex_step_inv: "mutex_step s s' \<Longrightarrow> mutex_inv s \<Longrightarrow> mutex_inv s'"
proof (induction rule: mutex_step.induct)
  case (acquire s t m)
  then show ?case unfolding mutex_inv_def using acquire_inv by blast
next
  case (refused s t m)
  then show ?case unfolding mutex_inv_def using refused_inv by blast
next
  case (suspend s t m)
  then obtain xs where "queue_ok s xs" "modes_ok s" by (auto simp: mutex_inv_def)
  from suspend_inv [OF this suspend.hyps(1)] suspend.hyps(2) show ?case unfolding mutex_inv_def by auto
next
  case (unlock s t)
  then show ?case unfolding mutex_inv_def using unlock_inv by blast
next
  case (release s t m)
  then obtain xs where "queue_ok s xs" "modes_ok s" by (auto simp: mutex_inv_def)
  from release_inv [OF this release.hyps(1)] release.hyps(2) show ?case unfolding mutex_inv_def by auto
qed

lemma mutex_reachable_inv: "mutex_reachable s \<Longrightarrow> mutex_inv s"
proof (induction rule: mutex_reachable.induct)
  case init
  show ?case by (auto simp: mutex_inv_def modes_ok_def queue_ok_def mutex_new_def waiting_def intro: exI [of _ "[]"])
next
  case (step s s')
  then show ?case using mutex_step_inv by blast
qed

text \<open>A task that waits without being in the queue stays there for ever.\<close>

definition forgotten :: "nat \<Rightarrow> mutex_sys \<Rightarrow> bool" where
  "forgotten t s \<longleftrightarrow> mode s t = Waits \<and> modes_ok s \<and> (\<exists>xs. queue_ok s xs \<and> t \<notin> fst ` set xs)"

lemma forgottenE:
  assumes "forgotten t s"
  obtains xs where "queue_ok s xs" "modes_ok s" "t \<notin> fst ` set xs" "mode s t = Waits"
  using assms by (auto simp: forgotten_def)

lemma forgotten_step: "mutex_step s s' \<Longrightarrow> forgotten t s \<Longrightarrow> forgotten t s'"
proof (induction rule: mutex_step.induct)
  case (acquire s u m)
  from acquire.prems show ?case
    by (rule forgottenE) (use acquire.hyps acquire_inv [OF _ _ acquire.hyps] in \<open>auto simp: forgotten_def\<close>)
next
  case (refused s u m)
  from refused.prems show ?case
    by (rule forgottenE) (use refused.hyps refused_inv [OF _ _ refused.hyps] in \<open>auto simp: forgotten_def\<close>)
next
  case (suspend s u m)
  from suspend.prems obtain xs where xs: "queue_ok s xs" "modes_ok s" "t \<notin> fst ` set xs" "mode s t = Waits" by (rule forgottenE)
  have "t \<noteq> u" using suspend.hyps(1) xs(4) by auto
  then have "t \<notin> fst ` set (if nodes (mtx s) u = None then (u, u) # xs else xs)" using xs(3) by simp
  with suspend_inv [OF xs(1,2) suspend.hyps(1)] suspend.hyps(2) \<open>t \<noteq> u\<close> xs(4) show ?case unfolding forgotten_def by auto
next
  case (unlock s u)
  from unlock.prems show ?case
    by (rule forgottenE) (use unlock.hyps unlock_inv [OF _ _ unlock.hyps] in \<open>auto simp: forgotten_def\<close>)
next
  case (release s u m)
  from release.prems obtain xs where xs: "queue_ok s xs" "modes_ok s" "t \<notin> fst ` set xs" "mode s t = Waits" by (rule forgottenE)
  note r = release_inv [OF xs(1,2) release.hyps(1)]
  have "t \<notin> snd ` set xs" using xs(1,3) by (force simp: queue_ok_def)
  then have "t \<notin> set (mutex_woken m)"
    using r release.hyps(2) set_take_subset [of 1 "rev xs"] by (auto simp: image_iff)
  moreover have "t \<notin> fst ` set (butlast xs)" using xs(3) in_set_butlastD [of _ xs] by (auto simp: image_iff)
  moreover have "t \<noteq> u" using xs(4) release.hyps(1) by auto
  ultimately show ?case using r release.hyps(2) xs(4) by (auto simp: forgotten_def wake_tasks_def)
qed

lemma forgotten_forever: "mutex_step\<^sup>*\<^sup>* s s' \<Longrightarrow> forgotten t s \<Longrightarrow> forgotten t s'"
  by (induction rule: rtranclp_induct) (auto intro: forgotten_step)

text \<open>Orderly runs in which the tasks take their steps in a given order.\<close>

datatype action = Tries nat | Links nat | Unlocks nat | Unlinks nat

definition act :: "action \<Rightarrow> mutex_sys \<Rightarrow> mutex_sys option" where
  "act e s = (case e of
     Tries t \<Rightarrow> if mode s t = Outside \<or> mode s t = Woken then
         Some (case mutex_try_lock (mtx s) of (True, m) \<Rightarrow> holding t m s | (False, m) \<Rightarrow> in_mode Linking t m s)
       else None
   | Links t \<Rightarrow> if mode s t = Linking then map_option (\<lambda>m. in_mode Waits t m s) (enter_list t t (mtx s)) else None
   | Unlocks t \<Rightarrow> if mode s t = Holds then Some (in_mode Unlinking t (open_lock (mtx s)) s) else None
   | Unlinks t \<Rightarrow> if mode s t = Unlinking then map_option (\<lambda>m. released t m s) (unlink_tail (mtx s)) else None)"

fun acts :: "action list \<Rightarrow> mutex_sys \<Rightarrow> mutex_sys option" where
  "acts [] s = Some s"
| "acts (e # es) s = (case act e s of None \<Rightarrow> None | Some s \<Rightarrow> acts es s)"

lemma act_step: "act e s = Some s' \<Longrightarrow> mutex_step s s'"
  by (cases e) (auto simp: act_def intro: mutex_step.intros split: if_splits prod.splits bool.splits)

lemma acts_reachable: "mutex_reachable s \<Longrightarrow> acts es s = Some s' \<Longrightarrow> mutex_reachable s'"
  by (induction es s rule: acts.induct) (auto split: option.splits intro: mutex_reachable.step act_step)

abbreviation mutex_start :: mutex_sys where
  "mutex_start \<equiv> \<lparr> mtx = mutex_new, mode = (\<lambda>_. Outside) \<rparr>"

lemmas act_simps = act_def mutex_try_lock_def enter_list_def link_node_def open_lock_def unlink_tail_def set_field_def
  mutex_new_def future_drop_def wake_tasks_def

text \<open>Task 1 waits for task 0, is woken when 0 releases, and finds that task 2 was faster.\<close>

definition forget_run :: "action list" where
  "forget_run = [Tries 0, Tries 1, Links 1, Unlocks 0, Unlinks 0, Tries 2, Tries 1, Links 1, Unlocks 2, Unlinks 2]"

lemma forget_run_result: "\<exists>s. acts forget_run mutex_start = Some s \<and>
    mode s = (\<lambda>_. Outside)(1 := Waits) \<and> \<not> mutex_locked (mtx s) \<and> wakers_list_head (mtx s) = None"
  by (simp add: forget_run_def act_simps fun_eq_iff)

text \<open>
  Task 0 opens the lock and finds nobody to wake while task 1, which was refused, has still to enter
  the list: 1 waits although the mutex is free, until another task uses the mutex.
\<close>

lemma wake_up_missed:
  "\<exists>s. mutex_reachable s \<and> \<not> mutex_locked (mtx s) \<and> mode s = (\<lambda>_. Outside)(1 := Waits) \<and>
    wakers_list_tail (mtx s) = Some 1"
proof -
  have "\<exists>s. acts [Tries 0, Tries 1, Unlocks 0, Unlinks 0, Links 1] mutex_start = Some s \<and>
      \<not> mutex_locked (mtx s) \<and> mode s = (\<lambda>_. Outside)(1 := Waits) \<and> wakers_list_tail (mtx s) = Some 1"
    by (simp add: act_simps fun_eq_iff)
  then show ?thesis using acts_reachable [OF mutex_reachable.init] by blast
qed

text \<open>Task 0 holds the guard and task 1 waits for it.\<close>

lemma one_waiter: "\<exists>s. acts [Tries 0, Tries 1, Links 1] mutex_start = Some s \<and> mutex_reachable s \<and>
    mode s = (\<lambda>_. Outside)(0 := Holds, 1 := Waits) \<and> wakers_list_tail (mtx s) = Some 1 \<and> wakers_list_head (mtx s) = Some 1"
proof -
  have "\<exists>s. acts [Tries 0, Tries 1, Links 1] mutex_start = Some s \<and>
      mode s = (\<lambda>_. Outside)(0 := Holds, 1 := Waits) \<and> wakers_list_tail (mtx s) = Some 1 \<and> wakers_list_head (mtx s) = Some 1"
    by (simp add: act_simps fun_eq_iff)
  then show ?thesis using acts_reachable [OF mutex_reachable.init] by blast
qed

text \<open>
  Outside orderly runs the list is not safe: when the future of task 1 is dropped while it is linked, task 0
  follows a pointer into memory that is gone when it wakes the next task.
\<close>

lemma dropped_future_dangles:
  "\<exists>s. loose_reachable s \<and> mode s 0 = Unlinking \<and> unlink_tail (mtx s) = None"
proof -
  obtain s where s: "mutex_reachable s" "mode s = (\<lambda>_. Outside)(0 := Holds, 1 := Waits)"
      "wakers_list_tail (mtx s) = Some 1" "wakers_list_head (mtx s) = Some 1" using one_waiter by blast
  let ?s = "in_mode Outside 1 (future_drop 1 (mtx s)) s"
  have "loose_reachable ?s"
    using mutex_reachable_loose [OF s(1)] by (rule loose_reachable.step) (rule loose_step.cancel, simp add: s(2))
  then have "loose_reachable (in_mode Unlinking 0 (open_lock (mtx ?s)) ?s)"
    by (rule loose_reachable.step) (rule loose_step.orderly, rule mutex_step.unlock, simp add: s(2))
  then show ?thesis
    by (intro exI [of _ "in_mode Unlinking 0 (open_lock (mtx ?s)) ?s"])
      (simp add: s open_lock_def future_drop_def unlink_tail_def)
qed

section \<open>Properties\<close>

text \<open>C7. In every run at most one task holds the guard of a mutex, and exactly if the lock is taken, also when
  tasks poll without having been woken and futures are dropped while they wait.  In an orderly run, in
  which a task polls only when it starts or was woken and its future lives until it gets the guard, no
  step of the tasks, entering the list or waking the next one, dereferences a pointer to memory that is gone.\<close>

theorem mutex_exclusive:
  assumes "loose_reachable s"
  shows "(\<forall>t t'. mode s t = Holds \<longrightarrow> mode s t' = Holds \<longrightarrow> t = t') \<and>
    (mutex_locked (mtx s) \<longleftrightarrow> (\<exists>t. mode s t = Holds)) \<and>
    (mutex_reachable s \<longrightarrow>
      (\<forall>t. mode s t = Linking \<longrightarrow> enter_list t t (mtx s) \<noteq> None) \<and>
      (\<forall>t. mode s t = Unlinking \<longrightarrow> unlink_tail (mtx s) \<noteq> None))"
proof -
  have "enter_list t t (mtx s) \<noteq> None" if r: "mutex_reachable s" and "mode s t = Linking" for t
  proof -
    obtain xs where "queue_ok s xs" "modes_ok s" using mutex_reachable_inv [OF r] by (auto simp: mutex_inv_def)
    from suspend_inv [OF this that(2)] show ?thesis by auto
  qed
  moreover have "unlink_tail (mtx s) \<noteq> None" if r: "mutex_reachable s" and "mode s t = Unlinking" for t
  proof -
    obtain xs where "queue_ok s xs" "modes_ok s" using mutex_reachable_inv [OF r] by (auto simp: mutex_inv_def)
    from release_inv [OF this that(2)] show ?thesis by auto
  qed
  ultimately show ?thesis using loose_flag [OF assms] by (auto simp: flag_ok_def)
qed

theorem mutex_exclusive_witness:
  "\<exists>s. acts [Tries 0, Tries 1, Links 1] mutex_start = Some s \<and> mode s 0 = Holds \<and> (\<forall>t. mode s t = Holds \<longrightarrow> t = 0) \<and>
    mutex_locked (mtx s) \<and> (\<exists>s'. acts [Tries 0, Tries 1, Links 1, Tries 2, Unlocks 0] mutex_start = Some s' \<and>
      enter_list 2 2 (mtx s') \<noteq> None \<and> unlink_tail (mtx s') \<noteq> None)"
proof -
  obtain s where s: "acts [Tries 0, Tries 1, Links 1] mutex_start = Some s" "mutex_reachable s"
      "mode s = (\<lambda>_. Outside)(0 := Holds, 1 := Waits)" using one_waiter by blast
  have "\<exists>s'. acts [Tries 0, Tries 1, Links 1, Tries 2, Unlocks 0] mutex_start = Some s' \<and> mode s' 0 = Unlinking \<and> mode s' 2 = Linking"
    by (simp add: act_simps)
  then obtain s' where s': "acts [Tries 0, Tries 1, Links 1, Tries 2, Unlocks 0] mutex_start = Some s'"
      "mode s' 0 = Unlinking" "mode s' 2 = Linking" by blast
  have r: "mutex_reachable s'" using acts_reachable [OF mutex_reachable.init s'(1)] .
  have "mode s 0 = Holds" using s(3) by simp
  then have "mode s 0 = Holds \<and> (\<forall>t. mode s t = Holds \<longrightarrow> t = 0) \<and> mutex_locked (mtx s)"
    using mutex_exclusive [OF mutex_reachable_loose [OF s(2)]] by blast
  moreover have "enter_list 2 2 (mtx s') \<noteq> None \<and> unlink_tail (mtx s') \<noteq> None"
    using mutex_exclusive [OF mutex_reachable_loose [OF r]] r s'(2,3) by blast
  ultimately show ?thesis using s(1) s'(1) by blast
qed

text \<open>C6. The intrusive list of a mutex is a queue of wakers: a poll that has to wait adds its waker
  at the head, and dropping the guard removes the waker at the tail, the one that waited longest,
  and calls it.\<close>

theorem mutex_queue:
  assumes "waiting m (xs @ [(t, v)])" "mutex_locked m" "nodes m a = None"
  shows "\<exists>m'. mutex_poll a w m = Some (False, m') \<and> waiting m' ((a, w) # xs @ [(t, v)]) \<and>
    (\<exists>m''. guard_drop m' = Some m'' \<and> waiting m'' ((a, w) # xs) \<and> mutex_woken m'' = mutex_woken m @ [v] \<and>
      \<not> mutex_locked m'')"
proof -
  have "a \<notin> fst ` set (xs @ [(t, v)])" using assms(1,3) chain_alive by (fastforce simp: waiting_def)
  then obtain m' where m': "link_node a w m = Some m'" "waiting m' (((a, w) # xs) @ [(t, v)])" "mutex_woken m' = mutex_woken m"
    using link_node_waiting [OF assms(1), of a w] by auto
  then have "waiting (m' \<lparr> mutex_locked := False \<rparr>) (((a, w) # xs) @ [(t, v)])" by (simp add: waiting_def)
  from unlink_tail_waiting [OF this] m' assms(2,3) show ?thesis
    by (auto simp: mutex_poll_def mutex_try_lock_def enter_list_def guard_drop_def open_lock_def)
qed

theorem mutex_queue_witness:
  "\<exists>m m' m''. waiting (m :: nat Mutex) [(8, 80)] \<and> mutex_poll 9 90 m = Some (False, m') \<and>
    guard_drop m' = Some m'' \<and> mutex_woken m'' = [80] \<and> waiting m'' [(9, 90)]"
proof -
  let ?m = "mutex_new \<lparr> mutex_locked := True, wakers_list_head := Some 8, wakers_list_tail := Some 8,
      nodes := [8 \<mapsto> \<lparr> node_next = Some 8, node_prev = Some 8, node_waker = 80 \<rparr>] \<rparr> :: nat Mutex"
  have w: "waiting ?m ([] @ [(8, 80)])" by (simp add: waiting_def)
  show ?thesis using mutex_queue [OF w, of 9 90] w by (auto simp: mutex_new_def)
qed

text \<open>C34. A wake-up can be lost for good: there is a run after which the mutex is free and no task
  uses it, while one task waits, and whatever steps the tasks take from then on in an orderly run, that
  task keeps waiting.\<close>

theorem mutex_forgets_waiter:
  "\<exists>s. mutex_reachable s \<and> \<not> mutex_locked (mtx s) \<and> (\<forall>t. t \<noteq> 1 \<longrightarrow> mode s t = Outside) \<and>
    (\<forall>s'. mutex_step\<^sup>*\<^sup>* s s' \<longrightarrow> mode s' 1 = Waits)"
proof -
  obtain s where s: "acts forget_run mutex_start = Some s"
      "mode s = (\<lambda>_. Outside)(1 := Waits)" "\<not> mutex_locked (mtx s)" "wakers_list_head (mtx s) = None"
    using forget_run_result by blast
  have r: "mutex_reachable s" using acts_reachable [OF mutex_reachable.init s(1)] .
  obtain xs where xs: "queue_ok s xs" "modes_ok s" using mutex_reachable_inv [OF r] by (auto simp: mutex_inv_def)
  have "xs = []" using xs(1) s(4) by (auto simp: queue_ok_def waiting_def split: if_splits)
  then have "forgotten 1 s" using xs s(2) by (auto simp: forgotten_def)
  then have "mode s' 1 = Waits" if "mutex_step\<^sup>*\<^sup>* s s'" for s'
    using forgotten_forever [OF that] by (simp add: forgotten_def)
  with r s(2,3) show ?thesis by auto
qed

theorem mutex_forgets_waiter_witness:
  "\<exists>s. mutex_reachable s \<and> \<not> mutex_locked (mtx s) \<and> mode s 0 = Outside \<and> mode s 1 = Waits"
proof -
  obtain s where "mutex_reachable s" "\<not> mutex_locked (mtx s)" "\<forall>t. t \<noteq> 1 \<longrightarrow> mode s t = Outside"
      "\<forall>s'. mutex_step\<^sup>*\<^sup>* s s' \<longrightarrow> mode s' 1 = Waits"
    using mutex_forgets_waiter by blast
  then show ?thesis by auto
qed

end
