(* ===== verification/Executor.thy ===== *)
theory Executor
  imports Prelude
begin

text \<open>
  The task executor (\<^verbatim>\<open>ejcineque/executor.rs\<close>): one context per processor, with a
  queue of task numbers, a map from numbers to tasks and a map of wakers.  A
  future is code outside this module: polling it is a parameter, a function of
  the future and of the rest of the system that answers whether it is finished,
  which wakers it called and what it spawned.  A future can only call wakers it
  was given; \<open>issued\<close> records which tasks' wakers exist.
\<close>

section \<open>Contexts\<close>

type_synonym task_id = u64

record 'f ExecutorContext =
  tasks :: "task_id list"
  tasks_map :: "task_id \<Rightarrow> 'f option"
  ctx_wakers :: "task_id set"
  issued :: "task_id set"

definition context_default :: "'f ExecutorContext" where
  "context_default = \<lparr> tasks = [], tasks_map = (\<lambda>_. None), ctx_wakers = {}, issued = {} \<rparr>"

text \<open>\<^verbatim>\<open>TaskWaker::wake\<close>: the number goes to the back of the queue.\<close>

definition wake :: "task_id \<Rightarrow> 'f ExecutorContext \<Rightarrow> 'f ExecutorContext" where
  "wake i c = c \<lparr> tasks := tasks c @ [i] \<rparr>"

text \<open>The two steps of \<^verbatim>\<open>spawn\<close> on the context it chose.\<close>

definition push_task :: "task_id \<Rightarrow> 'f ExecutorContext \<Rightarrow> 'f ExecutorContext" where
  "push_task i c = c \<lparr> tasks := tasks c @ [i] \<rparr>"

definition insert_task :: "task_id \<Rightarrow> 'f \<Rightarrow> 'f ExecutorContext \<Rightarrow> 'f ExecutorContext" where
  "insert_task i f c = c \<lparr> tasks_map := (tasks_map c)(i := Some f) \<rparr>"

text \<open>
  What others do to a context, from interrupts, from other processors or from the future that is being
  polled: calling a waker, and the two steps of spawning a task, each under a lock of its own.
\<close>

datatype 'f interference = Wakes task_id | Pushes task_id | Inserts task_id 'f

definition interfere :: "'f interference \<Rightarrow> 'f ExecutorContext \<Rightarrow> 'f ExecutorContext" where
  "interfere e c = (case e of
      Wakes i \<Rightarrow> (if i \<in> issued c then wake i c else c)
    | Pushes i \<Rightarrow> push_task i c
    | Inserts i f \<Rightarrow> insert_task i f c)"

fun replaces :: "task_id \<Rightarrow> 'f interference \<Rightarrow> bool" where
  "replaces i (Inserts j f) \<longleftrightarrow> j = i"
| "replaces i e \<longleftrightarrow> False"

text \<open>The outcome of a poll: whether the future is finished, its next state, the rest of the system,
  and what it did to this context.\<close>

type_synonym ('f, 's) poller = "task_id \<Rightarrow> 'f \<Rightarrow> 's \<Rightarrow> bool \<times> 'f \<times> 's \<times> 'f interference list"

text \<open>One turn of the loop of \<^verbatim>\<open>run\<close> on a non-empty queue; the second result is the task that was
  polled, if any.  An empty queue halts the processor until an interrupt.  The task that is polled is shared
  with the map, so that its new state is there afterwards, unless the poll put another task in its place.\<close>

definition poll_task :: "('f, 's) poller \<Rightarrow> task_id \<Rightarrow> 'f \<Rightarrow> 'f ExecutorContext \<Rightarrow> 's \<Rightarrow> 'f ExecutorContext \<times> 's" where
  "poll_task poll i f c s =
    (let c = c \<lparr> ctx_wakers := insert i (ctx_wakers c), issued := insert i (issued c) \<rparr> in
     case poll i f s of (ready, f', s', es) \<Rightarrow>
       let c = fold interfere es c in
       (if ready then c \<lparr> tasks_map := (tasks_map c)(i := None), ctx_wakers := ctx_wakers c - {i} \<rparr>
        else if list_ex (replaces i) es then c
        else c \<lparr> tasks_map := (tasks_map c)(i := Some f') \<rparr>, s'))"

definition run_turn :: "('f, 's) poller \<Rightarrow> 'f ExecutorContext \<Rightarrow> 's \<Rightarrow> 'f ExecutorContext \<times> 's \<times> task_id option" where
  "run_turn poll c s = (case tasks c of [] \<Rightarrow> (c, s, None)
   | i # rs \<Rightarrow>
       let c = c \<lparr> tasks := rs \<rparr> in
       case tasks_map c i of None \<Rightarrow> (c, s, None)
       | Some f \<Rightarrow> (case poll_task poll i f c s of (c, s) \<Rightarrow> (c, s, Some i)))"

text \<open>Several turns; before each of them interrupts and other processors may interfere.\<close>

fun run_turns :: "('f, 's) poller \<Rightarrow> 'f interference list list \<Rightarrow> 'f ExecutorContext \<Rightarrow> 's \<Rightarrow>
    'f ExecutorContext \<times> 's \<times> task_id option list" where
  "run_turns poll [] c s = (c, s, [])"
| "run_turns poll (es # ess) c s =
    (case run_turn poll (fold interfere es c) s of (c, s, p) \<Rightarrow>
     case run_turns poll ess c s of (c, s, ps) \<Rightarrow> (c, s, p # ps))"

section \<open>Spawning\<close>

text \<open>The contexts in the order of their keys.\<close>

record 'f Spawner =
  counter :: u64
  contexts :: "(u32 \<times> 'f ExecutorContext) list"

definition executor_new :: "u32 list \<Rightarrow> 'f Spawner" where
  "executor_new cpus = \<lparr> counter = 0, contexts = map (\<lambda>k. (k, context_default)) (sort_key unat (remdups cpus)) \<rparr>"

definition next_id :: "u64 \<Rightarrow> u64" where
  "next_id i = (if i = - 1 then 0 else i + 1)"

text \<open>\<^verbatim>\<open>min_by\<close> on the lengths of the queues: the first of the shortest.\<close>

fun shortest :: "(u32 \<times> 'f ExecutorContext) list \<Rightarrow> u32 option" where
  "shortest [] = None"
| "shortest [(k, c)] = Some k"
| "shortest ((k, c) # (k', c') # rest) =
     (if length (tasks c') < length (tasks c) then shortest ((k', c') # rest) else shortest ((k, c) # rest))"

definition on_context :: "u32 \<Rightarrow> ('f ExecutorContext \<Rightarrow> 'f ExecutorContext) \<Rightarrow> 'f Spawner \<Rightarrow> 'f Spawner" where
  "on_context k g s = s \<lparr> contexts := map (\<lambda>(k', c). (k', if k' = k then g c else c)) (contexts s) \<rparr>"

definition spawn :: "'f \<Rightarrow> ('f Spawner, unit, unit) st" where
  "spawn f = bind get_st (\<lambda>s.
     let i = counter s in
     bind (modify (\<lambda>s. s \<lparr> counter := next_id (counter s) \<rparr>)) (\<lambda>_.
     case shortest (contexts s) of None \<Rightarrow> crash
     | Some k \<Rightarrow> bind (modify (on_context k (push_task i))) (\<lambda>_. modify (on_context k (insert_task i f)))))"

section \<open>Fairness\<close>

lemma interfere_one:
  "\<exists>more. tasks (interfere e c) = tasks c @ more" "tasks_map c j \<noteq> None \<Longrightarrow> tasks_map (interfere e c) j \<noteq> None"
  by (cases e; auto simp: interfere_def wake_def push_task_def insert_task_def)+

lemma fold_interfere:
  "\<exists>more. tasks (fold interfere es c) = tasks c @ more"
  "tasks_map c j \<noteq> None \<Longrightarrow> tasks_map (fold interfere es c) j \<noteq> None"
proof -
  show "\<exists>more. tasks (fold interfere es c) = tasks c @ more"
    by (induction es arbitrary: c) (use interfere_one(1) in \<open>auto, metis append.assoc\<close>)
  show "tasks_map c j \<noteq> None \<Longrightarrow> tasks_map (fold interfere es c) j \<noteq> None"
  proof (induction es arbitrary: c)
    case (Cons e es)
    show ?case using Cons.IH [OF interfere_one(2) [OF Cons.prems]] by simp
  qed simp
qed

lemma run_turn_Cons:
  assumes "tasks c = i # rs"
  shows "\<exists>more. tasks (fst (run_turn poll c s)) = rs @ more"
    "tasks_map c i \<noteq> None \<Longrightarrow> snd (snd (run_turn poll c s)) = Some i"
    "j \<noteq> i \<Longrightarrow> tasks_map c j \<noteq> None \<Longrightarrow> tasks_map (fst (run_turn poll c s)) j \<noteq> None"
proof -
  have p: "\<exists>more. tasks (fst (poll_task poll i f c s)) = tasks c @ more"
    "j \<noteq> i \<Longrightarrow> tasks_map c j \<noteq> None \<Longrightarrow> tasks_map (fst (poll_task poll i f c s)) j \<noteq> None" for f c
    using fold_interfere(1) [of "snd (snd (snd (poll i f s)))" "c \<lparr> ctx_wakers := insert i (ctx_wakers c), issued := insert i (issued c) \<rparr>"]
      fold_interfere(2) [of "c \<lparr> ctx_wakers := insert i (ctx_wakers c), issued := insert i (issued c) \<rparr>" j "snd (snd (snd (poll i f s)))"]
    by (auto simp: poll_task_def Let_def split: prod.splits)
  show "\<exists>more. tasks (fst (run_turn poll c s)) = rs @ more"
    using p(1) [of _ "c \<lparr> tasks := rs \<rparr>"] assms by (auto simp: run_turn_def Let_def split: option.splits prod.splits) (metis fst_conv)
  show "tasks_map c i \<noteq> None \<Longrightarrow> snd (snd (run_turn poll c s)) = Some i"
    using assms by (auto simp: run_turn_def Let_def split: prod.splits)
  show "j \<noteq> i \<Longrightarrow> tasks_map c j \<noteq> None \<Longrightarrow> tasks_map (fst (run_turn poll c s)) j \<noteq> None"
    using p(2) [of "c \<lparr> tasks := rs \<rparr>"] assms by (auto simp: run_turn_def Let_def split: option.splits prod.splits) (metis fst_conv option.distinct(1))
qed

lemma run_turns_fair:
  assumes "k < length ess" "k < length (tasks c)" "tasks c ! k = i" "i \<notin> set (take k (tasks c))" "tasks_map c i \<noteq> None"
  shows "snd (snd (run_turns poll ess c s)) ! k = Some i"
  using assms
proof (induction k arbitrary: ess c s)
  case 0
  then obtain es ess' rs where w: "ess = es # ess'" "tasks c = i # rs" by (cases ess; cases "tasks c") auto
  obtain more where "tasks (fold interfere es c) = i # rs @ more" using fold_interfere(1) [of es c] w(2) by auto
  from run_turn_Cons(2) [OF this fold_interfere(2) [OF 0(5)], of poll s] show ?case by (auto simp: w(1) split: prod.splits)
next
  case (Suc k)
  then obtain es ess' j rs where w: "ess = es # ess'" "tasks c = j # rs" by (cases ess; cases "tasks c") auto
  have ij: "i \<noteq> j" "k < length rs" "rs ! k = i" "i \<notin> set (take k rs)" using Suc.prems w(2) by auto
  let ?c = "fold interfere es c"
  obtain m1 where t: "tasks ?c = j # rs @ m1" using fold_interfere(1) [of es c] w(2) by auto
  obtain c1 s1 p where r: "run_turn poll ?c s = (c1, s1, p)" by (cases "run_turn poll ?c s") auto
  obtain more where more: "tasks c1 = (rs @ m1) @ more" using run_turn_Cons(1) [OF t, of poll s] r by auto
  have "tasks_map c1 i \<noteq> None"
    using run_turn_Cons(3) [OF t ij(1) fold_interfere(2) [OF Suc.prems(5)], of poll s] r by simp
  then have "snd (snd (run_turns poll ess' c1 s1)) ! k = Some i"
    using Suc.prems(1) ij(2-4) w(1) by (intro Suc.IH) (simp_all add: more nth_append)
  then show ?case by (auto simp: w(1) r split: prod.splits)
qed

section \<open>Spawning on the shortest queue\<close>

lemma shortest_in:
  assumes "shortest cs = Some k"
  shows "\<exists>c. (k, c) \<in> set cs \<and> (\<forall>(k', c') \<in> set cs. length (tasks c) \<le> length (tasks c'))"
  using assms
proof (induction cs rule: shortest.induct)
  case (3 k1 c1 k2 c2 rest)
  show ?case
  proof (cases "length (tasks c2) < length (tasks c1)")
    case True
    then obtain c where "(k, c) \<in> set ((k2, c2) # rest)" "\<forall>(k', c') \<in> set ((k2, c2) # rest). length (tasks c) \<le> length (tasks c')"
      using "3.IH"(1) "3.prems" by auto
    with True show ?thesis by (intro exI [of _ c]) auto
  next
    case False
    then obtain c where "(k, c) \<in> set ((k1, c1) # rest)" "\<forall>(k', c') \<in> set ((k1, c1) # rest). length (tasks c) \<le> length (tasks c')"
      using "3.IH"(2) "3.prems" by auto
    with False show ?thesis by (intro exI [of _ c]) auto
  qed
qed auto

lemma shortest_None: "shortest cs = None \<longleftrightarrow> cs = []"
  by (induction cs rule: shortest.induct) auto

lemma map_of_on_context: "map_of (contexts (on_context k g s)) =
    (case map_of (contexts s) k of None \<Rightarrow> map_of (contexts s) | Some c \<Rightarrow> (map_of (contexts s))(k \<mapsto> g c))"
proof -
  have "map_of (map (\<lambda>(k', c). (k', if k' = k then g c else c)) cs) =
      (case map_of cs k of None \<Rightarrow> map_of cs | Some c \<Rightarrow> (map_of cs)(k \<mapsto> g c))" for cs
    by (induction cs) (auto split: option.splits)
  then show ?thesis by (simp add: on_context_def)
qed

lemma counter_on_context [simp]: "counter (on_context k g s) = counter s"
  by (simp add: on_context_def)

section \<open>A task that is spawned from another processor\<close>

text \<open>A task that is in no queue and whose waker was never issued; and interference that does not spawn a
  task of the same number again.\<close>

definition unqueued :: "task_id \<Rightarrow> 'f ExecutorContext \<Rightarrow> bool" where
  "unqueued i c \<longleftrightarrow> i \<notin> set (tasks c) \<and> i \<notin> issued c"

definition avoids :: "task_id \<Rightarrow> 'f interference list \<Rightarrow> bool" where
  "avoids i es \<longleftrightarrow> Pushes i \<notin> set es \<and> \<not> list_ex (replaces i) es"

lemma interfere_avoids:
  "avoids i es \<Longrightarrow> unqueued i c \<Longrightarrow> unqueued i (fold interfere es c) \<and> tasks_map (fold interfere es c) i = tasks_map c i"
proof (induction es arbitrary: c)
  case (Cons e es)
  have "unqueued i (interfere e c) \<and> tasks_map (interfere e c) i = tasks_map c i"
    using Cons.prems by (cases e) (auto simp: avoids_def unqueued_def interfere_def wake_def push_task_def insert_task_def)
  then show ?case using Cons.IH [of "interfere e c"] Cons.prems(1) by (simp add: avoids_def)
qed simp

lemma poll_task_unqueued:
  assumes "unqueued i c" "\<forall>j f s. avoids i (snd (snd (snd (poll j f s))))" "j \<noteq> i"
  shows "unqueued i (fst (poll_task poll j f c s)) \<and> tasks_map (fst (poll_task poll j f c s)) i = tasks_map c i"
proof -
  let ?c = "c \<lparr> ctx_wakers := insert j (ctx_wakers c), issued := insert j (issued c) \<rparr>"
  have "unqueued i ?c" using assms(1,3) by (simp add: unqueued_def)
  from interfere_avoids [OF assms(2) [rule_format, of j f s] this] assms(3) show ?thesis
    by (auto simp: poll_task_def Let_def unqueued_def split: prod.splits)
qed

lemma run_turn_unqueued:
  assumes "unqueued i c" "\<forall>j f s. avoids i (snd (snd (snd (poll j f s))))" "run_turn poll c s = (c', s', p)"
  shows "unqueued i c' \<and> p \<noteq> Some i \<and> tasks_map c' i = tasks_map c i"
proof (cases "tasks c")
  case Nil
  then show ?thesis using assms by (simp add: run_turn_def)
next
  case (Cons j rs)
  have j: "j \<noteq> i" "unqueued i (c \<lparr> tasks := rs \<rparr>)" using assms(1) Cons by (auto simp: unqueued_def)
  show ?thesis
    using poll_task_unqueued [OF j(2) assms(2) j(1)] j assms(3)
    by (auto simp: run_turn_def Cons Let_def split: option.splits prod.splits) (metis fst_conv)+
qed

lemma run_turns_unqueued:
  assumes "\<forall>j f s. avoids i (snd (snd (snd (poll j f s))))"
  shows "unqueued i c \<Longrightarrow> list_all (avoids i) ess \<Longrightarrow> Some i \<notin> set (snd (snd (run_turns poll ess c s))) \<and>
    tasks_map (fst (run_turns poll ess c s)) i = tasks_map c i"
proof (induction ess arbitrary: c s)
  case (Cons es ess)
  let ?c = "fold interfere es c"
  have u: "unqueued i ?c" "tasks_map ?c i = tasks_map c i" using interfere_avoids [of i es c] Cons.prems by simp_all
  obtain c1 s1 p where r: "run_turn poll ?c s = (c1, s1, p)" by (cases "run_turn poll ?c s") auto
  have "unqueued i c1" "p \<noteq> Some i" "tasks_map c1 i = tasks_map c i"
    using run_turn_unqueued [OF u(1) assms r] u(2) by simp_all
  with Cons.IH [of c1 s1] Cons.prems(2) r show ?case by (auto split: prod.splits)
qed simp

section \<open>Properties\<close>

text \<open>C18. The executor is fair: a task whose number stands at place \<open>k\<close> of the queue, for the first time
  in it, is polled in turn \<open>k\<close>, whatever the futures of the other tasks do, and whichever wakers
  interrupts and other processors call and whatever tasks they spawn meanwhile.\<close>

theorem executor_fair:
  assumes "k < length ess" "k < length (tasks c)" "tasks c ! k = i" "i \<notin> set (take k (tasks c))" "tasks_map c i \<noteq> None"
  shows "snd (snd (run_turns poll ess c s)) ! k = Some i"
  using run_turns_fair [OF assms] .

theorem executor_fair_witness:
  "snd (snd (run_turns (\<lambda>i f s. (False, f, s, [Wakes i, Pushes 3])) [[], [Pushes 4, Inserts 4 ()], [Wakes 7]]
      (context_default \<lparr> tasks := [7, 7, 9], tasks_map := (\<lambda>_. Some ()) \<rparr>) ())) ! 2 = Some 9"
  using executor_fair [of 2 "[[], [Pushes 4, Inserts 4 ()], [Wakes 7]]"
      "context_default \<lparr> tasks := [7, 7, 9], tasks_map := (\<lambda>_. Some ()) \<rparr>" 9 "\<lambda>i f s. (False, f, s, [Wakes i, Pushes 3])" "()"]
  by (simp add: numeral_2_eq_2)

text \<open>Spawning takes the next task number, puts it at the back of a shortest queue and the task
  into the map of that context; every other context keeps its queue and its tasks.  It panics only
  without a context.\<close>

theorem spawn_balances:
  assumes "distinct (map fst (contexts s))" "contexts s \<noteq> []"
  shows "\<exists>k c s'. spawn f s = (Ok (), s') \<and> (k, c) \<in> set (contexts s) \<and>
    (\<forall>(k', c') \<in> set (contexts s). length (tasks c) \<le> length (tasks c')) \<and> counter s' = next_id (counter s) \<and>
    map_of (contexts s') = (map_of (contexts s))(k \<mapsto>
      c \<lparr> tasks := tasks c @ [counter s], tasks_map := (tasks_map c)(counter s := Some f) \<rparr>)"
proof -
  obtain k where k: "shortest (contexts s) = Some k" using assms(2) shortest_None [of "contexts s"] by auto
  obtain c where c: "(k, c) \<in> set (contexts s)" "\<forall>(k', c') \<in> set (contexts s). length (tasks c) \<le> length (tasks c')"
    using shortest_in [OF k] by auto
  let ?s = "s \<lparr> counter := next_id (counter s) \<rparr>"
  have m: "map_of (contexts ?s) k = Some c" using assms(1) c(1) by simp
  have run: "spawn f s = (Ok (), on_context k (insert_task (counter s) f) (on_context k (push_task (counter s)) ?s))"
    using k by (simp add: spawn_def Let_def bind_def)
  have "map_of (contexts (on_context k (insert_task (counter s) f) (on_context k (push_task (counter s)) ?s))) =
      (map_of (contexts s))(k \<mapsto> insert_task (counter s) f (push_task (counter s) c))"
    using m by (simp add: map_of_on_context)
  then show ?thesis using run c by (auto simp: push_task_def insert_task_def)
qed

theorem spawn_balances_witness:
  "\<exists>s'. spawn () (executor_new [4]) = (Ok (), s') \<and> counter s' = 1"
  using spawn_balances [of "executor_new [4]" "()"]
  by (auto simp: executor_new_def next_id_def)

text \<open>A task can be lost when it is spawned onto another processor: its number is queued before
  the task is in the map, and if that processor turns its loop in between, the number is discarded.
  The task is then in the map and never polled, in any number of turns, as long as its number is not used
  again.\<close>

theorem spawn_race_loses_task:
  assumes "tasks c = []" "i \<notin> issued c" "tasks_map c i = None"
    and "\<forall>j f s. avoids i (snd (snd (snd (poll j f s))))" "list_all (avoids i) ess"
  shows "case run_turn poll (push_task i c) s of (c', s', p) \<Rightarrow>
    tasks_map (insert_task i f c') i = Some f \<and>
    Some i \<notin> set (snd (snd (run_turns poll ess (insert_task i f c') s')))"
proof -
  have "run_turn poll (push_task i c) s = (c, s, None)" using assms by (simp add: run_turn_def push_task_def)
  moreover have "unqueued i (insert_task i f c)" using assms by (simp add: unqueued_def insert_task_def)
  ultimately show ?thesis
    using run_turns_unqueued [OF assms(4) _ assms(5), of "insert_task i f c" s] by (auto simp: insert_task_def)
qed

theorem spawn_race_loses_task_witness:
  "case run_turn (\<lambda>i f s. (False, f, s, [])) (push_task 5 context_default) () of (c', s', p) \<Rightarrow>
    tasks_map (insert_task 5 () c') 5 = Some () \<and>
    Some 5 \<notin> set (snd (snd (run_turns (\<lambda>i f s. (False, f, s, [])) (replicate 100 []) (insert_task 5 () c') s')))"
  using spawn_race_loses_task [where c = context_default and i = 5 and poll = "\<lambda>i f s. (False, f, s, [])" and s = "()"
      and f = "()" and ess = "replicate 100 []"]
  by (simp add: context_default_def avoids_def list_all_iff)

end
