(* ===== verification/Pools.thy ===== *)
theory Pools
  imports Frames
begin

unbundle bit_operations_syntax

text \<open>
  The pools of disk buffers (\<^verbatim>\<open>ejcineque/pools/mod.rs\<close>): 64 buffers of \<open>N\<close> bytes cut
  out of page frames, and an atomic mask with a bit for every buffer in use.
  \<open>pool_get_buffer\<close> is first given as a call without contention, then as the steps of
  the compare-and-swap loop behind \<^verbatim>\<open>fetch_update\<close>, any number of calls running at once.
  A handle without an index owns memory of the kernel heap, whose allocator is
  a parameter.
\<close>

section \<open>The pool\<close>

record DiskIOBufferPool =
  pool_buffers :: "u64 list"
  pool_mask :: u64

definition page_power_of_two :: "nat \<Rightarrow> bool" where
  "page_power_of_two n \<longleftrightarrow> n \<noteq> 0 \<and> n AND (n - 1) = 0"

text \<open>The inner loop of \<^verbatim>\<open>new\<close> cuts one frame into buffers; the outer one takes the frames.\<close>

fun pieces_loop :: "nat \<Rightarrow> u64 \<Rightarrow> nat list \<Rightarrow> u64 list \<times> nat \<Rightarrow> u64 list \<times> nat" where
  "pieces_loop N addr [] s = s"
| "pieces_loop N addr (i # rest) (buffers, idx) =
    (if 64 \<le> idx then (buffers, idx)
     else pieces_loop N addr rest (buffers[idx := addr + of_nat (i * N)], idx + 1))"

fun frames_loop :: "nat \<Rightarrow> u64 \<Rightarrow> nat \<Rightarrow> u64 list \<times> nat \<Rightarrow> (BitmapAllocator, unit, u64 list) st" where
  "frames_loop N hhdm 0 s a = (Ok (fst s), a)"
| "frames_loop N hhdm (Suc n) s a = (case allocate_one a of
      (None, a') \<Rightarrow> (Panic, a')
    | (Some f, a') \<Rightarrow> frames_loop N hhdm n
        (pieces_loop N (hhdm + of_nat f) [0..<PAGE_SIZE div N] s) a')"

definition pool_new :: "nat \<Rightarrow> u64 \<Rightarrow> (BitmapAllocator, unit, DiskIOBufferPool) st" where
  "pool_new N hhdm a =
    (if \<not> N dvd PAGE_SIZE \<or> PAGE_SIZE < N \<or> \<not> page_power_of_two N then (Panic, a)
     else case frames_loop N hhdm ((N * 64 + PAGE_SIZE - 1) div PAGE_SIZE) (replicate 64 0, 0) a of
         (Ok buffers, a') \<Rightarrow> (Ok \<lparr> pool_buffers = buffers, pool_mask = 0 \<rparr>, a')
       | (Err e, a') \<Rightarrow> (Err e, a')
       | (Panic, a') \<Rightarrow> (Panic, a')
       | (Diverge, a') \<Rightarrow> (Diverge, a'))"

section \<open>Handles\<close>

record DiskIOBufferPoolHandle =
  handle_idx :: "nat option"
  handle_inner :: u64

definition trailing_ones :: "u64 \<Rightarrow> nat" where
  "trailing_ones v = length (takeWhile (bit v) [0..<64])"

text \<open>
  The closure given to \<^verbatim>\<open>fetch_update\<close>: it is called with the value of the mask and assigns the
  variable \<open>result\<close> of the caller, or leaves it as it is.
\<close>

definition claim :: "nat option \<Rightarrow> u64 \<Rightarrow> nat option \<times> u64" where
  "claim result val = (let i = trailing_ones val in
     if i < 64 then (Some i, val OR push_bit i 1) else (result, val))"

definition handle_of :: "u64 \<Rightarrow> DiskIOBufferPool \<Rightarrow> nat option \<Rightarrow> DiskIOBufferPoolHandle" where
  "handle_of heap p result = \<lparr> handle_idx = result,
     handle_inner = (case result of Some idx \<Rightarrow> pool_buffers p ! idx | None \<Rightarrow> heap) \<rparr>"

definition pool_get_buffer :: "u64 \<Rightarrow> DiskIOBufferPool \<Rightarrow> DiskIOBufferPoolHandle \<times> DiskIOBufferPool" where
  "pool_get_buffer heap p = (case claim None (pool_mask p) of
     (result, val) \<Rightarrow> (handle_of heap p result, p \<lparr> pool_mask := val \<rparr>))"

definition release_bit :: "nat \<Rightarrow> u64 \<Rightarrow> u64" where
  "release_bit idx val = val AND NOT (push_bit idx 1)"

text \<open>Dropping a handle gives its bit back, or its memory to the heap: the address that is freed.\<close>

definition handle_drop :: "DiskIOBufferPoolHandle \<Rightarrow> DiskIOBufferPool \<Rightarrow> u64 option \<times> DiskIOBufferPool" where
  "handle_drop h p = (case handle_idx h of
      Some idx \<Rightarrow> (None, p \<lparr> pool_mask := release_bit idx (pool_mask p) \<rparr>)
    | None \<Rightarrow> (Some (handle_inner h), p))"

section \<open>Calls running at once\<close>

text \<open>
  \<open>in_progress\<close> has, for every running \<open>pool_get_buffer\<close>, the variable \<open>result\<close> and the value of the mask
  it has read last; \<open>handed_out\<close> the indices of the live handles.  A failed exchange, because the
  mask has changed or for no reason, runs the closure again on the new value.  At most \<open>limit\<close> calls
  and handles exist at a time.
\<close>

record pool_sys =
  cur_mask :: u64
  in_progress :: "(nat option \<times> u64) list"
  handed_out :: "nat list"

definition pool_sys_new :: pool_sys where
  "pool_sys_new = \<lparr> cur_mask = 0, in_progress = [], handed_out = [] \<rparr>"

definition start_get :: "pool_sys \<Rightarrow> pool_sys" where
  "start_get s = s \<lparr> in_progress := in_progress s @ [(None, cur_mask s)] \<rparr>"

definition retry_get :: "nat \<Rightarrow> pool_sys \<Rightarrow> pool_sys" where
  "retry_get k s = (case in_progress s ! k of (result, val) \<Rightarrow>
     s \<lparr> in_progress := (in_progress s)[k := (fst (claim result val), cur_mask s)] \<rparr>)"

definition finish_get :: "nat \<Rightarrow> pool_sys \<Rightarrow> pool_sys" where
  "finish_get k s = (case in_progress s ! k of (result, val) \<Rightarrow> case claim result val of (result', new) \<Rightarrow>
     \<lparr> cur_mask = new, in_progress = take k (in_progress s) @ drop (Suc k) (in_progress s),
       handed_out = (case result' of Some i \<Rightarrow> i # handed_out s | None \<Rightarrow> handed_out s) \<rparr>)"

definition drop_handle :: "nat \<Rightarrow> pool_sys \<Rightarrow> pool_sys" where
  "drop_handle i s = s \<lparr> cur_mask := release_bit i (cur_mask s), handed_out := remove1 i (handed_out s) \<rparr>"

inductive pool_step :: "nat \<Rightarrow> pool_sys \<Rightarrow> pool_sys \<Rightarrow> bool" for limit where
  start: "length (in_progress s) + length (handed_out s) < limit \<Longrightarrow> pool_step limit s (start_get s)"
| retry: "k < length (in_progress s) \<Longrightarrow> pool_step limit s (retry_get k s)"
| finish: "k < length (in_progress s) \<Longrightarrow> snd (in_progress s ! k) = cur_mask s \<Longrightarrow>
    pool_step limit s (finish_get k s)"
| release: "i \<in> set (handed_out s) \<Longrightarrow> pool_step limit s (drop_handle i s)"

inductive pool_reachable :: "nat \<Rightarrow> pool_sys \<Rightarrow> bool" for limit where
  init: "pool_reachable limit pool_sys_new"
| step: "pool_reachable limit s \<Longrightarrow> pool_step limit s s' \<Longrightarrow> pool_reachable limit s'"

section \<open>The buffers of a new pool\<close>

lemma concat_uniform_nth:
  "\<forall>x \<in> set xs. length (f x) = L \<Longrightarrow> i < length xs * L \<Longrightarrow>
   concat (map f xs) ! i = f (xs ! (i div L)) ! (i mod L)"
proof (induction xs arbitrary: i)
  case (Cons x xs)
  show ?case
  proof (cases "i < L")
    case True
    then show ?thesis using Cons.prems by (simp add: nth_append)
  next
    case False
    then have "i - L < length xs * L" using Cons.prems by simp
    moreover have "0 < L" using Cons.prems by (cases L) auto
    ultimately show ?thesis using Cons.IH [of "i - L"] Cons.prems False
      by (simp add: nth_append le_div_geq le_mod_geq)
  qed
qed simp

definition pieces :: "nat \<Rightarrow> u64 \<Rightarrow> u64 list" where
  "pieces N addr = map (\<lambda>i. addr + of_nat (i * N)) [0..<PAGE_SIZE div N]"

text \<open>\<open>placed seen s\<close>: of the buffers \<open>seen\<close> met so far, the first 64 are in the array.\<close>

definition placed :: "u64 list \<Rightarrow> u64 list \<times> nat \<Rightarrow> bool" where
  "placed seen s \<longleftrightarrow> length (fst s) = 64 \<and> snd s = min 64 (length seen) \<and> take (snd s) (fst s) = take 64 seen"

lemma placed_next:
  assumes "placed seen (b, idx)" "idx < 64"
  shows "placed (seen @ [x]) (b[idx := x], idx + 1)"
proof -
  have "take (Suc idx) (b[idx := x]) = take idx b @ [x]"
    using assms by (simp add: take_Suc_conv_app_nth placed_def)
  then show ?thesis using assms by (auto simp: placed_def)
qed

lemma placed_full: "placed seen (b, idx) \<Longrightarrow> 64 \<le> idx \<Longrightarrow> placed (seen @ xs) (b, idx)"
  by (auto simp: placed_def)

lemma pieces_loop_placed:
  "placed seen s \<Longrightarrow> placed (seen @ map (\<lambda>i. addr + of_nat (i * N)) idxs) (pieces_loop N addr idxs s)"
proof (induction N addr idxs s arbitrary: seen rule: pieces_loop.induct)
  case (2 N addr i rest buffers idx)
  show ?case
  proof (cases "64 \<le> idx")
    case True
    then show ?thesis using placed_full [OF "2.prems"] by simp
  next
    case False
    then have "placed (seen @ [addr + of_nat (i * N)]) (buffers[idx := addr + of_nat (i * N)], idx + 1)"
      using placed_next [OF "2.prems"] by simp
    from "2.IH" [OF False this] False show ?thesis by simp
  qed
qed simp

lemma frames_loop_request:
  "frames_loop N hhdm n s a = (Ok b, a') \<Longrightarrow> placed seen s \<Longrightarrow>
   \<exists>fs t. request allocate_one n a = (fs, a') \<and> length fs = n \<and>
     placed (seen @ concat (map (\<lambda>f. pieces N (hhdm + of_nat f)) fs)) (b, t)"
proof (induction n arbitrary: s a seen)
  case 0
  then show ?case by (cases s) auto
next
  case (Suc n)
  then obtain f a1 where f: "allocate_one a = (Some f, a1)"
      "frames_loop N hhdm n (pieces_loop N (hhdm + of_nat f) [0..<PAGE_SIZE div N] s) a1 = (Ok b, a')"
    by (auto split: prod.splits option.splits)
  obtain fs t where "request allocate_one n a1 = (fs, a')" "length fs = n"
      "placed ((seen @ pieces N (hhdm + of_nat f)) @ concat (map (\<lambda>f. pieces N (hhdm + of_nat f)) fs)) (b, t)"
    using Suc.IH [OF f(2) pieces_loop_placed [OF Suc.prems(2)]] unfolding pieces_def by blast
  then show ?case using f(1) by (intro exI [of _ "f # fs"] exI [of _ t]) simp
qed

lemma frame_count_enough:
  assumes "N dvd 4096" "(0 :: nat) < N"
  shows "64 \<le> ((N * 64 + 4095) div 4096) * (4096 div N)"
proof -
  let ?c = "(N * 64 + 4095) div 4096" and ?k = "4096 div N"
  have k: "N * ?k = 4096" using assms by simp
  have "N * 64 \<le> ?c * 4096" using div_mult_mod_eq [of "N * 64 + 4095" 4096] mod_less_divisor [of 4096 "N * 64 + 4095"]
    by linarith
  also have "\<dots> = ?c * (N * ?k)" by (simp only: k)
  also have "\<dots> = N * (?c * ?k)" by (rule mult.left_commute)
  finally show ?thesis using assms(2) by simp
qed

text \<open>Buffer \<open>i\<close> of a new pool is a piece of one of the frames taken from the allocator.\<close>

lemma pool_new_buffers:
  assumes "pool_new N hhdm a = (Ok p, a')"
  shows "\<exists>fs. request allocate_one (length fs) a = (fs, a') \<and> length (pool_buffers p) = 64 \<and> pool_mask p = 0 \<and>
    N dvd 4096 \<and> 0 < N \<and>
    (\<forall>i < 64. i div (4096 div N) < length fs \<and>
      pool_buffers p ! i = hhdm + of_nat (fs ! (i div (4096 div N))) + of_nat (i mod (4096 div N) * N))"
proof -
  let ?n = "(N * 64 + 4095) div 4096" and ?L = "4096 div N"
  have g: "N dvd 4096 \<and> N \<le> 4096 \<and> page_power_of_two N"
    using assms by (simp add: pool_new_def PAGE_SIZE_def not_less split: if_split_asm)
  obtain r a1 where f: "frames_loop N hhdm ?n (replicate 64 0, 0) a = (r, a1)" by fastforce
  have e: "N * 64 + PAGE_SIZE - 1 = N * 64 + 4095" by (simp add: PAGE_SIZE_def)
  have "pool_new N hhdm a = (case (r, a1) of
         (Ok buffers, a') \<Rightarrow> (Ok \<lparr> pool_buffers = buffers, pool_mask = 0 \<rparr>, a')
       | (Err e, a') \<Rightarrow> (Err e, a') | (Panic, a') \<Rightarrow> (Panic, a') | (Diverge, a') \<Rightarrow> (Diverge, a'))"
    using g unfolding pool_new_def e f [symmetric] by (simp add: PAGE_SIZE_def)
  then have N: "N dvd 4096" "0 < N" "frames_loop N hhdm ?n (replicate 64 0, 0) a = (Ok (pool_buffers p), a')" "pool_mask p = 0"
    using assms f g by (cases r; auto simp: page_power_of_two_def)+
  have "placed [] (replicate 64 0, 0)" by (simp add: placed_def)
  from frames_loop_request [OF N(3) this] obtain fs t where fs: "request allocate_one ?n a = (fs, a')" "length fs = ?n"
      "placed (concat (map (\<lambda>f. pieces N (hhdm + of_nat f)) fs)) (pool_buffers p, t)" by auto
  let ?all = "concat (map (\<lambda>f. pieces N (hhdm + of_nat f)) fs)"
  have len: "length ?all = length fs * ?L"
    by (simp add: length_concat pieces_def PAGE_SIZE_def comp_def sum_list_triv)
  then have b: "pool_buffers p = take 64 ?all" "64 \<le> length fs * ?L"
    using fs(3) frame_count_enough [OF N(1,2)] fs(2) by (auto simp: placed_def min_absorb1)
  have "pool_buffers p ! i = hhdm + of_nat (fs ! (i div ?L)) + of_nat (i mod ?L * N)" if "i < 64" for i
  proof -
    have "0 < ?L" using b(2) by (cases ?L) auto
    then show ?thesis using that b concat_uniform_nth [of fs "\<lambda>f. pieces N (hhdm + of_nat f)" ?L i]
      by (simp add: pieces_def PAGE_SIZE_def)
  qed
  moreover have "i div ?L < length fs" if "i < 64" for i
    using that b(2) less_mult_imp_div_less [of i "length fs" ?L] by linarith
  ultimately show ?thesis using N fs b len by (intro exI [of _ fs]) auto
qed

section \<open>Handles and the mask\<close>

lemma trailing_ones_le: "trailing_ones v \<le> 64"
  using length_takeWhile_le [of "bit v" "[0..<64]"] by (simp add: trailing_ones_def)

lemma trailing_ones_bit:
  assumes "trailing_ones v < 64"
  shows "\<not> bit v (trailing_ones v)"
  using nth_length_takeWhile [of "bit v" "[0..<64]"] assms by (simp add: trailing_ones_def)

lemma trailing_ones_full:
  assumes "\<not> trailing_ones v < 64" "i < 64"
  shows "bit v i"
proof -
  have "takeWhile (bit v) [0..<64] = [0..<64]"
    using assms(1) takeWhile_eq_take [of "bit v" "[0..<64]"] by (simp add: trailing_ones_def)
  then have "\<forall>i \<in> set [0..<64]. bit v i" by (simp only: takeWhile_eq_all_conv)
  then show ?thesis using assms(2) by simp
qed

lemma bit_claimed:
  fixes v :: u64
  assumes "i < 64"
  shows "{j. j < 64 \<and> bit (v OR push_bit i 1) j} = insert i {j. j < 64 \<and> bit v j}"
proof -
  have "bit (v OR push_bit i 1) j \<longleftrightarrow> bit v j \<or> j = i" if "j < 64" for j
    using that by (simp add: bit_simps)
  then show ?thesis using assms by blast
qed

lemma bit_released:
  fixes v :: u64
  shows "{j. j < 64 \<and> bit (release_bit i v) j} = {j. j < 64 \<and> bit v j} - {i}"
proof -
  have "bit (release_bit i v) j \<longleftrightarrow> bit v j \<and> j \<noteq> i" if "j < 64" for j
    using that by (simp add: bit_simps release_bit_def)
  then show ?thesis by blast
qed

definition pool_inv :: "nat \<Rightarrow> pool_sys \<Rightarrow> bool" where
  "pool_inv limit s \<longleftrightarrow> distinct (handed_out s) \<and> set (handed_out s) = {i. i < 64 \<and> bit (cur_mask s) i} \<and>
     length (in_progress s) + length (handed_out s) \<le> limit"

lemma finish_get_inv:
  assumes "pool_inv limit s" "limit \<le> 64" "k < length (in_progress s)" "snd (in_progress s ! k) = cur_mask s"
  shows "pool_inv limit (finish_get k s)"
proof -
  let ?i = "trailing_ones (cur_mask s)"
  obtain r where r: "in_progress s ! k = (r, cur_mask s)" using assms(4) by (cases "in_progress s ! k") auto
  have i: "?i < 64"
  proof (rule ccontr)
    assume "\<not> ?i < 64"
    then have "set (handed_out s) = {..<64}" using assms(1) trailing_ones_full by (auto simp: pool_inv_def)
    moreover have "card (set (handed_out s)) = length (handed_out s)"
      by (rule distinct_card) (use assms(1) in \<open>simp add: pool_inv_def\<close>)
    ultimately have "length (handed_out s) = 64" by simp
    then show False using assms by (simp add: pool_inv_def)
  qed
  then have "?i \<notin> set (handed_out s)" using assms(1) trailing_ones_bit by (simp add: pool_inv_def)
  moreover have "set (?i # handed_out s) = {j. j < 64 \<and> bit (cur_mask s OR push_bit ?i 1) j}"
    unfolding bit_claimed [OF i] using assms(1) by (simp add: pool_inv_def)
  moreover have "finish_get k s = \<lparr> cur_mask = cur_mask s OR push_bit ?i 1,
      in_progress = take k (in_progress s) @ drop (Suc k) (in_progress s), handed_out = ?i # handed_out s \<rparr>"
    using i r by (simp add: finish_get_def claim_def Let_def)
  moreover have "length (take k (in_progress s) @ drop (Suc k) (in_progress s)) + length (?i # handed_out s) \<le> limit"
    using assms(1,3) by (simp add: pool_inv_def) linarith
  ultimately show ?thesis using assms(1) unfolding pool_inv_def by simp
qed

lemma pool_step_inv:
  assumes "pool_step limit s s'" "limit \<le> 64" "pool_inv limit s"
  shows "pool_inv limit s'"
  using assms
proof (induction rule: pool_step.induct)
  case (release i s)
  then have "length (remove1 i (handed_out s)) \<le> length (handed_out s)" by (simp add: length_remove1)
  then show ?case using release by (simp add: pool_inv_def drop_handle_def bit_released)
next
  case (retry k s)
  then show ?case by (auto simp: pool_inv_def retry_get_def split: prod.splits)
qed (auto simp: finish_get_inv, auto simp: pool_inv_def start_get_def)

lemma pool_reachable_inv: "pool_reachable limit s \<Longrightarrow> limit \<le> 64 \<Longrightarrow> pool_inv limit s"
proof (induction rule: pool_reachable.induct)
  case init
  then show ?case by (simp add: pool_inv_def pool_sys_new_def)
qed (rule pool_step_inv)

text \<open>A call that nobody disturbs is \<open>pool_get_buffer\<close>, and dropping its handle restores the mask.\<close>

lemma undisturbed_pool_get_buffer:
  assumes "pool_get_buffer heap p = (h, p')" "cur_mask s = pool_mask p" "in_progress s = []"
  shows "finish_get 0 (start_get s) = s \<lparr> cur_mask := pool_mask p',
    handed_out := (case handle_idx h of Some i \<Rightarrow> i # handed_out s | None \<Rightarrow> handed_out s) \<rparr>"
  using assms by (auto simp: pool_get_buffer_def finish_get_def start_get_def handle_of_def split: prod.splits option.splits)

lemma get_buffer_drop:
  assumes "pool_get_buffer heap p = (h, p')"
  shows "snd (handle_drop h p') = p"
proof (cases "trailing_ones (pool_mask p) < 64")
  case True
  then have "\<not> bit (pool_mask p) (trailing_ones (pool_mask p))" by (rule trailing_ones_bit)
  then have "release_bit (trailing_ones (pool_mask p)) (pool_mask p OR push_bit (trailing_ones (pool_mask p)) 1) = pool_mask p"
    by (intro bit_word_eqI) (auto simp: release_bit_def bit_simps)
  then show ?thesis using assms True by (auto simp: pool_get_buffer_def claim_def handle_drop_def handle_of_def Let_def)
next
  case False
  then show ?thesis using assms by (auto simp: pool_get_buffer_def claim_def handle_drop_def handle_of_def Let_def)
qed

section \<open>The addresses of the buffers\<close>

lemma unat_piece:
  assumes "unat (hhdm :: u64) + f + k < 2 ^ 64"
  shows "unat (hhdm + of_nat f + of_nat k) = unat hhdm + f + k"
proof -
  have "hhdm + of_nat f + of_nat k = of_nat (unat hhdm + f + k)" by simp
  then show ?thesis using assms by (simp only: unat_of_nat) simp
qed

lemma frame_in_range: "f \<in> frames_of a \<Longrightarrow> f + 4096 \<le> 8 * length (bitmap a) * 4096 \<and> 4096 dvd f"
  by (auto simp: frames_of_def free_idx_def)

lemma pieces_apart:
  fixes f g N k l :: nat
  assumes "4096 dvd f" "4096 dvd g" "k * N + N \<le> 4096" "l * N + N \<le> 4096" "f \<noteq> g \<or> k \<noteq> l"
  shows "f + k * N + N \<le> g + l * N \<or> g + l * N + N \<le> f + k * N"
proof -
  obtain u v where uv: "f = 4096 * u" "g = 4096 * v" using assms(1,2) by (auto simp: dvd_def)
  consider "u < v" | "v < u" | "u = v" "k < l" | "u = v" "l < k" using assms(5) uv by fastforce
  then show ?thesis
  proof cases
    case 3
    then have "Suc k * N \<le> l * N" by (intro mult_right_mono) auto
    then show ?thesis using 3 uv by simp
  next
    case 4
    then have "Suc l * N \<le> k * N" by (intro mult_right_mono) auto
    then show ?thesis using 4 uv by simp
  qed (use assms(3,4) uv in linarith)+
qed

lemma pool_new_addresses:
  assumes "pool_new N hhdm a = (Ok p, a')" "unat hhdm + 8 * length (bitmap a) * 4096 \<le> 2 ^ 64"
  shows "\<exists>fs L. distinct fs \<and> set fs \<subseteq> frames_of a - frames_of a' \<and> length (pool_buffers p) = 64 \<and>
    (\<forall>i < 64. i div L < length fs) \<and> (\<forall>i. i mod L * N + N \<le> 4096) \<and>
    (\<forall>i < 64. unat (pool_buffers p ! i) = unat hhdm + fs ! (i div L) + i mod L * N)"
proof -
  let ?L = "4096 div N"
  obtain fs where fs: "request allocate_one (length fs) a = (fs, a')" "length (pool_buffers p) = 64"
      "N dvd 4096" "0 < N" "\<And>i. i < 64 \<Longrightarrow> i div ?L < length fs"
      "\<And>i. i < 64 \<Longrightarrow> pool_buffers p ! i = hhdm + of_nat (fs ! (i div ?L)) + of_nat (i mod ?L * N)"
    using pool_new_buffers [OF assms(1)] by blast
  have d: "distinct fs" "set fs \<subseteq> frames_of a" "frames_of a' = frames_of a - set fs"
    using bitmap_frames.request_distinct [OF fs(1)] by auto
  have L: "0 < ?L" using fs(3,4) by (simp add: div_greater_zero_iff dvd_imp_le)
  have m: "i mod ?L * N + N \<le> 4096" for i
  proof -
    have "Suc (i mod ?L) * N \<le> ?L * N" using L by (intro mult_right_mono) (auto simp: Suc_leI)
    then show ?thesis using fs(3) by simp
  qed
  have "unat (pool_buffers p ! i) = unat hhdm + fs ! (i div ?L) + i mod ?L * N" if "i < 64" for i
  proof -
    have "fs ! (i div ?L) \<in> frames_of a" using fs(5) [OF that] d(2) nth_mem by blast
    from frame_in_range [OF this] have "unat hhdm + fs ! (i div ?L) + i mod ?L * N < 2 ^ 64"
      using assms(2) m [of i] fs(4) by linarith
    then show ?thesis unfolding fs(6) [OF that] by (rule unat_piece)
  qed
  then show ?thesis using fs(2,5) m d by (intro exI [of _ fs] exI [of _ ?L]) blast
qed

section \<open>A call that sees the mask fill up\<close>

lemma trailing_ones_mask: "n \<le> 64 \<Longrightarrow> trailing_ones (mask n) = n"
proof -
  assume n: "n \<le> 64"
  then have "[0..<64] = [0..<n] @ [n..<64]" by (metis le0 upt_add_eq_append le_add_diff_inverse)
  moreover have "takeWhile (bit (mask n :: u64)) ([0..<n] @ [n..<64]) = [0..<n]"
    using n by (subst takeWhile_append2) (auto simp: bit_mask_iff takeWhile_eq_Nil_iff)
  ultimately show ?thesis by (simp add: trailing_ones_def)
qed

lemma claim_mask: "n < 64 \<Longrightarrow> claim r (mask n) = (Some n, mask (Suc n))"
  by (simp add: claim_def trailing_ones_mask mask_Suc_exp Let_def or.commute push_bit_of_1)

lemma claim_mask_full: "claim r (mask 64) = (r, mask 64)"
  by (simp add: claim_def trailing_ones_mask Let_def)

definition taken :: "nat \<Rightarrow> pool_sys" where
  "taken n = \<lparr> cur_mask = mask n, in_progress = [], handed_out = rev [0..<n] \<rparr>"

lemma taken_reachable: "n \<le> 64 \<Longrightarrow> pool_reachable 65 (taken n)"
proof (induction n)
  case 0
  then show ?case using pool_reachable.init [of 65] by (simp add: taken_def pool_sys_new_def)
next
  case (Suc n)
  let ?s = "start_get (taken n)"
  have "pool_step 65 (taken n) ?s" using Suc.prems by (intro pool_step.start) (simp add: taken_def)
  moreover have "pool_step 65 ?s (finish_get 0 ?s)"
    by (rule pool_step.finish) (simp_all add: start_get_def taken_def)
  moreover have "finish_get 0 ?s = taken (Suc n)"
    using Suc.prems by (simp add: finish_get_def start_get_def taken_def claim_mask)
  ultimately show ?case using Suc by (metis Suc_leD pool_reachable.step)
qed

section \<open>Properties\<close>

text \<open>C19. The buffers of a new pool lie in frames taken from the allocator and do not overlap: each of
  the 64 buffers of \<open>N\<close> bytes is inside one frame, mapped at the offset of the direct map, that was
  free before and is not free after, and two different buffers share no byte.\<close>

theorem pool_buffers_disjoint:
  assumes "pool_new N hhdm a = (Ok p, a')" "unat hhdm + 8 * length (bitmap a) * 4096 \<le> 2 ^ 64"
  shows "length (pool_buffers p) = 64 \<and>
    (\<forall>i < 64. \<exists>f \<in> frames_of a - frames_of a'. unat hhdm + f \<le> unat (pool_buffers p ! i) \<and>
      unat (pool_buffers p ! i) + N \<le> unat hhdm + f + 4096) \<and>
    (\<forall>i < 64. \<forall>j < 64. i \<noteq> j \<longrightarrow> unat (pool_buffers p ! i) + N \<le> unat (pool_buffers p ! j) \<or>
      unat (pool_buffers p ! j) + N \<le> unat (pool_buffers p ! i))"
proof (intro conjI allI impI)
  obtain fs L where fs: "distinct fs" "set fs \<subseteq> frames_of a - frames_of a'" "length (pool_buffers p) = 64"
      "\<And>i. i < 64 \<Longrightarrow> i div L < length fs" "\<And>i. i mod L * N + N \<le> 4096"
      "\<And>i. i < 64 \<Longrightarrow> unat (pool_buffers p ! i) = unat hhdm + fs ! (i div L) + i mod L * N"
    using pool_new_addresses [OF assms] by blast
  show "length (pool_buffers p) = 64" by (rule fs(3))
  have f: "fs ! (i div L) \<in> frames_of a - frames_of a'" if "i < 64" for i
    using fs(2) nth_mem [OF fs(4) [OF that]] by blast
  show "\<exists>f \<in> frames_of a - frames_of a'. unat hhdm + f \<le> unat (pool_buffers p ! i) \<and>
      unat (pool_buffers p ! i) + N \<le> unat hhdm + f + 4096" if "i < 64" for i
    by (rule bexI [OF _ f [OF that]]) (use fs(5) [of i] fs(6) [OF that] in simp)
  show "unat (pool_buffers p ! i) + N \<le> unat (pool_buffers p ! j) \<or>
      unat (pool_buffers p ! j) + N \<le> unat (pool_buffers p ! i)" if "i < 64" "j < 64" "i \<noteq> j" for i j
  proof -
    have "i = j" if "i div L = j div L" "i mod L = j mod L" using that by (metis div_mult_mod_eq)
    then have "fs ! (i div L) \<noteq> fs ! (j div L) \<or> i mod L \<noteq> j mod L"
      using nth_eq_iff_index_eq [OF fs(1) fs(4) [OF that(1)] fs(4) [OF that(2)]] that(3) by auto
    moreover have "4096 dvd fs ! (i div L)" "4096 dvd fs ! (j div L)"
      using frame_in_range f [OF that(1)] f [OF that(2)] by blast+
    ultimately have "fs ! (i div L) + i mod L * N + N \<le> fs ! (j div L) + j mod L * N \<or>
        fs ! (j div L) + j mod L * N + N \<le> fs ! (i div L) + i mod L * N"
      using fs(5) [of i] fs(5) [of j] by (intro pieces_apart)
    then show ?thesis unfolding fs(6) [OF that(1)] fs(6) [OF that(2)] by linarith
  qed
qed

theorem pool_buffers_disjoint_witness:
  "\<exists>p a'. pool_new 64 0xffff800000000000 \<lparr> bitmap = [0], next_idx = 0 \<rparr> = (Ok p, a') \<and>
    length (pool_buffers p) = 64 \<and>
    (unat (pool_buffers p ! 0) + 64 \<le> unat (pool_buffers p ! 1) \<or>
     unat (pool_buffers p ! 1) + 64 \<le> unat (pool_buffers p ! 0))"
proof -
  let ?a = "\<lparr> bitmap = [0], next_idx = 0 \<rparr> :: BitmapAllocator"
  have "allocate_one ?a = (Some 0, \<lparr> bitmap = [1], next_idx = 1 \<rparr>)" by code_simp
  then obtain b a' where "frames_loop 64 0xffff800000000000 1 (replicate 64 0, 0) ?a = (Ok b, a')" by simp
  moreover have "page_power_of_two 64" by code_simp
  ultimately obtain p where p: "pool_new 64 0xffff800000000000 ?a = (Ok p, a')"
    by (simp add: pool_new_def PAGE_SIZE_def del: frames_loop.simps)
  then show ?thesis using pool_buffers_disjoint [OF p] by auto
qed

text \<open>C8. A buffer is never handed out twice while calls and live handles together do not exceed 64: the
  live handles have different indices, all below 64, and the mask has exactly their bits.\<close>

theorem pool_handles_distinct:
  assumes "pool_reachable limit s" "limit \<le> 64"
  shows "distinct (handed_out s) \<and> (\<forall>i. i \<in> set (handed_out s) \<longleftrightarrow> i < 64 \<and> bit (cur_mask s) i)"
  using pool_reachable_inv [OF assms] by (auto simp: pool_inv_def)

text \<open>Two calls one after the other get the buffers 0 and 1.\<close>

theorem pool_handles_distinct_witness:
  "let s = finish_get 0 (start_get (finish_get 0 (start_get pool_sys_new))) in
     handed_out s = [1, 0] \<and> distinct (handed_out s) \<and> bit (cur_mask s) 0 \<and> bit (cur_mask s) 1"
proof -
  define s1 where "s1 = finish_get 0 (start_get pool_sys_new)"
  have t: "trailing_ones 0 = 0" "trailing_ones 1 = 1" using trailing_ones_mask [of 0] trailing_ones_mask [of 1] by simp_all
  have s1: "s1 = \<lparr> cur_mask = 1, in_progress = [], handed_out = [0] \<rparr>"
    by (simp add: s1_def start_get_def finish_get_def pool_sys_new_def claim_def t)
  have "pool_reachable 64 (start_get pool_sys_new)"
    by (rule pool_reachable.step [OF pool_reachable.init pool_step.start]) (simp add: pool_sys_new_def)
  then have "pool_reachable 64 s1"
    unfolding s1_def by (rule pool_reachable.step) (rule pool_step.finish, simp_all add: start_get_def pool_sys_new_def)
  then have "pool_reachable 64 (start_get s1)"
    by (rule pool_reachable.step) (rule pool_step.start, simp add: s1)
  then have r: "pool_reachable 64 (finish_get 0 (start_get s1))"
    by (rule pool_reachable.step) (rule pool_step.finish, simp_all add: s1 start_get_def)
  have "handed_out (finish_get 0 (start_get s1)) = [1, 0]"
    by (simp add: s1 start_get_def finish_get_def claim_def t)
  with pool_handles_distinct [OF r] show ?thesis by (auto simp: Let_def simp flip: s1_def)
qed

text \<open>C35. One call more and a buffer can be handed out twice.  When a call has picked the last free
  buffer and the exchange fails because another call took it, the closure runs again on the full mask
  and leaves \<open>result\<close> as it was: both calls return a handle of the same buffer.\<close>

theorem pool_hands_out_twice: "\<exists>s rest. pool_reachable 65 s \<and> handed_out s = 63 # 63 # rest"
proof -
  let ?m = "mask 63 :: u64" and ?h = "rev [0..<63]"
  let ?s1 = "\<lparr> cur_mask = ?m, in_progress = [(None, ?m)], handed_out = ?h \<rparr>"
  let ?s2 = "\<lparr> cur_mask = ?m, in_progress = [(None, ?m), (None, ?m)], handed_out = ?h \<rparr>"
  let ?s3 = "\<lparr> cur_mask = mask 64, in_progress = [(None, ?m)], handed_out = 63 # ?h \<rparr>"
  let ?s4 = "\<lparr> cur_mask = mask 64, in_progress = [(Some 63, mask 64)], handed_out = 63 # ?h \<rparr>"
  let ?s5 = "\<lparr> cur_mask = mask 64, in_progress = [], handed_out = 63 # 63 # ?h \<rparr>"
  have c: "claim r ?m = (Some 63, mask 64)" for r using claim_mask [of 63 r] by simp
  have r: "pool_reachable 65 (taken 63)" by (rule taken_reachable) simp
  have a1: "pool_step 65 (taken 63) ?s1"
    using pool_step.start [of "taken 63" 65] by (simp add: taken_def start_get_def del: upt_rec_numeral)
  have a2: "pool_step 65 ?s1 ?s2"
    using pool_step.start [of ?s1 65] by (simp add: start_get_def del: upt_rec_numeral)
  have a3: "pool_step 65 ?s2 ?s3"
    using pool_step.finish [of 0 ?s2 65] by (simp add: finish_get_def c del: upt_rec_numeral)
  have a4: "pool_step 65 ?s3 ?s4"
    using pool_step.retry [of 0 ?s3 65] by (simp add: retry_get_def c del: upt_rec_numeral)
  have a5: "pool_step 65 ?s4 ?s5"
    using pool_step.finish [of 0 ?s4 65] by (simp add: finish_get_def claim_mask_full del: upt_rec_numeral)
  note reach = pool_reachable.step [OF pool_reachable.step [OF pool_reachable.step [OF pool_reachable.step
    [OF pool_reachable.step [OF r a1] a2] a3] a4] a5]
  have "handed_out ?s5 = 63 # 63 # ?h" by (simp only: pool_sys.simps)
  with reach show ?thesis by blast
qed

end
