(* ===== verification/RandomNumbers.thy ===== *)
theory RandomNumbers
  imports RtcTime Sync
begin

unbundle bit_operations_syntax

text \<open>
  The random numbers of the kernel (\<^verbatim>\<open>crypto/random.rs\<close>): the state, its
  initialisation from the clock, one step of the generator, and the task that
  answers requests.  The array has 624 words and is updated in place.
\<close>

section \<open>The generator\<close>

definition RAND_N :: nat where "RAND_N = 624"

definition RAND_M :: nat where "RAND_M = 32"

definition RAND_A :: u32 where "RAND_A = 0x9908B0DF"

definition RAND_B :: u32 where "RAND_B = 0x9D2C5680"

definition RAND_C :: u32 where "RAND_C = 0xEFC60000"

definition RAND_F :: u32 where "RAND_F = 1812433253"

record RandState =
  state_array :: "u32 list"
  rand_index :: int

fun fill_state :: "nat \<Rightarrow> nat \<Rightarrow> u32 \<Rightarrow> u32 list" where
  "fill_state i 0 seed = []"
| "fill_state i (Suc n) seed = seed # fill_state (Suc i) n (RAND_F * (seed XOR drop_bit 30 seed) + of_nat i)"

definition rand_init :: "RtcDateTime option \<Rightarrow> (unit, RandState) res" where
  "rand_init now = (case now of
      None \<Rightarrow> Panic
    | Some dt \<Rightarrow> bind_res (datetime_to_unix_timestamp dt) (\<lambda>t.
        Ok \<lparr> state_array = fill_state 0 RAND_N (word_of_int (t AND 0xFFFFFFFF)), rand_index = 0 \<rparr>))"

definition wrap_index :: "int \<Rightarrow> int" where
  "wrap_index j = (if j < 0 then j + int RAND_N else j)"

definition temper :: "u32 \<Rightarrow> u32" where
  "temper x =
    (let y = x XOR drop_bit 11 x;
         y = y XOR (push_bit 7 y AND RAND_B);
         y = y XOR (push_bit 15 y AND RAND_C)
     in y XOR drop_bit 18 y)"

text \<open>An index outside the array panics.\<close>

definition array_get :: "u32 list \<Rightarrow> int \<Rightarrow> (unit, u32) res" where
  "array_get xs i = (if 0 \<le> i \<and> i < int (length xs) then Ok (xs ! nat i) else Panic)"

definition random_u32 :: "(RandState, unit, u32) st" where
  "random_u32 st =
    (let k = wrap_index (rand_index st);
         j = wrap_index (k - (int RAND_N - 1));
         xs = state_array st
     in (bind (lift_res (array_get xs k)) (\<lambda>u.
         bind (lift_res (array_get xs j)) (\<lambda>l.
         let x = (u AND 0xFFFF0000) OR (l AND 0xFFFF);
             x_a = (if x AND 1 = 1 then drop_bit 1 x XOR RAND_A else drop_bit 1 x);
             j = wrap_index (k - int (RAND_N - RAND_M))
         in
         bind (lift_res (array_get xs j)) (\<lambda>y.
         let x = y XOR x_a in
         if int (length xs) \<le> k + 1 then crash
         else
           bind (modify (\<lambda>st. \<lparr> state_array = (state_array st)[nat (k + 1) := x],
               rand_index = (if int RAND_N \<le> k then 0 else k) \<rparr>)) (\<lambda>_. ret (temper x)))))) st)"

fun randoms :: "nat \<Rightarrow> (RandState, unit, u32 list) st" where
  "randoms 0 = ret []"
| "randoms (Suc n) = bind random_u32 (\<lambda>x. bind (randoms n) (\<lambda>xs. ret (x # xs)))"

text \<open>The task answers one request after the other, each on the channel it carries.\<close>

definition answer_request :: "(u32, 'w) UnboundedChannel \<Rightarrow> (RandState, unit, (u32, 'w) UnboundedChannel) st" where
  "answer_request sender = bind random_u32 (\<lambda>res. ret (unbounded_send res sender))"

text \<open>\<^verbatim>\<open>random_number\<close>: what the requester receives, or 0 from a channel that is closed.\<close>

definition received :: "u32 option poll \<Rightarrow> u32 option" where
  "received p = (case p of Pending \<Rightarrow> None | PollReady (Some num) \<Rightarrow> Some num | PollReady None \<Rightarrow> Some 0)"

section \<open>What a step does\<close>

definition rand_ok :: "RandState \<Rightarrow> bool" where
  "rand_ok st \<longleftrightarrow> length (state_array st) = 624 \<and> rand_index st = 0"

lemma length_fill_state [simp]: "length (fill_state i n seed) = n"
  by (induction n arbitrary: i seed) simp_all

lemma rand_init_ok: "rand_init now = Ok st \<Longrightarrow> rand_ok st"
  by (cases now; cases "datetime_to_unix_timestamp (the now)") (auto simp: rand_init_def rand_ok_def RAND_N_def)

text \<open>The next value of word 1, from the words 0 and 32, which never change, and its present value.\<close>

definition twist :: "u32 \<Rightarrow> u32 \<Rightarrow> u32 \<Rightarrow> u32" where
  "twist u y l =
    (let x = (u AND 0xFFFF0000) OR (l AND 0xFFFF)
     in y XOR (if x AND 1 = 1 then drop_bit 1 x XOR RAND_A else drop_bit 1 x))"

definition next_word :: "RandState \<Rightarrow> u32 \<Rightarrow> u32" where
  "next_word st = twist (state_array st ! 0) (state_array st ! 32)"

lemma random_u32_step:
  assumes "rand_ok st"
  defines "x \<equiv> next_word st (state_array st ! 1)"
  shows "random_u32 st = (Ok (temper x), st \<lparr> state_array := (state_array st)[1 := x] \<rparr>)"
  using assms(1) unfolding x_def
  by (simp add: rand_ok_def random_u32_def next_word_def twist_def wrap_index_def array_get_def RAND_N_def RAND_M_def
      bind_def lift_res_def modify_def ret_def Let_def)

lemma next_word_update: "next_word (st \<lparr> state_array := (state_array st)[1 := x] \<rparr>) = next_word st"
  by (simp add: next_word_def)

lemma next_word_low: "l AND 0xFFFF = l' AND 0xFFFF \<Longrightarrow> next_word st l = next_word st l'"
  by (simp add: next_word_def twist_def)

lemma randoms_eq:
  "rand_ok st \<Longrightarrow> \<exists>st'. randoms n st =
    (Ok (map (\<lambda>k. temper ((next_word st ^^ Suc k) (state_array st ! 1))) [0..<n]), st')"
proof (induction n arbitrary: st)
  case 0
  then show ?case by (simp add: ret_def)
next
  case (Suc n)
  let ?G = "next_word st" and ?w = "state_array st ! 1"
  let ?st = "st \<lparr> state_array := (state_array st)[1 := ?G ?w] \<rparr>"
  have ok: "rand_ok ?st" using Suc.prems by (simp add: rand_ok_def)
  have w: "state_array ?st ! 1 = ?G ?w" using Suc.prems by (simp add: rand_ok_def)
  obtain st' where "randoms n ?st = (Ok (map (\<lambda>k. temper ((?G ^^ Suc k) (?G ?w))) [0..<n]), st')"
    using Suc.IH [OF ok] unfolding next_word_update w by blast
  moreover have "map (\<lambda>k. temper ((?G ^^ Suc k) ?w)) [0..<Suc n] = temper (?G ?w) # map (\<lambda>k. temper ((?G ^^ Suc k) (?G ?w))) [0..<n]"
    by (simp add: upt_conv_Cons map_Suc_upt [symmetric] funpow_swap1 del: upt_Suc)
  ultimately show ?case using random_u32_step [OF Suc.prems] by (simp add: bind_def ret_def)
qed

text \<open>A sequence in which the low 16 bits of an element determine the next one repeats itself.\<close>

lemma low_bits_repeat:
  fixes g :: "u32 \<Rightarrow> u32"
  shows "\<exists>i j. i < j \<and> j \<le> 65536 \<and> (g ^^ i) w AND 0xFFFF = (g ^^ j) w AND 0xFFFF"
proof -
  let ?f = "\<lambda>n. unat ((g ^^ n) w AND 0xFFFF)"
  have "?f n < 65536" for n
  proof -
    have "(g ^^ n) w AND 0xFFFF \<le> 0xFFFF" by (rule word_and_le1)
    then show ?thesis by (simp add: word_le_nat_alt)
  qed
  then have "?f ` {..65536} \<subseteq> {..<65536}" by auto
  then have "card (?f ` {..65536}) \<le> 65536" using card_mono [of "{..<65536::nat}"] by fastforce
  then have "\<not> inj_on ?f {..65536}" by (intro pigeonhole) simp
  then obtain i j where "i \<le> 65536" "j \<le> 65536" "i \<noteq> j" "?f i = ?f j" by (auto simp: inj_on_def)
  then have "(g ^^ i) w AND 0xFFFF = (g ^^ j) w AND 0xFFFF" by (simp only: word_unat_eq_iff)
  then show ?thesis
    using \<open>i \<le> 65536\<close> \<open>j \<le> 65536\<close> \<open>i \<noteq> j\<close> by (cases i j rule: linorder_cases) (blast, simp, metis)
qed

lemma unix_timestamp_leap_day: "\<exists>t. datetime_to_unix_timestamp leap_day_2024 = Ok t"
  using datetime_to_unix_ok [OF valid_leap_day_2024] by blast

section \<open>Properties\<close>

text \<open>C38. The random numbers repeat themselves.  A generator initialised from the clock answers every request,
  but its index stays 0, so that only one word of the state ever changes and the next number depends
  on 16 of its bits: after at most 65536 numbers the sequence is periodic, with a period of at most
  65536.\<close>

theorem randoms_periodic:
  assumes "rand_init now = Ok st"
  shows "\<exists>i p. 0 < p \<and> i + p \<le> 65536 \<and> (\<forall>n. \<exists>xs st'. randoms n st = (Ok xs, st') \<and> length xs = n \<and>
    (\<forall>m. i \<le> m \<longrightarrow> m + p < n \<longrightarrow> xs ! (m + p) = xs ! m))"
proof -
  define a where "a n = (next_word st ^^ n) (state_array st ! 1)" for n
  have a: "a (Suc n) = next_word st (a n)" for n by (simp add: a_def)
  obtain i j where ij: "i < j" "j \<le> 65536" "a i AND 0xFFFF = a j AND 0xFFFF"
    using low_bits_repeat unfolding a_def by blast
  have e: "a (Suc (i + t)) = a (Suc (j + t))" for t
  proof (induction t)
    case 0
    show ?case unfolding add_0_right a by (rule next_word_low [OF ij(3)])
  next
    case (Suc t)
    show ?case unfolding add_Suc_right a [of "Suc (i + t)"] a [of "Suc (j + t)"] Suc ..
  qed
  have r: "a (Suc (m + (j - i))) = a (Suc m)" if "i \<le> m" for m
  proof -
    obtain t where "m = i + t" using \<open>i \<le> m\<close> le_Suc_ex by blast
    moreover from this have "m + (j - i) = j + t" using ij(1) by simp
    ultimately show ?thesis using e [of t] by metis
  qed
  have "\<exists>xs st'. randoms n st = (Ok xs, st') \<and> length xs = n \<and>
      (\<forall>m. i \<le> m \<longrightarrow> m + (j - i) < n \<longrightarrow> xs ! (m + (j - i)) = xs ! m)" for n
  proof -
    obtain st' where "randoms n st = (Ok (map (\<lambda>k. temper (a (Suc k))) [0..<n]), st')"
      using randoms_eq [OF rand_init_ok [OF assms], of n] unfolding a_def by blast
    moreover have "map (\<lambda>k. temper (a (Suc k))) [0..<n] ! (m + (j - i)) = map (\<lambda>k. temper (a (Suc k))) [0..<n] ! m"
      if "i \<le> m" "m + (j - i) < n" for m using r that by simp
    ultimately show ?thesis by (intro exI conjI allI impI) (assumption, simp, blast)
  qed
  then show ?thesis using ij by (intro exI [of _ i] exI [of _ "j - i"]) auto
qed

theorem randoms_periodic_witness:
  "\<exists>st xs st'. rand_init (Some leap_day_2024) = Ok st \<and> randoms 100000 st = (Ok xs, st') \<and>
     (\<exists>m p. 0 < p \<and> m + p < 100000 \<and> xs ! (m + p) = xs ! m)"
proof -
  obtain st where st: "rand_init (Some leap_day_2024) = Ok st"
    using unix_timestamp_leap_day by (auto simp: rand_init_def)
  from randoms_periodic [OF st] obtain i p where "0 < p" "i + p \<le> 65536"
      "\<And>n. \<exists>xs st'. randoms n st = (Ok xs, st') \<and> length xs = n \<and>
        (\<forall>m. i \<le> m \<longrightarrow> m + p < n \<longrightarrow> xs ! (m + p) = xs ! m)" by blast
  moreover from this(2) have "i + p < 100000" by simp
  ultimately show ?thesis using st by (metis order_refl)
qed

end
