(* ===== verification/Vfs.thy ===== *)
theory Vfs
  imports Ext2Ops Sync
begin

text \<open>
  The virtual file system (\<^verbatim>\<open>hal/vfs.rs\<close>): one task that owns the table of open
  inodes and the table of mount points and serves the requests of a channel
  one after the other.  A request carries the setter of a cell; what the task
  puts there is the answer, and \<open>None\<close> stands for a cell that is dropped without
  being set.  The buffer of a read is the memory of the caller: its new content
  is part of the result.  The drives and the clock are shared by all mounted
  file systems.
\<close>

section \<open>Errors\<close>

datatype ErrNo = OperationNotPermitted | NoSuchFileOrDirectoryNo | InputOrOutputErr | BadFd
  | PermissionDenied | FileExistsNo | NotADirectoryNo | IsADirectory | InvalidArgument
  | TooManyOpenFiles | NoSpaceLeftNo | OperationNotSupported | DirectoryNotEmptyNo

fun errno_value :: "ErrNo \<Rightarrow> int" where
  "errno_value OperationNotPermitted = - 0x1"
| "errno_value NoSuchFileOrDirectoryNo = - 0x2"
| "errno_value InputOrOutputErr = - 0x3"
| "errno_value BadFd = - 0x9"
| "errno_value PermissionDenied = - 0xd"
| "errno_value FileExistsNo = - 0x11"
| "errno_value NotADirectoryNo = - 0x14"
| "errno_value IsADirectory = - 0x15"
| "errno_value InvalidArgument = - 0x16"
| "errno_value TooManyOpenFiles = - 0x18"
| "errno_value NoSpaceLeftNo = - 0x1c"
| "errno_value OperationNotSupported = - 0x2d"
| "errno_value DirectoryNotEmptyNo = - 0x42"

fun errno_of :: "HalFsIOErr \<Rightarrow> ErrNo" where
  "errno_of (HalErr _) = InputOrOutputErr"
| "errno_of (DeserializationErr _) = InputOrOutputErr"
| "errno_of FsInternal = InputOrOutputErr"
| "errno_of (SerializationErr _) = InputOrOutputErr"
| "errno_of FileTooLarge = InputOrOutputErr"
| "errno_of Corrupted = InputOrOutputErr"
| "errno_of BadPath = NoSuchFileOrDirectoryNo"
| "errno_of NameTooLong = NoSuchFileOrDirectoryNo"
| "errno_of NoSuchFileOrDirectory = NoSuchFileOrDirectoryNo"
| "errno_of FileExists = FileExistsNo"
| "errno_of DirectoryNotEmpty = DirectoryNotEmptyNo"
| "errno_of NoPermsProvided = OperationNotPermitted"
| "errno_of BufTooSmall = InvalidArgument"
| "errno_of IsDirectory = IsADirectory"
| "errno_of NoSpaceLeft = NoSpaceLeftNo"
| "errno_of NoAvailableInode = NoSpaceLeftNo"
| "errno_of NotADirectory = NotADirectoryNo"
| "errno_of Unsupported = OperationNotSupported"

section \<open>Mounted file systems\<close>

text \<open>The part of the ext2 state that belongs to one mounted file system.\<close>

record ext2_mount =
  m_fs :: Ext2Fs
  m_super_block :: SuperBlock
  m_allocated :: "AllocatedBlock list"
  m_freed :: "u32 list"

datatype HalFs = Unidentified | Ext2 ext2_mount

record FileSystem =
  fsys_drive_id :: Guid
  fsys_entry :: GPTEntry
  fsys_opened :: "int set"
  fs_impl :: HalFs
  mounted_at :: Path

text \<open>
  \<^verbatim>\<open>path_to_id_map\<close> is an ordered map.  It is kept here as an association list in the order of
  insertion: the only loop over it looks for the shortest key that is a prefix of a path, and no
  two keys of the same length are prefixes of one path.
\<close>

record MountPointArray =
  mount_points :: "int \<Rightarrow> FileSystem option"
  path_to_id_map :: "(Path \<times> int) list"
  counter :: int

definition mount_points_new :: MountPointArray where
  "mount_points_new = \<lparr> mount_points = (\<lambda>_. None), path_to_id_map = [], counter = 0 \<rparr>"

fun path_insert :: "Path \<Rightarrow> int \<Rightarrow> (Path \<times> int) list \<Rightarrow> (Path \<times> int) list" where
  "path_insert p mid [] = [(p, mid)]"
| "path_insert p mid ((q, j) # rest) = (if p = q then (p, mid) # rest else (q, j) # path_insert p mid rest)"

definition mount_insert :: "Path \<Rightarrow> FileSystem \<Rightarrow> MountPointArray \<Rightarrow> MountPointArray" where
  "mount_insert p fs mp = \<lparr> mount_points = (mount_points mp)(counter mp \<mapsto> fs),
     path_to_id_map = path_insert p (counter mp) (path_to_id_map mp), counter = i64 (counter mp + 1) \<rparr>"

definition get_mount_point_by_path :: "Path \<Rightarrow> MountPointArray \<Rightarrow> FileSystem option" where
  "get_mount_point_by_path p mp = (case map_of (path_to_id_map mp) p of
      Some mid \<Rightarrow> mount_points mp mid
    | None \<Rightarrow> None)"

definition contains_path :: "Path \<Rightarrow> MountPointArray \<Rightarrow> bool" where
  "contains_path p mp = (case map_of (path_to_id_map mp) p of
      Some mid \<Rightarrow> mount_points mp mid \<noteq> None
    | None \<Rightarrow> False)"

section \<open>The state of the task\<close>

record HalOpenedInode =
  hal_inode :: HalInode
  io_ctx :: HalIOCtx
  open_count :: nat
  mount_point_id :: int

definition from_inode :: "HalInode \<Rightarrow> int \<Rightarrow> HalOpenedInode" where
  "from_inode ino mid = \<lparr> hal_inode = ino, io_ctx = HalIOCtx_new, open_count = 1, mount_point_id = mid \<rparr>"

record vfs =
  v_disks :: storage
  v_clock :: "nat \<Rightarrow> RtcDateTime option"
  v_clock_reads :: nat
  opened_inodes :: "int \<Rightarrow> HalOpenedInode option"
  inode_idx_counter :: int
  mounts :: MountPointArray

datatype Whence = SeekSet | SeekCur | SeekEnd | SeekData | SeekHole

datatype VfsOperationType = Open Path OpenFlags | Read int bytes | Write int bytes
  | Lseek int Whence int | Close int

type_synonym answer = "ErrNo + int"

text \<open>The state an ext2 operation runs on, and the two parts it is stored back to.\<close>

definition ext2_of :: "ext2_mount \<Rightarrow> vfs \<Rightarrow> ext2" where
  "ext2_of m v = \<lparr> disks = v_disks v, super_block = m_super_block m, allocated_block_indices = m_allocated m,
     unwritten_freed_blocks = m_freed m, clock = v_clock v, clock_reads = v_clock_reads v \<rparr>"

definition mount_of :: "ext2_mount \<Rightarrow> ext2 \<Rightarrow> ext2_mount" where
  "mount_of m s = m \<lparr> m_super_block := super_block s, m_allocated := allocated_block_indices s,
     m_freed := unwritten_freed_blocks s \<rparr>"

definition set_mount :: "int \<Rightarrow> FileSystem \<Rightarrow> vfs \<Rightarrow> vfs" where
  "set_mount mid f v = v \<lparr> mounts := (mounts v) \<lparr> mount_points := (mount_points (mounts v))(mid \<mapsto> f) \<rparr> \<rparr>"

definition put_ext2 :: "int \<Rightarrow> FileSystem \<Rightarrow> ext2_mount \<Rightarrow> ext2 \<Rightarrow> vfs \<Rightarrow> vfs" where
  "put_ext2 mid f m s v = set_mount mid (f \<lparr> fs_impl := Ext2 (mount_of m s) \<rparr>)
     (v \<lparr> v_disks := disks s, v_clock_reads := clock_reads s \<rparr>)"

text \<open>The answer to a request from the result of the file system; a panic ends the task.\<close>

fun answer_of :: "(HalFsIOErr, int) res \<Rightarrow> (unit, answer option) res" where
  "answer_of (Ok n) = Ok (Some (Inr n))"
| "answer_of (Err e) = Ok (Some (Inl (errno_of e)))"
| "answer_of Panic = Panic"
| "answer_of Diverge = Diverge"

section \<open>Opening\<close>

definition starts_with_str :: "string \<Rightarrow> string \<Rightarrow> bool" where
  "starts_with_str s p \<longleftrightarrow> take (length p) s = p"

lemma starts_with_str_shorter: "starts_with_str s p \<Longrightarrow> p \<noteq> [] \<Longrightarrow> length s - length p < length s"
  by (cases s) (auto simp: starts_with_str_def)

text \<open>The fold over the mounted paths keeps the shortest one that the path starts with.\<close>

definition closer :: "Path \<Rightarrow> nat \<times> int option \<Rightarrow> Path \<times> int \<Rightarrow> nat \<times> int option" where
  "closer p acc e = (if starts_with_str (raw p) (raw (fst e)) \<and> length (raw (fst e)) < fst acc
     then (length (raw (fst e)), Some (snd e)) else acc)"

definition find_mount :: "Path \<Rightarrow> MountPointArray \<Rightarrow> int option" where
  "find_mount p mp = snd (foldl (closer p) (2 ^ 64 - 1, None) (path_to_id_map mp))"

function trim_start_matches :: "string \<Rightarrow> string \<Rightarrow> string" where
  "trim_start_matches p s =
    (if p \<noteq> [] \<and> starts_with_str s p then trim_start_matches p (drop (length p) s) else s)"
  by pat_completeness auto
termination
  by (relation "measure (\<lambda>(p, s). length s)") (auto dest: starts_with_str_shorter)

declare trim_start_matches.simps [simp del]

definition vfs_open_op :: "Path \<Rightarrow> OpenFlags \<Rightarrow> (vfs, unit, answer option) st" where
  "vfs_open_op p fl v =
    (let p = normalize p in
     case find_mount p (mounts v) of
       None \<Rightarrow> (Ok (Some (Inl NoSuchFileOrDirectoryNo)), v)
     | Some mid \<Rightarrow> (case mount_points (mounts v) mid of
         None \<Rightarrow> (Ok (Some (Inl NoSuchFileOrDirectoryNo)), v)
       | Some f \<Rightarrow>
           let p = new_appended (trim_start_matches (raw (mounted_at f)) (raw p)) in
           (case fs_impl f of
             Unidentified \<Rightarrow> (Panic, v)
           | Ext2 m \<Rightarrow> (case open_file (m_fs m) p fl (ext2_of m v) of (r, s) \<Rightarrow> (case r of
               Ok ino \<Rightarrow>
                 let fd = inode_idx_counter v in
                 (Ok (Some (Inr fd)),
                  put_ext2 mid (f \<lparr> fsys_opened := insert fd (fsys_opened f) \<rparr>) m s
                    (v \<lparr> opened_inodes := (opened_inodes v)(fd \<mapsto> from_inode ino mid),
                       inode_idx_counter := i64 (fd + 1) \<rparr>))
             | Err e \<Rightarrow> (Ok (Some (Inl (errno_of e))), put_ext2 mid f m s v)
             | Panic \<Rightarrow> (Panic, put_ext2 mid f m s v)
             | Diverge \<Rightarrow> (Diverge, put_ext2 mid f m s v))))))"

section \<open>Requests on an open inode\<close>

text \<open>
  The macro \<^verbatim>\<open>find_inode_and_process\<close>: it looks the descriptor and its mount point up and runs the
  block it is given, which answers and may change the opened inode and the file system.
\<close>

type_synonym 'b on_inode = "HalOpenedInode \<Rightarrow> Ext2Fs \<Rightarrow> ext2 \<Rightarrow>
  (unit, answer option \<times> 'b) res \<times> HalOpenedInode \<times> ext2"

definition find_inode_and_process :: "int \<Rightarrow> 'b \<Rightarrow> 'b on_inode \<Rightarrow> (vfs, unit, answer option \<times> 'b) st" where
  "find_inode_and_process fd b act v = (case opened_inodes v fd of
      None \<Rightarrow> (Ok (Some (Inl BadFd), b), v)
    | Some i \<Rightarrow> (case mount_points (mounts v) (mount_point_id i) of
        None \<Rightarrow> (Ok (Some (Inl BadFd), b), v)
      | Some f \<Rightarrow> (case fs_impl f of
          Unidentified \<Rightarrow> (Panic, v)
        | Ext2 m \<Rightarrow> (case act i (m_fs m) (ext2_of m v) of (r, i', s) \<Rightarrow>
            (r, put_ext2 (mount_point_id i) f m s (v \<lparr> opened_inodes := (opened_inodes v)(fd \<mapsto> i') \<rparr>))))))"

fun with_buffer :: "'b \<Rightarrow> (unit, answer option) res \<Rightarrow> (unit, answer option \<times> 'b) res" where
  "with_buffer b (Ok a) = Ok (a, b)"
| "with_buffer b (Err e) = Err e"
| "with_buffer b Panic = Panic"
| "with_buffer b Diverge = Diverge"

fun count_of :: "(HalFsIOErr, nat) res \<Rightarrow> (HalFsIOErr, int) res" where
  "count_of (Ok n) = Ok (i64 (int n))"
| "count_of (Err e) = Err e"
| "count_of Panic = Panic"
| "count_of Diverge = Diverge"

definition read_inode :: "bytes \<Rightarrow> bytes on_inode" where
  "read_inode buf i fs s = (case hal_inode i of Ext2Inode ino \<Rightarrow>
     (case ext2_read fs ino (s, buf, io_ctx i) of (r, s', buf', ctx) \<Rightarrow>
       (with_buffer buf' (answer_of (count_of r)), i \<lparr> io_ctx := ctx \<rparr>, s')))"

definition write_inode_op :: "bytes \<Rightarrow> bytes on_inode" where
  "write_inode_op buf i fs s = (case hal_inode i of Ext2Inode ino \<Rightarrow>
     (case ext2_write fs buf (s, ino, io_ctx i) of (r, s', ino', ctx) \<Rightarrow>
       (with_buffer buf (answer_of (count_of r)), i \<lparr> hal_inode := Ext2Inode ino', io_ctx := ctx \<rparr>, s')))"

definition seek :: "Whence \<Rightarrow> int \<Rightarrow> HalIOCtx \<Rightarrow> answer option \<times> HalIOCtx" where
  "seek whence offset ctx = (case whence of
      SeekSet \<Rightarrow>
        let ctx = ctx \<lparr> head := word_of_int offset \<rparr> in (Some (Inr (sint (head ctx))), ctx)
    | SeekCur \<Rightarrow>
        let ctx = (if offset < 0 then ctx \<lparr> head := head ctx - word_of_int (i64 (offset * - 1)) \<rparr>
          else ctx \<lparr> head := head ctx + word_of_int offset \<rparr>) in (Some (Inr (sint (head ctx))), ctx)
    | SeekEnd \<Rightarrow> (None, ctx)
    | SeekData \<Rightarrow> (None, ctx)
    | SeekHole \<Rightarrow> (None, ctx))"

definition seek_inode :: "Whence \<Rightarrow> int \<Rightarrow> bytes on_inode" where
  "seek_inode whence offset i fs s = (case seek whence offset (io_ctx i) of (a, ctx) \<Rightarrow>
     (Ok (a, []), i \<lparr> io_ctx := ctx \<rparr>, s))"

section \<open>The loop of the task\<close>

definition handle :: "VfsOperationType \<Rightarrow> (vfs, unit, answer option \<times> bytes) st" where
  "handle operation = (case operation of
      Open p fl \<Rightarrow> bind (vfs_open_op p fl) (\<lambda>a. ret (a, []))
    | Read inode_id buf \<Rightarrow> find_inode_and_process inode_id buf (read_inode buf)
    | Write inode_id buf \<Rightarrow> find_inode_and_process inode_id buf (write_inode_op buf)
    | Lseek inode_id whence offset \<Rightarrow> find_inode_and_process inode_id [] (seek_inode whence offset)
    | Close inode_id \<Rightarrow> crash)"

fun serve :: "VfsOperationType list \<Rightarrow> (vfs, unit, (answer option \<times> bytes) list) st" where
  "serve [] = ret []"
| "serve (operation # rest) = bind (handle operation) (\<lambda>a. bind (serve rest) (\<lambda>as. ret (a # as)))"

section \<open>Starting\<close>

definition find_gpt_entry :: "Guid \<Rightarrow> GPTEntry list \<Rightarrow> GPTEntry option" where
  "find_gpt_entry entry_id entries = foldl (\<lambda>res ent. if gpt_unique_guid ent = entry_id then Some ent else res) None entries"

definition root_path :: Path where
  "root_path = new_appended ''/''"

definition mount_root :: "Guid \<Rightarrow> GPTEntry \<Rightarrow> ext2 \<Rightarrow> Ext2Fs \<Rightarrow> vfs" where
  "mount_root drive entry s fs = \<lparr> v_disks = disks s, v_clock = clock s, v_clock_reads = clock_reads s,
     opened_inodes = (\<lambda>_. None), inode_idx_counter = 0,
     mounts = mount_insert root_path
       \<lparr> fsys_drive_id = drive, fsys_entry = entry, fsys_opened = {},
         fs_impl = Ext2 \<lparr> m_fs = fs, m_super_block = super_block s, m_allocated = allocated_block_indices s,
           m_freed = unwritten_freed_blocks s \<rparr>,
         mounted_at = root_path \<rparr> mount_points_new \<rparr>"

text \<open>The task starts on a state \<open>s\<close> in which only the drives and the clock matter.\<close>

definition start_vfs :: "Guid \<Rightarrow> Guid \<Rightarrow> ext2 \<Rightarrow> (unit, vfs) res" where
  "start_vfs drive entry_id s = (case STORAGE_DEVICES_BY_GUID (disks s) of
      None \<Rightarrow> Panic
    | Some guids \<Rightarrow> (case guids drive of
        None \<Rightarrow> Panic
      | Some idx \<Rightarrow> (case read_gpt idx (disks s) of
          (Ok (_, entries), d) \<Rightarrow> (case find_gpt_entry entry_id entries of
              None \<Rightarrow> Panic
            | Some entry \<Rightarrow> (case ext2fs_new drive entry (s \<lparr> disks := d \<rparr>) of
                (Ok fs, s') \<Rightarrow> Ok (mount_root drive entry s' fs)
              | (Diverge, _) \<Rightarrow> Diverge
              | (_, _) \<Rightarrow> Panic))
        | (Diverge, _) \<Rightarrow> Diverge
        | (_, _) \<Rightarrow> Panic)))"

section \<open>The callers\<close>

text \<open>
  \<^verbatim>\<open>vfs_open\<close>, \<^verbatim>\<open>vfs_read\<close>, \<^verbatim>\<open>vfs_write\<close> and \<^verbatim>\<open>vfs_lseek\<close>: the caller polls its cell while the request is in the
  channel, the task handles the request and sets the cell, and the caller polls again.
\<close>

definition vfs_call :: "VfsOperationType \<Rightarrow> 'w \<Rightarrow> (vfs, unit, answer poll \<times> (answer, 'w) SpscCell) st" where
  "vfs_call operation w = (case cell_poll w spsc_cells of (_, c) \<Rightarrow>
     bind (handle operation) (\<lambda>(a, _).
     ret (cell_poll w (case a of Some x \<Rightarrow> cell_set x c | None \<Rightarrow> c))))"

section \<open>The tables\<close>

definition vfs_ok :: "vfs \<Rightarrow> bool" where
  "vfs_ok v \<longleftrightarrow> 0 \<le> inode_idx_counter v \<and>
     (\<forall>fd. opened_inodes v fd \<noteq> None \<longrightarrow> 0 \<le> fd \<and> fd < inode_idx_counter v) \<and>
     (\<forall>fd i. opened_inodes v fd = Some i \<longrightarrow> mount_points (mounts v) (mount_point_id i) \<noteq> None) \<and>
     (\<forall>mid f fd. mount_points (mounts v) mid = Some f \<longrightarrow>
       (fd \<in> fsys_opened f \<longleftrightarrow> map_option mount_point_id (opened_inodes v fd) = Some mid)) \<and>
     (\<forall>e \<in> set (path_to_id_map (mounts v)). mount_points (mounts v) (snd e) \<noteq> None)"

lemma put_ext2_simps [simp]:
  "opened_inodes (put_ext2 mid f m s v) = opened_inodes v"
  "inode_idx_counter (put_ext2 mid f m s v) = inode_idx_counter v"
  "path_to_id_map (mounts (put_ext2 mid f m s v)) = path_to_id_map (mounts v)"
  "mount_points (mounts (put_ext2 mid f m s v)) = (mount_points (mounts v))(mid \<mapsto> f \<lparr> fs_impl := Ext2 (mount_of m s) \<rparr>)"
  by (simp_all add: put_ext2_def set_mount_def)

lemma vfs_ok_put_ext2:
  assumes "vfs_ok v" "mount_points (mounts v) mid = Some f"
  shows "vfs_ok (put_ext2 mid f m s v)"
  using assms unfolding vfs_ok_def by auto

lemma vfs_ok_update_inode:
  assumes "vfs_ok v" "opened_inodes v fd = Some i" "mount_point_id i' = mount_point_id i"
  shows "vfs_ok (v \<lparr> opened_inodes := (opened_inodes v)(fd \<mapsto> i') \<rparr>)"
  using assms unfolding vfs_ok_def by auto

lemma find_inode_and_process_ok:
  assumes "find_inode_and_process fd b act v = (r, v')" "vfs_ok v"
    and "\<And>i fs s. mount_point_id (fst (snd (act i fs s))) = mount_point_id i"
  shows "vfs_ok v' \<and> inode_idx_counter v' = inode_idx_counter v"
proof (cases "opened_inodes v fd")
  case None
  then show ?thesis using assms by (auto simp: find_inode_and_process_def)
next
  case (Some i)
  note i = this
  show ?thesis
  proof (cases "mount_points (mounts v) (mount_point_id i)")
    case None
    then show ?thesis using i assms by (auto simp: find_inode_and_process_def)
  next
    case (Some f)
    show ?thesis
    proof (cases "fs_impl f")
      case Unidentified
      then show ?thesis using i Some assms by (auto simp: find_inode_and_process_def)
    next
      case (Ext2 m)
      obtain i' s where a: "act i (m_fs m) (ext2_of m v) = (r, i', s)"
          "v' = put_ext2 (mount_point_id i) f m s (v \<lparr> opened_inodes := (opened_inodes v)(fd \<mapsto> i') \<rparr>)"
        using assms(1) i Some Ext2 by (auto simp: find_inode_and_process_def split: prod.splits)
      have "mount_point_id i' = mount_point_id i" using assms(3) [of i "m_fs m" "ext2_of m v"] a(1) by simp
      from vfs_ok_put_ext2 [OF vfs_ok_update_inode [OF assms(2) i this]] show ?thesis using a(2) Some by simp
    qed
  qed
qed

lemma on_inode_keeps_mount:
  "mount_point_id (fst (snd (read_inode buf i fs s))) = mount_point_id i"
  "mount_point_id (fst (snd (write_inode_op buf i fs s))) = mount_point_id i"
  "mount_point_id (fst (snd (seek_inode whence offset i fs s))) = mount_point_id i"
  by (auto simp: read_inode_def write_inode_op_def seek_inode_def split: HalInode.splits prod.splits)

text \<open>Opening: either a new descriptor is entered in both tables, or the tables keep their descriptors.\<close>

lemma vfs_open_op_cases:
  assumes "vfs_open_op p fl v = (r, v')"
  obtains (opened) ino mid f m s where "r = Ok (Some (Inr (inode_idx_counter v)))" "mount_points (mounts v) mid = Some f"
      "v' = put_ext2 mid (f \<lparr> fsys_opened := insert (inode_idx_counter v) (fsys_opened f) \<rparr>) m s
        (v \<lparr> opened_inodes := (opened_inodes v)(inode_idx_counter v \<mapsto> from_inode ino mid),
           inode_idx_counter := i64 (inode_idx_counter v + 1) \<rparr>)"
    | (failed) mid f m s where "\<And>a. r = Ok a \<Longrightarrow> \<exists>e. a = Some (Inl e)" "mount_points (mounts v) mid = Some f"
      "v' = put_ext2 mid f m s v"
    | (refused) "\<And>a. r = Ok a \<Longrightarrow> \<exists>e. a = Some (Inl e)" "v' = v"
proof -
  let ?p = "normalize p"
  show thesis
  proof (cases "find_mount ?p (mounts v)")
    case None
    then show ?thesis using assms by (intro refused) (auto simp: vfs_open_op_def Let_def)
  next
    case (Some mid)
    note mid = this
    show ?thesis
    proof (cases "mount_points (mounts v) mid")
      case None
      then show ?thesis using assms mid by (intro refused) (auto simp: vfs_open_op_def Let_def)
    next
      case (Some f)
      let ?q = "new_appended (trim_start_matches (raw (mounted_at f)) (raw ?p))"
      show ?thesis
      proof (cases "fs_impl f")
        case Unidentified
        then show ?thesis using assms mid Some by (intro refused) (auto simp: vfs_open_op_def Let_def)
      next
        case (Ext2 m)
        obtain o1 s where o: "open_file (m_fs m) ?q fl (ext2_of m v) = (o1, s)" by fastforce
        show ?thesis
        proof (cases o1)
          case (Ok ino)
          then show ?thesis using assms mid Some Ext2 o by (intro opened [OF _ Some]) (auto simp: vfs_open_op_def Let_def)
        qed (use assms mid Some Ext2 o in \<open>intro failed [OF _ Some]; auto simp: vfs_open_op_def Let_def\<close>)+
      qed
    qed
  qed
qed

lemma handle_ok:
  assumes "handle operation v = (r, v')" "vfs_ok v" "inode_idx_counter v + 1 < 2 ^ 63"
  shows "vfs_ok v' \<and> inode_idx_counter v' \<le> inode_idx_counter v + 1"
proof (cases operation)
  case (Open p fl)
  then obtain r' where "vfs_open_op p fl v = (r', v')"
    using assms(1) by (auto simp: handle_def bind_def ret_def split: prod.splits res.splits)
  then show ?thesis
  proof (cases rule: vfs_open_op_cases)
    case (opened ino mid f m s)
    have c: "i64 (inode_idx_counter v + 1) = inode_idx_counter v + 1"
      using assms(2,3) by (intro i64_id) (auto simp: vfs_ok_def)
    have n: "opened_inodes v (inode_idx_counter v) = None"
      using assms(2) by (cases "opened_inodes v (inode_idx_counter v)") (force simp: vfs_ok_def)+
    show ?thesis using assms(2) opened(2,3) n c unfolding vfs_ok_def from_inode_def by auto
  qed (use assms(2) vfs_ok_put_ext2 in auto)
qed (use assms on_inode_keeps_mount in \<open>auto simp: handle_def crash_def dest!: find_inode_and_process_ok\<close>)

lemma serve_ok:
  "serve ops v = (r, v') \<Longrightarrow> vfs_ok v \<Longrightarrow> inode_idx_counter v + int (length ops) < 2 ^ 63 \<Longrightarrow> vfs_ok v'"
proof (induction ops arbitrary: v r)
  case Nil
  then show ?case by (simp add: ret_def)
next
  case (Cons operation rest)
  obtain a w where h: "handle operation v = (a, w)" by fastforce
  have w: "vfs_ok w" "inode_idx_counter w \<le> inode_idx_counter v + 1"
    using handle_ok [OF h Cons.prems(2)] Cons.prems(3) by simp_all
  show ?case
  proof (cases a)
    case (Ok x)
    then obtain r' where "serve rest w = (r', v')"
      using Cons.prems(1) h by (auto simp: bind_def ret_def split: prod.splits res.splits)
    then show ?thesis using Cons.IH w Cons.prems(3) by simp
  qed (use Cons.prems(1) h w in \<open>auto simp: bind_def\<close>)
qed

lemma start_vfs_ok:
  assumes "start_vfs drive entry_id s = Ok v"
  shows "vfs_ok v \<and> inode_idx_counter v = 0 \<and> path_to_id_map (mounts v) = [(root_path, 0)]"
proof -
  obtain entry s' fs where "v = mount_root drive entry s' fs"
    using assms by (auto simp: start_vfs_def split: option.splits prod.splits res.splits)
  then show ?thesis by (simp add: mount_root_def vfs_ok_def mount_insert_def mount_points_new_def)
qed

section \<open>Reading through a descriptor\<close>

lemma put_ext2_same:
  assumes "mount_points (mounts v) mid = Some f" "fs_impl f = Ext2 m"
  shows "put_ext2 mid f m (ext2_of m v) v = v"
proof -
  have "mount_of m (ext2_of m v) = m" by (simp add: mount_of_def ext2_of_def)
  then have "f \<lparr> fs_impl := Ext2 (mount_of m (ext2_of m v)) \<rparr> = f" using assms(2) by simp
  then show ?thesis using assms(1) by (simp add: put_ext2_def set_mount_def ext2_of_def fun_upd_idem)
qed

lemma find_inode_and_process_readonly:
  assumes "opened_inodes v fd = Some i" "mount_points (mounts v) (mount_point_id i) = Some f" "fs_impl f = Ext2 m"
    and "act i (m_fs m) (ext2_of m v) = (r, i', ext2_of m v)"
  shows "find_inode_and_process fd b act v = (r, v \<lparr> opened_inodes := (opened_inodes v)(fd \<mapsto> i') \<rparr>)"
proof -
  let ?v = "v \<lparr> opened_inodes := (opened_inodes v)(fd \<mapsto> i') \<rparr>"
  have "ext2_of m v = ext2_of m ?v" by (simp add: ext2_of_def)
  then have "put_ext2 (mount_point_id i) f m (ext2_of m v) ?v = ?v"
    using put_ext2_same [of ?v "mount_point_id i" f m] assms(2,3) by simp
  then show ?thesis using assms by (simp add: find_inode_and_process_def)
qed

lemma handle_read_file:
  fixes v fd i f m ino buf
  defines "h \<equiv> unat (head (io_ctx i))" and "fs \<equiv> m_fs m"
  defines "n \<equiv> min (length buf) (unat (i_size (inode ino)) - h)"
  assumes "opened_inodes v fd = Some i" "mount_points (mounts v) (mount_point_id i) = Some f" "fs_impl f = Ext2 m"
    and "hal_inode i = Ext2Inode ino" "\<not> is_directory (inode ino)" "wf_inode (inode ino)"
    and "wf_fs fs" "fs_block_size fs = 1024" "block_size (m_super_block m) = 1024" "part_ok (io_handler fs) (ext2_of m v)"
    and "unat (i_size (inode ino)) \<le> 13312" "h \<le> unat (i_size (inode ino))"
  shows "handle (Read fd buf) v =
    (Ok (Some (Inr (int n)), file_range (part (io_handler fs) (ext2_of m v)) (i_block (inode ino)) (h mod 1024) n @ drop n buf),
     v \<lparr> opened_inodes := (opened_inodes v)(fd \<mapsto> i \<lparr> io_ctx := \<lparr> head = head (io_ctx i) + of_nat n \<rparr> \<rparr>) \<rparr>)"
proof -
  have "n \<le> 13312" using assms(14) by (simp add: n_def)
  then have "i64 (int n) = int n" by (intro i64_id) simp_all
  moreover have "ext2_read fs ino (ext2_of m v, buf, io_ctx i) = (Ok n, ext2_of m v,
      file_range (part (io_handler fs) (ext2_of m v)) (i_block (inode ino)) (h mod 1024) n @ drop n buf,
      (io_ctx i) \<lparr> head := head (io_ctx i) + of_nat n \<rparr>)"
    using ext2_read_spec [of fs "ext2_of m v" ino "io_ctx i" buf] assms(8-15) by (simp add: n_def h_def ext2_of_def)
  ultimately have "read_inode buf i fs (ext2_of m v) =
      (Ok (Some (Inr (int n)), file_range (part (io_handler fs) (ext2_of m v)) (i_block (inode ino)) (h mod 1024) n @ drop n buf),
       i \<lparr> io_ctx := \<lparr> head = head (io_ctx i) + of_nat n \<rparr> \<rparr>, ext2_of m v)"
    using assms(7) by (simp add: read_inode_def)
  then show ?thesis
    using find_inode_and_process_readonly [OF assms(4-6)] by (simp add: handle_def fs_def)
qed

section \<open>The shortest mounted prefix\<close>

definition absolute :: "Path \<Rightarrow> bool" where
  "absolute p \<longleftrightarrow> starts_with CHR ''/'' (raw p)"

lemma root_path_raw [simp]: "raw root_path = ''/''"
  by (simp add: root_path_def new_appended_def starts_with_def)

lemma absolute_length: "absolute p \<Longrightarrow> 1 \<le> length (raw p) \<and> (length (raw p) = 1 \<longrightarrow> p = root_path)"
  by (cases p; cases "raw p") (auto simp: absolute_def starts_with_def root_path_def new_appended_def)

lemma absolute_starts: "absolute p \<Longrightarrow> starts_with_str (raw p) ''/''"
  by (cases "raw p") (auto simp: absolute_def starts_with_def starts_with_str_def)

lemma foldl_closer_settled:
  "\<forall>e \<in> set l. absolute (fst e) \<Longrightarrow> foldl (closer p) (1, x) l = (1, x)"
  by (induction l) (use absolute_length in \<open>force simp: closer_def\<close>)+

lemma foldl_closer_root:
  assumes "absolute p"
  shows "\<forall>e \<in> set l. absolute (fst e) \<Longrightarrow> distinct (map fst l) \<Longrightarrow> (root_path, mid) \<in> set l \<Longrightarrow> 1 < fst acc \<Longrightarrow>
    foldl (closer p) acc l = (1, Some mid)"
proof (induction l arbitrary: acc)
  case (Cons e l)
  show ?case
  proof (cases "fst e = root_path")
    case True
    then have "snd e = mid" using Cons.prems(2,3) by (cases e) (auto simp: rev_image_eqI)
    then have "closer p acc e = (1, Some mid)"
      using True absolute_starts [OF assms] Cons.prems(4) by (simp add: closer_def)
    then show ?thesis using foldl_closer_settled [of l p "Some mid"] Cons.prems(1) by simp
  next
    case False
    then have "1 < length (raw (fst e))" using absolute_length [of "fst e"] Cons.prems(1) by fastforce
    then have "1 < fst (closer p acc e)" using Cons.prems(4) by (simp add: closer_def)
    then show ?thesis using Cons.IH [of "closer p acc e"] Cons.prems False by auto
  qed
qed simp

section \<open>Answers\<close>

lemma find_inode_and_process_answer:
  assumes "find_inode_and_process fd b act v = (Ok (None, b'), v')"
  shows "\<exists>i fs s i' s'. opened_inodes v fd = Some i \<and> act i fs s = (Ok (None, b'), i', s')"
  using assms by (fastforce simp: find_inode_and_process_def split: option.splits HalFs.splits prod.splits)

lemma with_buffer_answered: "with_buffer b (answer_of r) \<noteq> Ok (None, b')"
  by (cases r) auto

lemma on_inode_answered:
  "read_inode buf i fs s \<noteq> (Ok (None, b), i', s')"
  "write_inode_op buf i fs s \<noteq> (Ok (None, b), i', s')"
  by (auto simp: read_inode_def write_inode_op_def with_buffer_answered split: HalInode.splits prod.splits)

text \<open>Requests that are handled without setting the cell.\<close>

definition unanswered :: "VfsOperationType \<Rightarrow> vfs \<Rightarrow> bool" where
  "unanswered operation v \<longleftrightarrow> (case operation of
      Lseek fd whence offset \<Rightarrow> (case opened_inodes v fd of None \<Rightarrow> False | Some i \<Rightarrow>
        (case mount_points (mounts v) (mount_point_id i) of None \<Rightarrow> False | Some f \<Rightarrow>
          fs_impl f \<noteq> Unidentified \<and> whence \<in> {SeekEnd, SeekData, SeekHole}))
    | _ \<Rightarrow> False)"

lemma handle_unanswered:
  assumes "unanswered operation v"
  shows "\<exists>v'. handle operation v = (Ok (None, []), v')"
  using assms
  by (auto simp: unanswered_def handle_def find_inode_and_process_def seek_inode_def seek_def
      split: VfsOperationType.splits option.splits HalFs.splits)

lemma handle_answered:
  assumes "handle operation v = (Ok (None, b), v')"
  shows "unanswered operation v"
proof (cases operation)
  case (Open p fl)
  then have "vfs_open_op p fl v = (Ok None, v')"
    using assms by (auto simp: handle_def bind_def ret_def split: prod.splits res.splits)
  then show ?thesis by (cases rule: vfs_open_op_cases) auto
next
  case (Lseek fd whence offset)
  then show ?thesis
    using assms by (cases whence) (auto simp: unanswered_def handle_def find_inode_and_process_def seek_inode_def seek_def Let_def
        split: option.splits HalFs.splits)
qed (use assms in \<open>auto simp: handle_def crash_def on_inode_answered dest!: find_inode_and_process_answer\<close>)

lemma vfs_call_eq:
  "vfs_call operation w v = (case handle operation v of
      (Ok (Some x, b), v') \<Rightarrow> (Ok (PollReady x, \<lparr> cell_inner = None, cell_waker = Some w, cell_woken = [w] \<rparr>), v')
    | (Ok (None, b), v') \<Rightarrow> (Ok (Pending, \<lparr> cell_inner = None, cell_waker = Some w, cell_woken = [] \<rparr>), v')
    | (Err e, v') \<Rightarrow> (Err e, v') | (Panic, v') \<Rightarrow> (Panic, v') | (Diverge, v') \<Rightarrow> (Diverge, v'))"
  by (simp add: vfs_call_def cell_poll_def spsc_cells_def cell_set_def bind_def ret_def
      split: prod.splits res.splits option.splits)

section \<open>An example\<close>

text \<open>A file system with one descriptor open on a file of 2000 bytes.\<close>

definition sample_vfs_of :: "(int \<Rightarrow> u8) \<Rightarrow> vfs" where
  "sample_vfs_of c = (let v = mount_root (fs_drive_id sample_fs) (fs_entry sample_fs) (sample_ext2 c) sample_fs in
     v \<lparr> opened_inodes := (\<lambda>_. None)(0 \<mapsto> from_inode (Ext2Inode sample_file) 0), inode_idx_counter := 1,
        mounts := (mounts v) \<lparr> mount_points := map_option (\<lambda>f. f \<lparr> fsys_opened := {0} \<rparr>) \<circ> mount_points (mounts v) \<rparr> \<rparr>)"

definition sample_vfs :: vfs where
  "sample_vfs = sample_vfs_of (\<lambda>_. 3)"

definition sample_mount :: ext2_mount where
  "sample_mount = \<lparr> m_fs = sample_fs, m_super_block = sample_super_block, m_allocated = [], m_freed = [] \<rparr>"

definition sample_file_system :: FileSystem where
  "sample_file_system = \<lparr> fsys_drive_id = fs_drive_id sample_fs, fsys_entry = fs_entry sample_fs,
     fsys_opened = {0}, fs_impl = Ext2 sample_mount, mounted_at = root_path \<rparr>"

lemma sample_vfs_of_fields:
  "opened_inodes (sample_vfs_of c) = [0 \<mapsto> from_inode (Ext2Inode sample_file) 0]" "inode_idx_counter (sample_vfs_of c) = 1"
  "mount_points (mounts (sample_vfs_of c)) = [0 \<mapsto> sample_file_system]"
  "path_to_id_map (mounts (sample_vfs_of c)) = [(root_path, 0)]"
  "ext2_of sample_mount (sample_vfs_of c) = sample_ext2 c"
  by (auto simp: sample_vfs_of_def mount_root_def mount_insert_def mount_points_new_def sample_file_system_def
      sample_mount_def ext2_of_def Let_def sample_ext2_def)

lemmas sample_vfs_fields = sample_vfs_of_fields [of "\<lambda>_. 3", folded sample_vfs_def]

lemma sample_mount_fields: "m_fs sample_mount = sample_fs" "m_super_block sample_mount = sample_super_block"
  by (simp_all add: sample_mount_def)

lemma sample_vfs_ok: "vfs_ok sample_vfs"
  by (simp add: vfs_ok_def sample_vfs_fields sample_file_system_def from_inode_def)

section \<open>Properties\<close>

text \<open>C15. The tables of the virtual file system stay consistent whatever requests are served, also when
  one of them panics: descriptors are below the counter, every open inode belongs to an existing
  mount point, a mount point lists exactly the descriptors that are open on it, and every mounted path
  leads to a mount point.\<close>

theorem vfs_tables_consistent:
  assumes "serve ops v = (r, v')" "vfs_ok v" "inode_idx_counter v + int (length ops) < 2 ^ 63"
  shows "vfs_ok v'"
  using serve_ok [OF assms] .

theorem vfs_tables_consistent_witness: "vfs_ok (snd (serve [Lseek 0 SeekSet 5, Close 0] sample_vfs))"
  using vfs_tables_consistent [of "[Lseek 0 SeekSet 5, Close 0]" sample_vfs] sample_vfs_ok
  by (cases "serve [Lseek 0 SeekSet 5, Close 0] sample_vfs") (simp add: sample_vfs_fields)

text \<open>C16. Opening a file answers either an error, and then no descriptor changes, or a descriptor that was not
  in use; it starts at position 0, and every other descriptor keeps its inode and its position.\<close>

theorem vfs_open_fresh:
  assumes "vfs_open_op p fl v = (Ok a, v')" "vfs_ok v"
  shows "(\<exists>e. a = Some (Inl e) \<and> opened_inodes v' = opened_inodes v) \<or>
    (\<exists>fd ino mid. a = Some (Inr fd) \<and> opened_inodes v fd = None \<and>
      opened_inodes v' = (opened_inodes v)(fd \<mapsto> from_inode ino mid) \<and> head (io_ctx (from_inode ino mid)) = 0)"
  using assms(1)
proof (cases rule: vfs_open_op_cases)
  case (opened ino mid f m s)
  have "opened_inodes v (inode_idx_counter v) = None"
    using assms(2) by (cases "opened_inodes v (inode_idx_counter v)") (force simp: vfs_ok_def)+
  then show ?thesis using opened by (auto simp: from_inode_def HalIOCtx_new_def)
qed auto

theorem vfs_open_fresh_witness:
  "\<exists>a v'. vfs_open_op root_path \<lparr> access_mode = ReadOnly, flags = 0, perms = None \<rparr>
     (sample_vfs \<lparr> opened_inodes := (\<lambda>_. None), mounts := mount_points_new \<rparr>) = (Ok a, v') \<and>
     (\<exists>e. a = Some (Inl e)) \<and> opened_inodes v' 0 = None"
proof -
  let ?v = "sample_vfs \<lparr> opened_inodes := (\<lambda>_. None), mounts := mount_points_new \<rparr>"
  let ?fl = "\<lparr> access_mode = ReadOnly, flags = 0, perms = None \<rparr>"
  have v: "vfs_ok ?v" by (simp add: vfs_ok_def mount_points_new_def sample_vfs_fields)
  have o: "vfs_open_op root_path ?fl ?v = (Ok (Some (Inl NoSuchFileOrDirectoryNo)), ?v)"
    by (simp add: vfs_open_op_def find_mount_def mount_points_new_def)
  from vfs_open_fresh [OF o v] o show ?thesis by auto
qed

text \<open>Reading through a descriptor of a regular file of 1 KiB blocks, at a position in its first block,
  puts the bytes of the file at that position into the buffer of the caller, answers their number,
  moves the position of this descriptor by it, and changes nothing else.\<close>

theorem vfs_read_returns_file:
  fixes v fd i f m ino buf
  defines "h \<equiv> unat (head (io_ctx i))" and "fs \<equiv> m_fs m"
  defines "n \<equiv> min (length buf) (unat (i_size (inode ino)) - h)"
  assumes "opened_inodes v fd = Some i" "mount_points (mounts v) (mount_point_id i) = Some f" "fs_impl f = Ext2 m"
    and "hal_inode i = Ext2Inode ino" "\<not> is_directory (inode ino)" "wf_inode (inode ino)"
    and "wf_fs fs" "fs_block_size fs = 1024" "block_size (m_super_block m) = 1024" "part_ok (io_handler fs) (ext2_of m v)"
    and "unat (i_size (inode ino)) \<le> 13312" "h \<le> unat (i_size (inode ino))" "h < 1024"
  shows "handle (Read fd buf) v =
    (Ok (Some (Inr (int n)), file_range (part (io_handler fs) (ext2_of m v)) (i_block (inode ino)) h n @ drop n buf),
     v \<lparr> opened_inodes := (opened_inodes v)(fd \<mapsto> i \<lparr> io_ctx := \<lparr> head = head (io_ctx i) + of_nat n \<rparr> \<rparr>) \<rparr>)"
  using handle_read_file [OF assms(4-7)] assms(8-16) by (simp add: h_def fs_def n_def)

theorem vfs_read_returns_file_witness:
  "fst (handle (Read 0 [0, 0]) sample_vfs) = Ok (Some (Inr 2), [3, 3])"
  using vfs_read_returns_file [of sample_vfs 0 "from_inode (Ext2Inode sample_file) 0" sample_file_system sample_mount
      sample_file "[0, 0]"]
  by (simp add: sample_vfs_fields sample_file_system_def sample_mount_fields from_inode_def HalIOCtx_new_def sample_wf_fs
      file_range_def file_byte_def file_block_def block_content_def block_at_def upt_rec)

text \<open>C36. A seek relative to the end, to data or to a hole on an open descriptor is handled without an
  answer: the call returns to the caller still pending, its cell empty and its waker never called.  Every
  other request whose handling ends without a panic is answered, and its caller is woken once.  A seek is
  always handled to the end as long as the file system of its descriptor is known, and closing always panics.\<close>

theorem vfs_call_answered:
  "(unanswered operation v \<longrightarrow> (\<exists>v'. vfs_call operation w v =
      (Ok (Pending, \<lparr> cell_inner = None, cell_waker = Some w, cell_woken = [] \<rparr>), v'))) \<and>
   (\<not> unanswered operation v \<longrightarrow> (\<forall>p c v'. vfs_call operation w v = (Ok (p, c), v') \<longrightarrow>
      (\<exists>x. p = PollReady x) \<and> cell_woken c = [w])) \<and>
   ((\<exists>fd whence offset. operation = Lseek fd whence offset) \<and>
      (\<forall>mid f. mount_points (mounts v) mid = Some f \<longrightarrow> fs_impl f \<noteq> Unidentified) \<longrightarrow>
      (\<exists>p c v'. vfs_call operation w v = (Ok (p, c), v'))) \<and>
   ((\<exists>fd. operation = Close fd) \<longrightarrow> fst (vfs_call operation w v) = Panic)"
proof (intro conjI impI)
  assume "unanswered operation v"
  then show "\<exists>v'. vfs_call operation w v = (Ok (Pending, \<lparr> cell_inner = None, cell_waker = Some w, cell_woken = [] \<rparr>), v')"
    using handle_unanswered by (fastforce simp: vfs_call_eq)
next
  assume "\<not> unanswered operation v"
  then have "handle operation v \<noteq> (Ok (None, b), v')" for b v' using handle_answered by blast
  then show "\<forall>p c v'. vfs_call operation w v = (Ok (p, c), v') \<longrightarrow> (\<exists>x. p = PollReady x) \<and> cell_woken c = [w]"
    by (auto simp: vfs_call_eq split: prod.splits res.splits option.splits)
next
  assume "(\<exists>fd whence offset. operation = Lseek fd whence offset) \<and>
      (\<forall>mid f. mount_points (mounts v) mid = Some f \<longrightarrow> fs_impl f \<noteq> Unidentified)"
  then have "\<exists>a v'. handle operation v = (Ok a, v')"
    by (auto simp: handle_def find_inode_and_process_def seek_inode_def split: option.splits HalFs.splits prod.splits)
  then show "\<exists>p c v'. vfs_call operation w v = (Ok (p, c), v')"
    by (auto simp: vfs_call_eq split: option.splits)
next
  assume "\<exists>fd. operation = Close fd"
  then show "fst (vfs_call operation w v) = Panic" by (auto simp: vfs_call_eq handle_def crash_def)
qed

theorem vfs_call_answered_witness:
  "(\<exists>c v'. vfs_call (Lseek 0 SeekEnd 0) (7 :: nat) sample_vfs = (Ok (Pending, c), v') \<and> cell_woken c = []) \<and>
   (\<exists>x c v'. vfs_call (Lseek 0 SeekSet 5) (7 :: nat) sample_vfs = (Ok (PollReady x, c), v') \<and> cell_woken c = [7])"
proof -
  have u: "unanswered (Lseek 0 SeekEnd 0) sample_vfs" "\<not> unanswered (Lseek 0 SeekSet 5) sample_vfs"
    by (simp_all add: unanswered_def sample_vfs_fields sample_file_system_def from_inode_def)
  have "\<forall>mid f. mount_points (mounts sample_vfs) mid = Some f \<longrightarrow> fs_impl f \<noteq> Unidentified"
    by (simp add: sample_vfs_fields sample_file_system_def)
  then obtain p c v' where "vfs_call (Lseek 0 SeekSet 5) (7 :: nat) sample_vfs = (Ok (p, c), v')"
    using vfs_call_answered [of "Lseek 0 SeekSet 5" sample_vfs "7 :: nat"] by blast
  moreover from this u(2) obtain x where "p = PollReady x" "cell_woken c = [7]"
    using vfs_call_answered [of "Lseek 0 SeekSet 5" sample_vfs "7 :: nat"] by blast
  ultimately show ?thesis
    using u(1) vfs_call_answered [of "Lseek 0 SeekEnd 0" sample_vfs "7 :: nat"] by auto
qed

text \<open>The root hides every other mount point: when the root and other absolute paths are mounted, every
  path is looked up in the root file system, because the shortest mounted prefix is taken.\<close>

theorem root_hides_mounts:
  assumes "absolute p" "(root_path, mid) \<in> set (path_to_id_map mp)" "distinct (map fst (path_to_id_map mp))"
    and "\<forall>e \<in> set (path_to_id_map mp). absolute (fst e)"
  shows "find_mount p mp = Some mid"
  using foldl_closer_root [OF assms(1,4,3,2), of "(2 ^ 64 - 1, None)"] by (simp add: find_mount_def)

theorem root_hides_mounts_witness:
  "find_mount (new_appended ''/mnt/a'') \<lparr> mount_points = (\<lambda>_. None),
     path_to_id_map = [(new_appended ''/mnt'', 1), (root_path, 0)], counter = 2 \<rparr> = Some 0"
proof -
  have "absolute (new_appended ''/mnt/a'')" "absolute (new_appended ''/mnt'')" "absolute root_path"
      "new_appended ''/mnt'' \<noteq> root_path" by code_simp+
  then show ?thesis
    using root_hides_mounts [of "new_appended ''/mnt/a''" 0 "\<lparr> mount_points = (\<lambda>_. None),
      path_to_id_map = [(new_appended ''/mnt'', 1), (root_path, 0)], counter = 2 \<rparr>"] by simp
qed

end
