(* ===== verification/Elf.thy ===== *)
theory Elf
  imports Vfs
begin

text \<open>
  Reading an ELF file through a descriptor (\<^verbatim>\<open>arch/x86_64/scheduler/elf.rs\<close>): the
  header, the program header table and the section header table, with the
  checks the code makes.  Sizes of tables are products of 16-bit fields and
  wrap around.
\<close>

section \<open>Calls on the virtual file system\<close>

text \<open>Awaiting the answer of the task; a request that is not answered leaves the caller waiting.\<close>

definition await :: "(vfs, unit, answer option \<times> bytes) st \<Rightarrow> (vfs, ErrNo, int \<times> bytes) st" where
  "await m v = (case m v of
      (Ok (Some (Inr n), buf), v') \<Rightarrow> (Ok (n, buf), v')
    | (Ok (Some (Inl e), buf), v') \<Rightarrow> (Err e, v')
    | (Ok (None, buf), v') \<Rightarrow> (Diverge, v')
    | (Err _, v') \<Rightarrow> (Panic, v')
    | (Panic, v') \<Rightarrow> (Panic, v')
    | (Diverge, v') \<Rightarrow> (Diverge, v'))"

definition vfs_read :: "int \<Rightarrow> bytes \<Rightarrow> (vfs, ErrNo, int \<times> bytes) st" where
  "vfs_read fd buf = await (handle (Read fd buf))"

definition vfs_lseek :: "int \<Rightarrow> Whence \<Rightarrow> int \<Rightarrow> (vfs, ErrNo, int) st" where
  "vfs_lseek fd whence offset = bind (await (handle (Lseek fd whence offset))) (\<lambda>(n, _). ret n)"

section \<open>The structures\<close>

record ElfHeader =
  eh_magic :: bytes
  eh_bit :: u8
  eh_encoding :: u8
  eh_header_version :: u8
  eh_abi :: u8
  eh_padding :: bytes
  eh_elf_type :: u16
  eh_instruction_set :: u16
  eh_version :: u32
  entry_offset :: u64
  header_table_offset :: u64
  section_header_table_offset :: u64
  eh_flags :: u32
  eh_header_size :: u16
  program_header_table_entry_size :: u16
  program_header_table_entry_count :: u16
  section_header_table_entry_size :: u16
  section_header_table_entry_count :: u16
  section_header_string_table_idx :: u16

definition ELF_HEADER_LEN :: nat where
  "ELF_HEADER_LEN = 64"

definition elf_header_of :: "bytes \<Rightarrow> ElfHeader" where
  "elf_header_of b = \<lparr> eh_magic = sub_list b 0 4, eh_bit = b ! 4, eh_encoding = b ! 5, eh_header_version = b ! 6,
     eh_abi = b ! 7, eh_padding = sub_list b 8 16, eh_elf_type = from_le (sub_list b 16 18),
     eh_instruction_set = from_le (sub_list b 18 20), eh_version = from_le (sub_list b 20 24),
     entry_offset = from_le (sub_list b 24 32), header_table_offset = from_le (sub_list b 32 40),
     section_header_table_offset = from_le (sub_list b 40 48), eh_flags = from_le (sub_list b 48 52),
     eh_header_size = from_le (sub_list b 52 54), program_header_table_entry_size = from_le (sub_list b 54 56),
     program_header_table_entry_count = from_le (sub_list b 56 58),
     section_header_table_entry_size = from_le (sub_list b 58 60),
     section_header_table_entry_count = from_le (sub_list b 60 62),
     section_header_string_table_idx = from_le (sub_list b 62 64) \<rparr>"

record ElfProgramHeaderEntry =
  segment_type :: u32
  ph_flags :: u32
  ph_offset :: u64
  vaddr :: u64
  paddr :: u64
  size_in_file :: u64
  size_in_memory :: u64
  alignment :: u64

definition PROGRAM_HEADER_LEN :: nat where
  "PROGRAM_HEADER_LEN = 56"

definition program_header_of :: "bytes \<Rightarrow> ElfProgramHeaderEntry" where
  "program_header_of b = \<lparr> segment_type = from_le (sub_list b 0 4), ph_flags = from_le (sub_list b 4 8),
     ph_offset = from_le (sub_list b 8 16), vaddr = from_le (sub_list b 16 24), paddr = from_le (sub_list b 24 32),
     size_in_file = from_le (sub_list b 32 40), size_in_memory = from_le (sub_list b 40 48),
     alignment = from_le (sub_list b 48 56) \<rparr>"

record ELFSectionHeaderEntry =
  name_offset :: u32
  section_type :: u32
  sh_flags :: u64
  sh_addr :: u64
  sh_offset :: u64
  sh_size :: u64
  sh_link :: u32
  sh_info :: u32
  addralign :: u64
  entry_size :: u64

definition SECTION_HEADER_LEN :: nat where
  "SECTION_HEADER_LEN = 64"

definition section_header_of :: "bytes \<Rightarrow> ELFSectionHeaderEntry" where
  "section_header_of b = \<lparr> name_offset = from_le (sub_list b 0 4), section_type = from_le (sub_list b 4 8),
     sh_flags = from_le (sub_list b 8 16), sh_addr = from_le (sub_list b 16 24), sh_offset = from_le (sub_list b 24 32),
     sh_size = from_le (sub_list b 32 40), sh_link = from_le (sub_list b 40 44), sh_info = from_le (sub_list b 44 48),
     addralign = from_le (sub_list b 48 56), entry_size = from_le (sub_list b 56 64) \<rparr>"

record ElfFile =
  elf_header :: ElfHeader
  program_header_table :: "ElfProgramHeaderEntry list"
  section_header_table :: "ELFSectionHeaderEntry list"

datatype ElfErr = FsErr ErrNo | NotELF | ElfUnsupported | ElfCorrupted

section \<open>Reading\<close>

definition ELF_MAGIC :: bytes where
  "ELF_MAGIC = [0x7f, 0x45, 0x4c, 0x46]"

definition read_elf_header :: "int \<Rightarrow> (vfs, ElfErr, ElfHeader) st" where
  "read_elf_header fd =
     bind (map_err_st FsErr (vfs_read fd (replicate 1024 0))) (\<lambda>(bytes_read, buf).
     if bytes_read < int ELF_HEADER_LEN then fail NotELF
     else bind (lift_res (slice buf 0 ELF_HEADER_LEN)) (\<lambda>b.
       let h = elf_header_of b in
       if eh_magic h \<noteq> ELF_MAGIC then fail NotELF
       else if eh_bit h \<noteq> 2 \<or> eh_abi h \<noteq> 0 \<or> eh_encoding h \<noteq> 1 then fail ElfUnsupported
       else ret h))"

fun program_headers_loop :: "bytes \<Rightarrow> u16 \<Rightarrow> nat list \<Rightarrow> (ElfErr, ElfProgramHeaderEntry list) res" where
  "program_headers_loop buf esize [] = Ok []"
| "program_headers_loop buf esize (i # rest) =
    (let offset = unat (of_nat i * esize) in
     bind_res (slice buf offset (offset + PROGRAM_HEADER_LEN)) (\<lambda>b.
     let e = program_header_of b in
     if size_in_memory e < size_in_file e then Err ElfCorrupted
     else bind_res (program_headers_loop buf esize rest) (\<lambda>es. Ok (e # es))))"

definition read_table :: "int \<Rightarrow> u64 \<Rightarrow> u16 \<Rightarrow> (vfs, ElfErr, bytes) st" where
  "read_table fd offset table_size =
     bind (map_err_st FsErr (vfs_lseek fd SeekSet (sint offset))) (\<lambda>_.
     bind (map_err_st FsErr (vfs_read fd (replicate (unat table_size) 0))) (\<lambda>(bytes_read, buf).
     if bytes_read < uint table_size then fail NotELF else ret buf))"

definition read_program_headers :: "ElfHeader \<Rightarrow> int \<Rightarrow> (vfs, ElfErr, ElfProgramHeaderEntry list) st" where
  "read_program_headers h fd =
     bind (read_table fd (header_table_offset h)
       (program_header_table_entry_size h * program_header_table_entry_count h)) (\<lambda>buf.
     lift_res (program_headers_loop buf (program_header_table_entry_size h)
       [0..<unat (program_header_table_entry_count h)]))"

fun section_headers_loop :: "bytes \<Rightarrow> u16 \<Rightarrow> nat list \<Rightarrow> (ElfErr, ELFSectionHeaderEntry list) res" where
  "section_headers_loop buf esize [] = Ok []"
| "section_headers_loop buf esize (i # rest) =
    (let offset = unat (of_nat i * esize) in
     bind_res (slice buf offset (offset + SECTION_HEADER_LEN)) (\<lambda>b.
     bind_res (section_headers_loop buf esize rest) (\<lambda>es. Ok (section_header_of b # es))))"

definition read_section_headers :: "ElfHeader \<Rightarrow> int \<Rightarrow> (vfs, ElfErr, ELFSectionHeaderEntry list) st" where
  "read_section_headers h fd =
     bind (read_table fd (section_header_table_offset h)
       (section_header_table_entry_size h * section_header_table_entry_count h)) (\<lambda>buf.
     lift_res (section_headers_loop buf (section_header_table_entry_size h)
       [0..<unat (section_header_table_entry_count h)]))"

definition read_elf :: "int \<Rightarrow> (vfs, ElfErr, ElfFile) st" where
  "read_elf fd =
     bind (read_elf_header fd) (\<lambda>h.
     bind (read_program_headers h fd) (\<lambda>ps.
     bind (read_section_headers h fd) (\<lambda>ss.
     ret \<lparr> elf_header = h, program_header_table = ps, section_header_table = ss \<rparr>)))"

section \<open>What reading checks\<close>

lemma slice_cases: "slice xs a b = (Ok ys :: ('e, 'a list) res) \<Longrightarrow> a \<le> b \<and> b \<le> length xs \<and> ys = sub_list xs a b"
  by (auto simp: slice_def sub_list_def split: if_splits)

lemma program_headers_loop_Ok:
  "program_headers_loop buf esize idxs = Ok es \<Longrightarrow> length es = length idxs \<and>
   (\<forall>k < length idxs. let offset = unat (of_nat (idxs ! k) * esize) in
     offset + 56 \<le> length buf \<and> es ! k = program_header_of (sub_list buf offset (offset + 56)) \<and>
     size_in_file (es ! k) \<le> size_in_memory (es ! k))"
proof (induction buf esize idxs arbitrary: es rule: program_headers_loop.induct)
  case (2 buf esize i rest)
  let ?o = "unat (of_nat i * esize)"
  obtain b where b: "slice buf ?o (?o + PROGRAM_HEADER_LEN) = (Ok b :: (ElfErr, bytes) res)"
    using "2.prems" by (cases "slice buf ?o (?o + PROGRAM_HEADER_LEN) :: (ElfErr, bytes) res") (auto simp: Let_def)
  let ?e = "program_header_of b"
  have e: "\<not> size_in_memory ?e < size_in_file ?e" using "2.prems" b by (auto simp: Let_def split: if_splits)
  obtain es' where es: "program_headers_loop buf esize rest = Ok es'" "es = ?e # es'"
    using "2.prems" b e by (cases "program_headers_loop buf esize rest") (auto simp: Let_def)
  note ih = "2.IH" [OF refl refl e es(1)]
  show ?case
    using ih b e es(2) slice_cases [OF b]
    by (auto simp: less_Suc_eq_0_disj PROGRAM_HEADER_LEN_def Let_def)
qed simp

lemma section_headers_loop_Ok:
  "\<forall>i \<in> set idxs. unat (of_nat i * esize) + 64 \<le> length buf \<Longrightarrow>
   section_headers_loop buf esize idxs =
     Ok (map (\<lambda>i. let offset = unat (of_nat i * esize) in section_header_of (sub_list buf offset (offset + 64))) idxs)"
  by (induction idxs) (auto simp: slice_def SECTION_HEADER_LEN_def Let_def)

lemma program_headers_loop_all:
  "\<forall>i \<in> set idxs. let offset = unat (of_nat i * esize); e = program_header_of (sub_list buf offset (offset + 56)) in
     offset + 56 \<le> length buf \<and> size_in_file e \<le> size_in_memory e \<Longrightarrow>
   program_headers_loop buf esize idxs =
     Ok (map (\<lambda>i. let offset = unat (of_nat i * esize) in program_header_of (sub_list buf offset (offset + 56))) idxs)"
  by (induction idxs) (auto simp: slice_def PROGRAM_HEADER_LEN_def Let_def not_less)

section \<open>Files behind a descriptor\<close>

definition open_file_at :: "vfs \<Rightarrow> int \<Rightarrow> HalOpenedInode \<Rightarrow> FileSystem \<Rightarrow> ext2_mount \<Rightarrow> InodePlus \<Rightarrow> bool" where
  "open_file_at v fd i f m ino \<longleftrightarrow> opened_inodes v fd = Some i \<and> mount_points (mounts v) (mount_point_id i) = Some f \<and>
     fs_impl f = Ext2 m \<and> hal_inode i = Ext2Inode ino \<and> \<not> is_directory (inode ino) \<and> wf_inode (inode ino) \<and>
     wf_fs (m_fs m) \<and> fs_block_size (m_fs m) = 1024 \<and> block_size (m_super_block m) = 1024 \<and>
     part_ok (io_handler (m_fs m)) (ext2_of m v) \<and> unat (i_size (inode ino)) \<le> 13312"

abbreviation file_len :: "InodePlus \<Rightarrow> nat" where
  "file_len ino \<equiv> unat (i_size (inode ino))"

definition file_bytes :: "vfs \<Rightarrow> ext2_mount \<Rightarrow> InodePlus \<Rightarrow> bytes" where
  "file_bytes v m ino = file_range (part (io_handler (m_fs m)) (ext2_of m v)) (i_block (inode ino)) 0 (file_len ino)"

definition at_pos :: "vfs \<Rightarrow> int \<Rightarrow> HalOpenedInode \<Rightarrow> u64 \<Rightarrow> vfs" where
  "at_pos v fd i h = v \<lparr> opened_inodes := (opened_inodes v)(fd \<mapsto> i \<lparr> io_ctx := \<lparr> head = h \<rparr> \<rparr>) \<rparr>"

lemma length_file_bytes [simp]: "length (file_bytes v m ino) = file_len ino"
  by (simp add: file_bytes_def)

lemma file_range_sub_list: "p + n \<le> k \<Longrightarrow> file_range f bl p n = sub_list (file_range f bl 0 k) p (p + n)"
  by (simp add: file_range_def sub_list_def take_map drop_map)

text \<open>
  A read starts at the block of position 0 whatever the position, so it returns the bytes at the position
  modulo the block size.
\<close>

definition read_pos_of :: "u64 \<Rightarrow> nat" where
  "read_pos_of off = unat off mod 1024"

lemma read_pos_of_le: "read_pos_of off \<le> unat off"
  by (simp add: read_pos_of_def)

lemma read_at:
  fixes buf :: bytes and h :: u64 and ino :: InodePlus
  assumes "open_file_at v fd i f m ino" "unat h \<le> file_len ino"
  defines "n \<equiv> min (length buf) (file_len ino - unat h)"
  shows "vfs_read fd buf (at_pos v fd i h) =
    (Ok (int n, sub_list (file_bytes v m ino) (read_pos_of h) (read_pos_of h + n) @ drop n buf), at_pos v fd i (h + of_nat n))"
proof -
  let ?i = "i \<lparr> io_ctx := \<lparr> head = h \<rparr> \<rparr>"
  have e: "ext2_of m (at_pos v fd i h) = ext2_of m v" by (simp add: at_pos_def ext2_of_def)
  have "handle (Read fd buf) (at_pos v fd i h) =
    (Ok (Some (Inr (int n)), file_range (part (io_handler (m_fs m)) (ext2_of m v)) (i_block (inode ino)) (read_pos_of h) n @ drop n buf),
     at_pos v fd i (h + of_nat n))"
    using handle_read_file [of "at_pos v fd i h" fd ?i f m ino buf] assms(1,2) e
    by (simp add: open_file_at_def n_def at_pos_def read_pos_of_def)
  moreover have "read_pos_of h + n \<le> file_len ino" using assms(2) read_pos_of_le [of h] by (simp add: n_def)
  ultimately show ?thesis
    by (simp add: vfs_read_def await_def file_bytes_def file_range_sub_list [of "read_pos_of h" n "file_len ino"])
qed

lemma seek_at:
  assumes "open_file_at v fd i f m ino"
  shows "vfs_lseek fd SeekSet (sint off) (at_pos v fd i h) = (Ok (sint off), at_pos v fd i off)"
proof -
  let ?i = "i \<lparr> io_ctx := \<lparr> head = h \<rparr> \<rparr>" and ?v = "at_pos v fd i h"
  have o: "opened_inodes ?v fd = Some ?i" "mount_points (mounts ?v) (mount_point_id ?i) = Some f" "fs_impl f = Ext2 m"
    using assms by (simp_all add: at_pos_def open_file_at_def)
  have "seek_inode SeekSet (sint off) ?i (m_fs m) (ext2_of m ?v) =
      (Ok (Some (Inr (sint off)), []), i \<lparr> io_ctx := \<lparr> head = off \<rparr> \<rparr>, ext2_of m ?v)"
    by (simp add: seek_inode_def seek_def Let_def)
  from find_inode_and_process_readonly [where act = "seek_inode SeekSet (sint off)", OF o this, of "[]"] show ?thesis
    by (simp add: vfs_lseek_def await_def handle_def bind_def ret_def at_pos_def)
qed

lemma read_table_at:
  assumes "open_file_at v fd i f m ino" "unat off + unat ts \<le> file_len ino"
  shows "read_table fd off ts (at_pos v fd i h) =
    (Ok (sub_list (file_bytes v m ino) (read_pos_of off) (read_pos_of off + unat ts)), at_pos v fd i (off + of_nat (unat ts)))"
proof -
  have n: "min (length (replicate (unat ts) (0 :: u8))) (file_len ino - unat off) = unat ts" using assms(2) by simp
  have "vfs_read fd (replicate (unat ts) 0) (at_pos v fd i off) =
      (Ok (uint ts, sub_list (file_bytes v m ino) (read_pos_of off) (read_pos_of off + unat ts)), at_pos v fd i (off + of_nat (unat ts)))"
    using read_at [OF assms(1), of off "replicate (unat ts) 0"] assms(2) unfolding n by simp
  then show ?thesis
    using seek_at [OF assms(1), of off h] by (simp add: read_table_def bind_def map_err_st_def ret_def)
qed

text \<open>In a table of entries of the right size that fits 16 bits, the offsets do not wrap around.\<close>

lemma table_offset:
  assumes "unat esize = k" "k * unat count < 65536" "i < unat (count :: u16)"
  shows "unat (of_nat i * esize :: u16) = k * i" "unat (esize * count) = k * unat count" "k * i + k \<le> k * unat count"
proof -
  have "k * i \<le> k * unat count" using assms(3) by simp
  then have "k * i < 65536" using assms(2) by linarith
  then show "unat (of_nat i * esize :: u16) = k * i" using assms(1,3) unsigned_less [of count, where ?'a = nat]
    by (simp add: unat_word_ariths unat_of_nat mult.commute)
  show "unat (esize * count) = k * unat count" using assms(1,2) by (simp add: unat_word_ariths)
  have "k * Suc i \<le> k * unat count" using assms(3) by (intro mult_le_mono2) simp
  then show "k * i + k \<le> k * unat count" by simp
qed

lemma sub_list_within: "a + d \<le> b \<Longrightarrow> c \<le> d \<Longrightarrow> b \<le> length xs \<Longrightarrow>
   sub_list (sub_list xs a b) c d = sub_list xs (a + c) (a + d)"
  by (auto simp: sub_list_def drop_take min_def add.commute)

definition entry_at :: "bytes \<Rightarrow> nat \<Rightarrow> nat \<Rightarrow> nat \<Rightarrow> bytes" where
  "entry_at bs off len k = sub_list bs (off + len * k) (off + len * k + len)"

text \<open>A header whose two tables have entries of the sizes the code expects and lie in the file.\<close>

definition wf_tables :: "ElfHeader \<Rightarrow> bytes \<Rightarrow> bool" where
  "wf_tables h bs \<longleftrightarrow>
     unat (program_header_table_entry_size h) = 56 \<and> 56 * unat (program_header_table_entry_count h) < 65536 \<and>
     unat (header_table_offset h) + 56 * unat (program_header_table_entry_count h) \<le> length bs \<and>
     (\<forall>k < unat (program_header_table_entry_count h).
       size_in_file (program_header_of (entry_at bs (read_pos_of (header_table_offset h)) 56 k))
         \<le> size_in_memory (program_header_of (entry_at bs (read_pos_of (header_table_offset h)) 56 k))) \<and>
     unat (section_header_table_entry_size h) = 64 \<and> 64 * unat (section_header_table_entry_count h) < 65536 \<and>
     unat (section_header_table_offset h) + 64 * unat (section_header_table_entry_count h) \<le> length bs"

lemma table_entry:
  assumes "unat esize = k" "k * unat count < 65536" "i < unat (count :: u16)" "off + k * unat count \<le> length bs"
  defines "buf \<equiv> sub_list bs off (off + unat (esize * count))"
  shows "unat (of_nat i * esize :: u16) + k \<le> length buf"
    "sub_list buf (unat (of_nat i * esize :: u16)) (unat (of_nat i * esize :: u16) + k) = entry_at bs off k i"
  using table_offset [OF assms(1-3)] assms(4)
  by (simp_all add: buf_def entry_at_def sub_list_within add.assoc)

lemma read_program_headers_at:
  assumes "open_file_at v fd i f m ino" "wf_tables h (file_bytes v m ino)"
  shows "\<exists>p. read_program_headers h fd (at_pos v fd i q) =
    (Ok (map (\<lambda>k. program_header_of (entry_at (file_bytes v m ino) (read_pos_of (header_table_offset h)) 56 k))
       [0..<unat (program_header_table_entry_count h)]), at_pos v fd i p)"
proof -
  let ?bs = "file_bytes v m ino" and ?off = "header_table_offset h"
  let ?es = "program_header_table_entry_size h" and ?c = "program_header_table_entry_count h"
  have w: "unat ?es = 56" "56 * unat ?c < 65536" "unat ?off + 56 * unat ?c \<le> length ?bs"
    using assms(2) by (simp_all add: wf_tables_def)
  then have w': "read_pos_of ?off + 56 * unat ?c \<le> length ?bs" using read_pos_of_le [of ?off] by linarith
  have s: "unat (?es * ?c) = 56 * unat ?c" using w(1,2) by (simp add: unat_word_ariths)
  have t: "read_table fd ?off (?es * ?c) (at_pos v fd i q) =
      (Ok (sub_list ?bs (read_pos_of ?off) (read_pos_of ?off + unat (?es * ?c))), at_pos v fd i (?off + of_nat (unat (?es * ?c))))"
    by (rule read_table_at [OF assms(1)]) (use w s in simp_all)
  have "program_headers_loop (sub_list ?bs (read_pos_of ?off) (read_pos_of ?off + unat (?es * ?c))) ?es [0..<unat ?c] =
      Ok (map (\<lambda>k. program_header_of (entry_at ?bs (read_pos_of ?off) 56 k)) [0..<unat ?c])"
    using table_entry [OF w(1,2) _ w'] assms(2)
    by (subst program_headers_loop_all) (auto simp: Let_def wf_tables_def)
  then show ?thesis using t by (auto simp: read_program_headers_def bind_def lift_res_def)
qed

lemma read_section_headers_at:
  assumes "open_file_at v fd i f m ino" "wf_tables h (file_bytes v m ino)"
  shows "\<exists>p. read_section_headers h fd (at_pos v fd i q) =
    (Ok (map (\<lambda>k. section_header_of (entry_at (file_bytes v m ino) (read_pos_of (section_header_table_offset h)) 64 k))
       [0..<unat (section_header_table_entry_count h)]), at_pos v fd i p)"
proof -
  let ?bs = "file_bytes v m ino" and ?off = "section_header_table_offset h"
  let ?es = "section_header_table_entry_size h" and ?c = "section_header_table_entry_count h"
  have w: "unat ?es = 64" "64 * unat ?c < 65536" "unat ?off + 64 * unat ?c \<le> length ?bs"
    using assms(2) by (simp_all add: wf_tables_def)
  then have w': "read_pos_of ?off + 64 * unat ?c \<le> length ?bs" using read_pos_of_le [of ?off] by linarith
  have s: "unat (?es * ?c) = 64 * unat ?c" using w(1,2) by (simp add: unat_word_ariths)
  have t: "read_table fd ?off (?es * ?c) (at_pos v fd i q) =
      (Ok (sub_list ?bs (read_pos_of ?off) (read_pos_of ?off + unat (?es * ?c))), at_pos v fd i (?off + of_nat (unat (?es * ?c))))"
    by (rule read_table_at [OF assms(1)]) (use w s in simp_all)
  have "section_headers_loop (sub_list ?bs (read_pos_of ?off) (read_pos_of ?off + unat (?es * ?c))) ?es [0..<unat ?c] =
      Ok (map (\<lambda>k. section_header_of (entry_at ?bs (read_pos_of ?off) 64 k)) [0..<unat ?c])"
    using table_entry [OF w(1,2) _ w'] by (subst section_headers_loop_Ok) (auto simp: Let_def)
  then show ?thesis using t by (auto simp: read_section_headers_def bind_def lift_res_def)
qed

section \<open>Properties\<close>

text \<open>C25. What reading an ELF file yields, for a descriptor at the start of a regular file of at most 13 blocks
  of 1 KiB that begins with a valid 64-bit little-endian header and whose two tables lie in the file and have
  entries of the standard sizes: \<open>read_elf\<close> returns the header, and for each table the entries at the
  offset the header gives if that is in the first block.  For a table behind the first block it
  returns the bytes at the offset modulo 1024 instead.\<close>

theorem read_elf_of_file:
  fixes v fd i f m ino
  defines "bs \<equiv> file_bytes v m ino"
  defines "h \<equiv> elf_header_of (sub_list bs 0 64)"
  assumes "open_file_at v fd i f m ino" "head (io_ctx i) = 0" "64 \<le> file_len ino"
    and "eh_magic h = ELF_MAGIC" "eh_bit h = 2" "eh_abi h = 0" "eh_encoding h = 1" "wf_tables h bs"
  shows "\<exists>v'. read_elf fd v = (Ok \<lparr> elf_header = h,
      program_header_table = map (\<lambda>k. program_header_of (entry_at bs (read_pos_of (header_table_offset h)) 56 k))
        [0..<unat (program_header_table_entry_count h)],
      section_header_table = map (\<lambda>k. section_header_of (entry_at bs (read_pos_of (section_header_table_offset h)) 64 k))
        [0..<unat (section_header_table_entry_count h)] \<rparr>, v')"
proof -
  let ?n = "min 1024 (file_len ino)"
  have v: "v = at_pos v fd i 0" using assms(3,4) by (cases "io_ctx i") (simp add: at_pos_def open_file_at_def fun_upd_idem)
  have "read_pos_of 0 = 0" by (simp add: read_pos_of_def)
  then have "vfs_read fd (replicate 1024 0) (at_pos v fd i 0) =
      (Ok (int ?n, sub_list bs 0 ?n @ drop ?n (replicate 1024 0)), at_pos v fd i (of_nat ?n))"
    using read_at [OF assms(3), of 0 "replicate 1024 0"] by (simp add: bs_def)
  moreover have "slice (sub_list bs 0 ?n @ drop ?n (replicate 1024 0)) 0 64 = (Ok (sub_list bs 0 64) :: (ElfErr, bytes) res)"
    using assms(5) by (auto simp: slice_def sub_list_def bs_def min_def)
  ultimately have "read_elf_header fd (at_pos v fd i 0) = (Ok h, at_pos v fd i (of_nat ?n))"
    using assms(5-9) by (simp add: read_elf_header_def bind_def map_err_st_def lift_res_def ret_def ELF_HEADER_LEN_def Let_def
        flip: h_def)
  moreover obtain p where "read_program_headers h fd (at_pos v fd i (of_nat ?n)) =
      (Ok (map (\<lambda>k. program_header_of (entry_at bs (read_pos_of (header_table_offset h)) 56 k))
        [0..<unat (program_header_table_entry_count h)]), at_pos v fd i p)"
    using read_program_headers_at [OF assms(3)] assms(10) by (fastforce simp: bs_def)
  moreover obtain q where "read_section_headers h fd (at_pos v fd i p) =
      (Ok (map (\<lambda>k. section_header_of (entry_at bs (read_pos_of (section_header_table_offset h)) 64 k))
        [0..<unat (section_header_table_entry_count h)]), at_pos v fd i q)"
    using read_section_headers_at [OF assms(3)] assms(10) by (fastforce simp: bs_def)
  ultimately show ?thesis by (subst v) (simp add: read_elf_def bind_def ret_def)
qed

text \<open>A program of one segment and one section, as the first bytes of the example file.\<close>

definition small_elf :: bytes where
  "small_elf = ELF_MAGIC @ [2, 1, 1, 0] @ replicate 24 0 @ 64 # replicate 7 0 @ 120 # replicate 7 0 @ replicate 6 0 @
     [56, 0, 1, 0, 64, 0, 1, 0, 0, 0] @ 1 # replicate 55 0 @ 7 # replicate 63 0"

definition elf_disk :: "int \<Rightarrow> u8" where
  "elf_disk a = (if 20480 \<le> a \<and> a < 20664 then small_elf ! nat (a - 20480) else 0)"

lemma sample_open_file: "open_file_at (sample_vfs_of c) 0 (from_inode (Ext2Inode sample_file) 0) sample_file_system sample_mount sample_file"
  by (simp add: open_file_at_def sample_vfs_of_fields sample_file_system_def sample_mount_fields from_inode_def sample_wf_fs)

lemma length_small_elf: "length small_elf = 184"
  by (simp add: small_elf_def ELF_MAGIC_def)

lemma elf_disk_bytes:
  assumes "b \<le> 184"
  shows "sub_list (file_bytes (sample_vfs_of elf_disk) sample_mount sample_file) a b = sub_list small_elf a b"
proof (rule nth_equalityI)
  fix k
  assume "k < length (sub_list (file_bytes (sample_vfs_of elf_disk) sample_mount sample_file) a b)"
  then have "k < b - a" "a + k < 184" "a + k < 1024" using assms by (simp_all add: sub_list_def)
  then show "sub_list (file_bytes (sample_vfs_of elf_disk) sample_mount sample_file) a b ! k = sub_list small_elf a b ! k"
    using assms length_small_elf
    by (simp add: sub_list_def file_bytes_def sample_vfs_of_fields sample_mount_fields file_range_def file_byte_def
        file_block_def block_content_def block_at_def elf_disk_def nat_int_add)
qed (use assms length_small_elf in \<open>simp add: sub_list_def\<close>)

theorem read_elf_of_file_witness:
  "\<exists>f v'. read_elf 0 (sample_vfs_of elf_disk) = (Ok f, v') \<and> elf_header f = elf_header_of (take 64 small_elf) \<and>
     map segment_type (program_header_table f) = [1] \<and> map name_offset (section_header_table f) = [7]"
proof -
  let ?bs = "file_bytes (sample_vfs_of elf_disk) sample_mount sample_file"
  let ?h = "elf_header_of (take 64 small_elf)"
  have h: "eh_magic ?h = ELF_MAGIC" "eh_bit ?h = 2" "eh_abi ?h = 0" "eh_encoding ?h = 1"
      "unat (program_header_table_entry_size ?h) = 56" "unat (program_header_table_entry_count ?h) = 1"
      "unat (header_table_offset ?h) = 64" "read_pos_of (header_table_offset ?h) = 64"
      "unat (section_header_table_entry_size ?h) = 64" "unat (section_header_table_entry_count ?h) = 1"
      "unat (section_header_table_offset ?h) = 120" "read_pos_of (section_header_table_offset ?h) = 120"
    by code_simp+
  have e: "size_in_file (program_header_of (sub_list small_elf 64 120)) = 0"
      "segment_type (program_header_of (sub_list small_elf 64 120)) = 1"
      "name_offset (section_header_of (sub_list small_elf 120 184)) = 7"
    by code_simp+
  have "sub_list ?bs 0 64 = take 64 small_elf" using elf_disk_bytes [of 64 0] by (simp add: sub_list_def)
  moreover have "entry_at ?bs 64 56 0 = sub_list small_elf 64 120" "entry_at ?bs 120 64 0 = sub_list small_elf 120 184"
    using elf_disk_bytes [of 120 64] elf_disk_bytes [of 184 120] by (simp_all add: entry_at_def)
  ultimately show ?thesis
    using read_elf_of_file [OF sample_open_file, of elf_disk] h e
    by (auto simp: wf_tables_def from_inode_def HalIOCtx_new_def)
qed

text \<open>C39. A crafted file makes the kernel panic: when the size of the program header table, the 16-bit
  product of entry size and entry count, comes out below 56 although the table has entries, reading the table panics.
  The product is small for a small entry size, and also when it wraps around, as for 1171 entries of 56 bytes.\<close>

theorem read_program_headers_panics:
  assumes "open_file_at v fd i f m ino"
    and "unat (header_table_offset h) + unat (program_header_table_entry_size h * program_header_table_entry_count h) \<le> file_len ino"
    and "program_header_table_entry_count h \<noteq> 0"
    and "unat (program_header_table_entry_size h * program_header_table_entry_count h) < 56"
  shows "fst (read_program_headers h fd v) = Panic"
proof -
  let ?s = "program_header_table_entry_size h * program_header_table_entry_count h"
  have v: "v = at_pos v fd i (head (io_ctx i))"
    using assms(1) by (cases "io_ctx i") (simp add: at_pos_def open_file_at_def fun_upd_idem)
  have "read_table fd (header_table_offset h) ?s (at_pos v fd i (head (io_ctx i))) =
      (Ok (sub_list (file_bytes v m ino) (read_pos_of (header_table_offset h)) (read_pos_of (header_table_offset h) + unat ?s)),
       at_pos v fd i (header_table_offset h + of_nat (unat ?s)))"
    by (rule read_table_at [OF assms(1,2)])
  moreover have "[0..<unat (program_header_table_entry_count h)] = 0 # [1..<unat (program_header_table_entry_count h)]"
    using assms(3) by (simp add: upt_conv_Cons unat_gt_0)
  moreover have "slice (sub_list (file_bytes v m ino) (read_pos_of (header_table_offset h)) (read_pos_of (header_table_offset h) + unat ?s)) 0 56
      = (Panic :: (ElfErr, bytes) res)"
    using assms(4) by (simp add: slice_def sub_list_def)
  ultimately show ?thesis
    by (subst v) (simp add: read_program_headers_def bind_def lift_res_def PROGRAM_HEADER_LEN_def del: upt_eq_Cons_conv)
qed

theorem read_program_headers_panics_witness:
  "fst (read_program_headers ((elf_header_of small_elf)
     \<lparr> program_header_table_entry_count := 1171 \<rparr>) 0 sample_vfs) = Panic"
proof -
  have "header_table_offset (elf_header_of small_elf) = 64" "program_header_table_entry_size (elf_header_of small_elf) = 56"
    by code_simp+
  then show ?thesis
    using read_program_headers_panics [OF sample_open_file [of "\<lambda>_. 3"], of "(elf_header_of small_elf)
      \<lparr> program_header_table_entry_count := 1171 \<rparr>"] by (simp add: sample_vfs_def)
qed

end
