(* ===== verification/Scheduler.thy ===== *)
theory Scheduler
  imports Vfs
begin

text \<open>
  The threads of a processor (\<^verbatim>\<open>arch/x86_64/scheduler/mod.rs\<close>), the system call
  handler (\<^verbatim>\<open>scheduler/syscall.rs\<close>) and the timer interrupt
  (\<^verbatim>\<open>handlers/irq.rs\<close>).  Resuming a thread does not return in the code; it is an
  outcome here.  The frames of a thread that is dropped go to the task that
  frees them; they are collected in \<open>dropped\<close>.  Times are in nanoseconds.
\<close>

section \<open>Threads\<close>

record GPRegisterState =
  rax :: u64
  rbx :: u64
  rcx :: u64
  rdx :: u64
  rsi :: u64
  rdi :: u64
  rbp :: u64
  r8 :: u64
  r9 :: u64
  r10 :: u64
  r11 :: u64
  r12 :: u64
  r13 :: u64
  r14 :: u64
  r15 :: u64

definition registers_default :: GPRegisterState where
  "registers_default = \<lparr> rax = 0, rbx = 0, rcx = 0, rdx = 0, rsi = 0, rdi = 0, rbp = 0, r8 = 0, r9 = 0,
     r10 = 0, r11 = 0, r12 = 0, r13 = 0, r14 = 0, r15 = 0 \<rparr>"

datatype State = Paused u64 u64 | Waiting | Ready

record ThreadState =
  killed :: bool
  registers :: GPRegisterState
  stack_pointer :: u64
  thread_local_segment :: u64
  page_table_pointer :: u64
  run_state :: State
  thread_frames :: "nat list"

datatype PrivilageLevel = Kernel | User

record Thread =
  thread_id :: nat
  thread_state :: ThreadState
  privilage_level :: PrivilageLevel
  time_left :: nat

definition DEFAULT_TICKS_PER_THREAD :: nat where
  "DEFAULT_TICKS_PER_THREAD = 5000000"

record SchedulerCpuContext =
  thread_map :: "nat \<Rightarrow> Thread option"
  thread_queue :: "nat list"
  current_thread :: "nat option"
  waiting_threads :: "nat \<Rightarrow> nat option"
  waiting_queue_idx :: nat
  dropped :: "nat list"

definition cpu_context_default :: SchedulerCpuContext where
  "cpu_context_default = \<lparr> thread_map = (\<lambda>_. None), thread_queue = [], current_thread = None,
     waiting_threads = (\<lambda>_. None), waiting_queue_idx = 0, dropped = [] \<rparr>"

text \<open>The number is the value of the counter shared by the processors, read and incremented atomically.\<close>

definition spawn_thread :: "nat \<Rightarrow> Thread \<Rightarrow> SchedulerCpuContext \<Rightarrow> SchedulerCpuContext" where
  "spawn_thread tid t c = c \<lparr> thread_map := (thread_map c)(tid \<mapsto> t \<lparr> thread_id := tid \<rparr>),
     thread_queue := thread_queue c @ [tid] \<rparr>"

definition get_current_thread_ref :: "SchedulerCpuContext \<Rightarrow> (unit, Thread) res" where
  "get_current_thread_ref c = (case current_thread c of
      None \<Rightarrow> Panic
    | Some tid \<Rightarrow> (case thread_map c tid of None \<Rightarrow> Panic | Some t \<Rightarrow> Ok t))"

section \<open>Switching\<close>

fun switch_loop :: "nat list \<Rightarrow> (SchedulerCpuContext, unit, nat) st" where
  "switch_loop [] c = (Panic, c \<lparr> thread_queue := [] \<rparr>)"
| "switch_loop (tid # rest) c = (case thread_map c tid of
      None \<Rightarrow> switch_loop rest c
    | Some t \<Rightarrow>
        if killed (thread_state t)
        then switch_loop rest (c \<lparr> thread_map := (thread_map c)(tid := None),
          dropped := dropped c @ thread_frames (thread_state t) \<rparr>)
        else (Ok tid, c \<lparr> thread_queue := rest, current_thread := Some tid \<rparr>))"

definition switch_task :: "(SchedulerCpuContext, unit, nat) st" where
  "switch_task c = switch_loop (thread_queue c) c"

section \<open>Resuming\<close>

text \<open>
  What the assembly routines are given: the frame of registers, the page table, the base of the
  thread-local segment and, for a thread that was interrupted, where and at which privilege it goes on.
\<close>

record ResumeFrame =
  to_registers :: GPRegisterState
  to_rsp :: u64
  to_page_table :: u64
  to_fs_base :: u64
  to_return :: "(u64 \<times> u64 \<times> PrivilageLevel) option"

datatype outcome = Resumed nat ResumeFrame | Returned

definition resume_frame :: "(u64 \<times> u64 \<times> PrivilageLevel) option \<Rightarrow> ThreadState \<Rightarrow> ResumeFrame" where
  "resume_frame back st = \<lparr> to_registers = registers st, to_rsp = stack_pointer st,
     to_page_table = page_table_pointer st, to_fs_base = thread_local_segment st, to_return = back \<rparr>"

definition resume_thread :: "Thread \<Rightarrow> (SchedulerCpuContext, unit, outcome) st" where
  "resume_thread t c = (let st = thread_state t; c' = c \<lparr> current_thread := Some (thread_id t) \<rparr> in
     case run_state st of
       Paused instruction_pointer rflags \<Rightarrow>
         (Ok (Resumed (thread_id t) (resume_frame (Some (instruction_pointer, rflags, privilage_level t)) st)), c')
     | Ready \<Rightarrow> (Ok (Resumed (thread_id t) (resume_frame None st)), c')
     | Waiting \<Rightarrow> (Panic, c))"

text \<open>The first thread of a processor, which runs its executor; it is resumed without being in the table.\<close>

definition kernel_thread :: "u64 \<Rightarrow> u64 \<Rightarrow> u64 \<Rightarrow> u64 \<Rightarrow> Thread" where
  "kernel_thread kernel_task_stack_ptr table entry_point rflags =
    \<lparr> thread_id = 0, thread_state = \<lparr> killed = False, registers = registers_default, stack_pointer = kernel_task_stack_ptr,
        thread_local_segment = 0, page_table_pointer = table, run_state = Paused entry_point rflags, thread_frames = [] \<rparr>,
      privilage_level = Kernel, time_left = DEFAULT_TICKS_PER_THREAD \<rparr>"

definition load_kernel_thread :: "u64 \<Rightarrow> u64 \<Rightarrow> u64 \<Rightarrow> u64 \<Rightarrow> (SchedulerCpuContext, unit, outcome) st" where
  "load_kernel_thread kernel_task_stack_ptr table entry_point rflags =
     resume_thread (kernel_thread kernel_task_stack_ptr table entry_point rflags)"

text \<open>The loop at the end of both handlers: the first thread of the queue that exists gets a new time slice.\<close>

fun resume_next :: "nat list \<Rightarrow> (SchedulerCpuContext, unit, outcome) st" where
  "resume_next [] c = (Panic, c \<lparr> thread_queue := [] \<rparr>)"
| "resume_next (tid # rest) c = (case thread_map c tid of
      None \<Rightarrow> resume_next rest c
    | Some t \<Rightarrow>
        let t = t \<lparr> time_left := DEFAULT_TICKS_PER_THREAD \<rparr> in
        resume_thread t (c \<lparr> thread_queue := rest, thread_map := (thread_map c)(tid \<mapsto> t) \<rparr>))"

section \<open>System calls\<close>

definition WRITE_SYSCALL :: u64 where "WRITE_SYSCALL = 1"

definition KILL_SYSCALL :: u64 where "KILL_SYSCALL = 0x3c"

record SyscallFrame =
  frame_registers :: GPRegisterState
  frame_rsp :: u64

definition set_thread :: "nat \<Rightarrow> Thread \<Rightarrow> SchedulerCpuContext \<Rightarrow> SchedulerCpuContext" where
  "set_thread tid t c = c \<lparr> thread_map := (thread_map c)(tid \<mapsto> t) \<rparr>"

definition save_registers :: "State \<Rightarrow> GPRegisterState \<Rightarrow> u64 \<Rightarrow> Thread \<Rightarrow> Thread" where
  "save_registers st regs rsp t = t \<lparr> thread_state := (thread_state t) \<lparr> run_state := st, registers := regs,
     stack_pointer := rsp \<rparr> \<rparr>"

definition syscall_handler :: "SyscallFrame \<Rightarrow> (SchedulerCpuContext, unit, outcome) st" where
  "syscall_handler fr c = (case current_thread c of
      None \<Rightarrow> (Panic, c)
    | Some tid \<Rightarrow>
        let c = c \<lparr> current_thread := None \<rparr>; regs = frame_registers fr in
        (case thread_map c tid of
          None \<Rightarrow> resume_next (thread_queue c) c
        | Some t \<Rightarrow>
            if rax regs = WRITE_SYSCALL then
              (Panic, set_thread tid (save_registers Waiting regs (frame_rsp fr) t)
                (c \<lparr> waiting_queue_idx := waiting_queue_idx c + 1,
                   waiting_threads := (waiting_threads c)(waiting_queue_idx c \<mapsto> tid) \<rparr>))
            else if rax regs = KILL_SYSCALL then
              let c = set_thread tid (save_registers Waiting regs (frame_rsp fr) t) c in
              resume_next (thread_queue c) c
            else
              let regs = regs \<lparr> rax := word_of_int (errno_value OperationNotSupported) \<rparr>;
                  c = (set_thread tid (save_registers Ready regs (frame_rsp fr) t) c) \<lparr> thread_queue := thread_queue c @ [tid] \<rparr>
              in resume_next (thread_queue c) c))"

section \<open>The timer\<close>

record InterruptFrame =
  int_registers :: GPRegisterState
  int_rip :: u64
  int_rflags :: u64
  int_rsp :: u64

definition timer_handler :: "u32 \<Rightarrow> InterruptFrame \<Rightarrow> (SchedulerCpuContext, unit, outcome) st" where
  "timer_handler apic_timer_ticks_per_ms fr c = (case current_thread c of
      None \<Rightarrow> (Ok Returned, c)
    | Some tid \<Rightarrow> (case thread_map c tid of
        None \<Rightarrow> (Ok Returned, c)
      | Some t \<Rightarrow>
          if apic_timer_ticks_per_ms = 0 then (Panic, c)
          else
            let time_left = time_left t - 1000000 div unat apic_timer_ticks_per_ms in
            if time_left = 0 then
              let c = (set_thread tid (save_registers (Paused (int_rip fr) (int_rflags fr)) (int_registers fr) (int_rsp fr) t) c)
                    \<lparr> thread_queue := thread_queue c @ [tid] \<rparr>
              in resume_next (thread_queue c) c
            else (Ok Returned, c)))"

section \<open>Runs\<close>

text \<open>Threads are started with a full time slice; the events of a processor in any order.\<close>

inductive sched_reachable :: "SchedulerCpuContext \<Rightarrow> bool" where
  init: "sched_reachable cpu_context_default"
| loaded: "sched_reachable c \<Longrightarrow> load_kernel_thread sp table entry rf c = (r, c') \<Longrightarrow> sched_reachable c'"
| spawned: "sched_reachable c \<Longrightarrow> time_left t = DEFAULT_TICKS_PER_THREAD \<Longrightarrow> sched_reachable (spawn_thread tid t c)"
| switched: "sched_reachable c \<Longrightarrow> switch_task c = (r, c') \<Longrightarrow> sched_reachable c'"
| syscall: "sched_reachable c \<Longrightarrow> syscall_handler fr c = (r, c') \<Longrightarrow> sched_reachable c'"
| timer: "sched_reachable c \<Longrightarrow> timer_handler n fr c = (r, c') \<Longrightarrow> sched_reachable c'"

definition slices_full :: "SchedulerCpuContext \<Rightarrow> bool" where
  "slices_full c \<longleftrightarrow> (\<forall>tid t. thread_map c tid = Some t \<longrightarrow> time_left t = DEFAULT_TICKS_PER_THREAD)"

lemma slices_full_set [simp]:
  "slices_full c \<Longrightarrow> time_left t = DEFAULT_TICKS_PER_THREAD \<Longrightarrow> slices_full (set_thread tid t c)"
  by (simp add: slices_full_def set_thread_def)

lemma slices_full_irrelevant [simp]:
  "slices_full (c \<lparr> thread_queue := q \<rparr>) = slices_full c" "slices_full (c \<lparr> current_thread := k \<rparr>) = slices_full c"
  "slices_full (c \<lparr> waiting_threads := w \<rparr>) = slices_full c" "slices_full (c \<lparr> waiting_queue_idx := n \<rparr>) = slices_full c"
  "slices_full (c \<lparr> dropped := d \<rparr>) = slices_full c"
  by (simp_all add: slices_full_def)

lemma time_left_save [simp]: "time_left (save_registers st regs rsp t) = time_left t"
  by (simp add: save_registers_def)

lemma switch_loop_slices: "slices_full c \<Longrightarrow> slices_full (snd (switch_loop q c))"
proof (induction q arbitrary: c)
  case (Cons tid q)
  have "slices_full (c \<lparr> thread_map := (thread_map c)(tid := None), dropped := d \<rparr>)" for d
    using Cons.prems by (simp add: slices_full_def)
  then show ?case using Cons by (cases "thread_map c tid") simp_all
qed simp

lemma resume_thread_slices [simp]: "slices_full (snd (resume_thread t c)) = slices_full c"
  by (simp add: resume_thread_def Let_def split: State.splits)

lemma resume_next_slices: "slices_full c \<Longrightarrow> slices_full (snd (resume_next q c))"
proof (induction q arbitrary: c)
  case (Cons tid q)
  then show ?case
  proof (cases "thread_map c tid")
    case (Some t)
    let ?t = "t \<lparr> time_left := DEFAULT_TICKS_PER_THREAD \<rparr>"
    have "slices_full (c \<lparr> thread_queue := q, thread_map := (thread_map c)(tid \<mapsto> ?t) \<rparr>)"
      using Cons.prems by (simp add: slices_full_def)
    then show ?thesis using Some by (simp add: Let_def)
  qed simp
qed simp

lemma syscall_handler_slices:
  assumes "slices_full c"
  shows "slices_full (snd (syscall_handler fr c))"
proof (cases "current_thread c")
  case (Some tid)
  note tid = this
  show ?thesis
  proof (cases "thread_map c tid")
    case None
    then show ?thesis using tid assms resume_next_slices by (simp add: syscall_handler_def Let_def)
  next
    case (Some t)
    then have "time_left t = DEFAULT_TICKS_PER_THREAD" using assms by (simp add: slices_full_def)
    then show ?thesis using tid Some assms
      by (auto simp: syscall_handler_def Let_def intro!: resume_next_slices)
  qed
qed (use assms in \<open>simp add: syscall_handler_def\<close>)

lemma timer_handler_slices:
  assumes "slices_full c"
  shows "slices_full (snd (timer_handler n fr c))"
proof (cases "current_thread c")
  case (Some tid)
  note tid = this
  show ?thesis
  proof (cases "thread_map c tid")
    case None
    then show ?thesis using tid assms by (simp add: timer_handler_def)
  next
    case (Some t)
    then have "time_left t = DEFAULT_TICKS_PER_THREAD" using assms by (simp add: slices_full_def)
    then show ?thesis using tid Some assms
      by (auto simp: timer_handler_def Let_def intro!: resume_next_slices)
  qed
qed (use assms in \<open>simp add: timer_handler_def\<close>)

lemma sched_reachable_slices: "sched_reachable c \<Longrightarrow> slices_full c"
proof (induction rule: sched_reachable.induct)
  case (loaded c sp table entry rf r c')
  then show ?case using resume_thread_slices [of "kernel_thread sp table entry rf" c] by (simp add: load_kernel_thread_def)
next
  case (switched c r c')
  then show ?case using switch_loop_slices [of c "thread_queue c"] by (simp add: switch_task_def)
next
  case (syscall c fr r c')
  then show ?case using syscall_handler_slices [of c fr] by simp
next
  case (timer c n fr r c')
  then show ?case using timer_handler_slices [of c n fr] by simp
qed (simp_all add: slices_full_def cpu_context_default_def spawn_thread_def)

section \<open>The first live thread\<close>

definition live :: "SchedulerCpuContext \<Rightarrow> nat \<Rightarrow> bool" where
  "live c tid \<longleftrightarrow> (\<exists>t. thread_map c tid = Some t \<and> \<not> killed (thread_state t))"

lemma switch_loop_spec:
  "switch_loop q c = (r, c') \<Longrightarrow>
   (case dropWhile (\<lambda>tid. \<not> live c tid) q of
      [] \<Rightarrow> r = Panic \<and> thread_queue c' = []
    | tid # rest \<Rightarrow> r = Ok tid \<and> thread_queue c' = rest \<and> current_thread c' = Some tid) \<and>
   thread_map c' = (\<lambda>tid. if tid \<in> set (takeWhile (\<lambda>tid. \<not> live c tid) q) then None else thread_map c tid)"
proof (induction q arbitrary: c)
  case Nil
  then show ?case by auto
next
  case (Cons tid q)
  show ?case
  proof (cases "thread_map c tid")
    case None
    then show ?thesis using Cons.IH [of c] Cons.prems by (auto simp: live_def fun_eq_iff)
  next
    case (Some t)
    let ?c = "c \<lparr> thread_map := (thread_map c)(tid := None), dropped := dropped c @ thread_frames (thread_state t) \<rparr>"
    show ?thesis
    proof (cases "killed (thread_state t)")
      case True
      have "live ?c k = live c k" for k using True Some by (auto simp: live_def)
      then show ?thesis using Cons.IH [of ?c] Cons.prems True Some by (auto simp: live_def fun_eq_iff)
    next
      case False
      then show ?thesis using Cons.prems Some by (auto simp: live_def)
    qed
  qed
qed

lemma resume_next_keeps:
  "tid \<notin> set q \<Longrightarrow> case resume_next q c of (r, c') \<Rightarrow>
     thread_map c' tid = thread_map c tid \<and> dropped c' = dropped c \<and> tid \<notin> set (thread_queue c')"
proof (induction q arbitrary: c)
  case (Cons k q)
  then show ?case
    by (cases "thread_map c k") (auto simp: Let_def resume_thread_def split: State.splits)
qed simp

section \<open>Properties\<close>

text \<open>C37. The timer never takes the processor away from a thread.  The time that is left after a tick is
  computed and not stored, so every thread keeps its full slice of 5 ms, and a tick is at most 1 ms:
  in every state a processor can reach, and whatever the frequency of the timer, the handler returns and
  changes nothing.\<close>

theorem timer_never_preempts:
  assumes "sched_reachable c" "ticks \<noteq> 0"
  shows "timer_handler ticks fr c = (Ok Returned, c)"
proof -
  have "1000000 div unat ticks < DEFAULT_TICKS_PER_THREAD"
    by (rule le_less_trans [OF div_le_dividend]) (simp add: DEFAULT_TICKS_PER_THREAD_def)
  then show ?thesis
    using sched_reachable_slices [OF assms(1)] assms(2)
    by (auto simp: timer_handler_def slices_full_def Let_def split: option.splits)
qed

text \<open>A thread in its first time slice.\<close>

definition first_thread :: Thread where
  "first_thread = kernel_thread 0 0 0 0"

definition first_interrupt :: InterruptFrame where
  "first_interrupt = \<lparr> int_registers = registers_default, int_rip = 0, int_rflags = 0, int_rsp = 0 \<rparr>"

theorem timer_never_preempts_witness:
  "current_thread (snd (switch_task (spawn_thread 7 first_thread cpu_context_default))) = Some 7 \<and>
   timer_handler 1 first_interrupt (snd (switch_task (spawn_thread 7 first_thread cpu_context_default))) =
     (Ok Returned, snd (switch_task (spawn_thread 7 first_thread cpu_context_default)))"
proof -
  let ?c = "spawn_thread 7 first_thread cpu_context_default"
  have "sched_reachable ?c"
    by (rule sched_reachable.spawned [OF sched_reachable.init]) (simp add: first_thread_def kernel_thread_def)
  then have "sched_reachable (snd (switch_task ?c))" by (rule sched_reachable.switched) (rule prod.collapse [symmetric])
  from timer_never_preempts [OF this, of 1 first_interrupt] show ?thesis
    by (simp add: switch_task_def spawn_thread_def cpu_context_default_def first_thread_def kernel_thread_def)
qed

text \<open>Switching picks the first thread of the queue that exists and was not killed, panics when there is none, and
  removes exactly the killed threads before it.\<close>

theorem switch_task_picks_live:
  assumes "switch_task c = (r, c')"
  shows "(case dropWhile (\<lambda>tid. \<not> live c tid) (thread_queue c) of
      [] \<Rightarrow> r = Panic \<and> thread_queue c' = []
    | tid # rest \<Rightarrow> r = Ok tid \<and> thread_queue c' = rest \<and> current_thread c' = Some tid) \<and>
    thread_map c' = (\<lambda>tid. if tid \<in> set (takeWhile (\<lambda>tid. \<not> live c tid) (thread_queue c)) then None else thread_map c tid)"
  using switch_loop_spec assms unfolding switch_task_def by blast

theorem switch_task_picks_live_witness:
  "fst (switch_task (spawn_thread 7 first_thread (spawn_thread 3 (first_thread
     \<lparr> thread_state := (thread_state first_thread) \<lparr> killed := True \<rparr> \<rparr>) cpu_context_default))) = Ok 7"
  using switch_task_picks_live [OF prod.collapse [symmetric], of "spawn_thread 7 first_thread (spawn_thread 3 (first_thread
     \<lparr> thread_state := (thread_state first_thread) \<lparr> killed := True \<rparr> \<rparr>) cpu_context_default)"]
  by (simp add: live_def spawn_thread_def first_thread_def kernel_thread_def cpu_context_default_def)

text \<open>C40. A thread that ends is never cleaned up: the system call that terminates the calling thread leaves it in the
  table, not marked as killed, with its frames not handed back.\<close>

theorem kill_syscall_leaks:
  assumes "current_thread c = Some tid" "thread_map c tid = Some t" "rax (frame_registers fr) = KILL_SYSCALL"
    and "tid \<notin> set (thread_queue c)" "\<not> killed (thread_state t)"
  shows "case syscall_handler fr c of (r, c') \<Rightarrow> dropped c' = dropped c \<and> tid \<notin> set (thread_queue c') \<and>
    (\<exists>t'. thread_map c' tid = Some t' \<and> \<not> killed (thread_state t') \<and>
       thread_frames (thread_state t') = thread_frames (thread_state t))"
proof -
  let ?t = "save_registers Waiting (frame_registers fr) (frame_rsp fr) t"
  let ?c = "set_thread tid ?t (c \<lparr> current_thread := None \<rparr>)"
  have "syscall_handler fr c = resume_next (thread_queue c) ?c"
    using assms(1-3) by (simp add: syscall_handler_def Let_def set_thread_def KILL_SYSCALL_def WRITE_SYSCALL_def)
  moreover have "thread_map ?c tid = Some ?t" "dropped ?c = dropped c" by (simp_all add: set_thread_def)
  ultimately show ?thesis
    using resume_next_keeps [OF assms(4), of ?c] assms(5) by (simp add: save_registers_def split: prod.splits)
qed

theorem kill_syscall_leaks_witness:
  "case syscall_handler \<lparr> frame_registers = registers_default \<lparr> rax := 0x3c \<rparr>, frame_rsp = 0 \<rparr>
      (snd (switch_task (spawn_thread 7 first_thread cpu_context_default))) of
     (r, c') \<Rightarrow> thread_map c' 7 \<noteq> None \<and> dropped c' = []"
  using kill_syscall_leaks [of "snd (switch_task (spawn_thread 7 first_thread cpu_context_default))" 7 "first_thread \<lparr> thread_id := 7 \<rparr>"
      "\<lparr> frame_registers = registers_default \<lparr> rax := 0x3c \<rparr>, frame_rsp = 0 \<rparr>"]
  by (auto simp: switch_task_def spawn_thread_def cpu_context_default_def first_thread_def kernel_thread_def KILL_SYSCALL_def split: prod.splits)

end
