(* ===== verification/Spec2Isabelle.thy ===== *)
theory Spec2Isabelle
  imports Serialize Crc32 Ident Bits Paths RtcTime Frames Storage Gpt Ext2DirDisk Ext2Search Ext2Ops Interleave Sync AsyncMutex Executor Pools RandomNumbers Elf Scheduler
begin

text \<open>
  A verification development for dvida_oxide, an x86-64 kernel written in Rust
  (\<^verbatim>\<open>src/kernel\<close>, with the crates \<^verbatim>\<open>src/dvida_serialize\<close> and
  \<^verbatim>\<open>src/dvida_serialize_macros\<close>).  File names below are relative to \<^verbatim>\<open>src/kernel/src\<close>
  unless they start with \<^verbatim>\<open>src\<close>.

  \<^bold>\<open>The program.\<close>  At boot the kernel turns the memory map of the boot loader into a bitmap of
  physical frames.  It then runs one asynchronous executor per processor
  (\<^verbatim>\<open>ejcineque/executor.rs\<close>).  Its tasks talk through channels, one-shot cells and an asynchronous
  mutex (\<^verbatim>\<open>ejcineque/sync\<close>).  One task owns the virtual file system (\<^verbatim>\<open>hal/vfs.rs\<close>); it finds the
  root partition with the partition table reader (\<^verbatim>\<open>hal/gpt.rs\<close>), which checks a CRC-32, and mounts
  the ext2 driver (\<^verbatim>\<open>drivers/fs/ext2\<close>).  The driver reaches its partition by sector requests
  (\<^verbatim>\<open>hal/storage.rs\<close>), and its on-disk structures are encoded by derived serialisers.  Threads of
  user programs are kept by \<^verbatim>\<open>arch/x86_64/scheduler\<close>, which reads their ELF files through the
  virtual file system.

  \<^bold>\<open>How code becomes definitions.\<close>  A struct is a record, an enum a datatype, an unsigned integer a
  word of its width, and a signed one an integer that is wrapped where the code computes with it.
  A fallible function returns \<open>res\<close>: \<open>Ok\<close>, \<open>Err\<close> with the source's error, \<open>Panic\<close> for a Rust panic
  or \<open>Diverge\<close> for a loop that does not end.  Code with effects is a function of the state monad \<open>st\<close>
  of theory Prelude.  Arithmetic wraps, as in the release build.  Code outside the repository is a
  parameter: whether a device fails a request, the registers of the clock chip, the poll function of
  a task.

  \<^bold>\<open>Theories and what they show.\<close>
  \<^item> Prelude: outcomes, the state monad, byte images of integers, bits of byte arrays.
  \<^item> Serialize (\<^verbatim>\<open>src/dvida_serialize\<close> and the bodies that the derive macro of
    \<^verbatim>\<open>src/dvida_serialize_macros\<close> generates): the locales \<open>wire_codec\<close> and \<open>strict_codec\<close> state what
    an encoding promises, and are interpreted for every integer width, for arrays and, in Ext2Types,
    for inodes.
  \<^item> Crc32, Ident, Bits, RandomNumbers (\<^verbatim>\<open>crypto\<close>): the table-driven CRC is the bitwise one and detects every
    burst of four bytes; GUIDs print and parse back; the bit iterator; the generator answers every
    request but has a period of at most 65536.
  \<^item> Paths (\<^verbatim>\<open>hal/path.rs\<close>): the component iterator is a deque (locale \<open>double_ended\<close>), and \<open>normalize\<close>
    resolves dots.
  \<^item> RtcTime (\<^verbatim>\<open>time\<close>): decoding of the clock, and dates to Unix time and back.
  \<^item> Frames (\<^verbatim>\<open>arch/x86_64/memory\<close>): the frames that are free after initialisation, and allocation of
    one frame (locale \<open>frame_source\<close>) and of runs.
  \<^item> Storage, Gpt (\<^verbatim>\<open>hal/storage.rs\<close>, \<^verbatim>\<open>hal/gpt.rs\<close>): the locale \<open>sector_store\<close> states what sector
    requests promise on a reliable drive, for buffers below 32 MiB; a partition table written in its
    format is read back, from the backup if up to four consecutive bytes of the primary are damaged.
  \<^item> Ext2Types, Ext2Disk (\<^verbatim>\<open>mod.rs\<close>, \<^verbatim>\<open>structs.rs\<close>, \<^verbatim>\<open>managers.rs\<close>, \<^verbatim>\<open>init.rs\<close>, \<^verbatim>\<open>inode.rs\<close> of the driver): a
    partition is a second \<open>sector_store\<close>; an inode that is written is read back.
  \<^item> Ext2Alloc, Ext2Iter, Ext2File (\<^verbatim>\<open>allocator.rs\<close>, \<^verbatim>\<open>block_iterator.rs\<close>, \<^verbatim>\<open>read.rs\<close>, \<^verbatim>\<open>write.rs\<close>):
    allocation returns distinct free blocks; the iterator reads the block of the pointer tree.
  \<^item> Ext2Dir, Ext2DirSpec, Ext2DirDisk, Ext2Search (\<^verbatim>\<open>open.rs\<close>, \<^verbatim>\<open>dirs.rs\<close>): a directory is abstracted to
    a list of entries and to a map of names; lookup, deletion and insertion on the disk refine the
    operations on that map (locale \<open>name_directory\<close>), and it is shown when the search of a block ends.
  \<^item> Ext2Ops (\<^verbatim>\<open>open.rs\<close>, \<^verbatim>\<open>create_file.rs\<close>, \<^verbatim>\<open>delete.rs\<close>, \<^verbatim>\<open>dirs.rs\<close>): path lookup and the operations on
    whole files and directories.
  \<^item> Fifo, Bounded, Interleave, Sync (\<^verbatim>\<open>ejcineque/sync\<close>): both channels are queues when one task uses
    them at a time (locale \<open>fifo_channel\<close>); as a step relation on atomic accesses the bounded ring is
    free of races on its slots; the unbounded channel loses no wake-up.
  \<^item> AsyncMutex (\<^verbatim>\<open>ejcineque/sync/mutex.rs\<close>): the intrusive ring of waiters in an explicit store is a
    queue; with the atomic steps of polls and releases interleaved, at most one task holds the lock in
    every run, and the ring is followed safely in orderly runs, where a task polls only when it starts or
    was woken and its future lives until it gets the guard.
  \<^item> Executor, Pools (\<^verbatim>\<open>ejcineque/executor.rs\<close>, \<^verbatim>\<open>ejcineque/pools\<close>): fairness of the queue, also
    when tasks are spawned meanwhile; buffers are disjoint and handles distinct.
  \<^item> Vfs, Elf, Scheduler (\<^verbatim>\<open>hal/vfs.rs\<close>, \<^verbatim>\<open>arch/x86_64/scheduler\<close>, \<^verbatim>\<open>arch/x86_64/handlers/irq.rs\<close>):
    consistency of the descriptor and mount tables, and which calls are answered; what reading an ELF
    file returns, right for tables that start in its first block; threads, system calls and the timer.

  Some theorems state that the code does not do what it is meant to do: a timestamp that is 59 days
  early, an emptiness test that always succeeds, an accepted message that is never delivered, a
  forgotten waiter of the mutex, a buffer handed out twice, seeks that are never answered, tables of
  an ELF file behind its first block that are read from a wrong place, a timer
  that never preempts, a thread whose termination frees nothing, a short period of random numbers,
  and an ELF file that makes the kernel panic.

  \<^bold>\<open>Bounds and fuel.\<close>  A loop whose recursion is not structural takes fuel and is \<open>Diverge\<close> without
  it.  The caller's fuel bounds the number of steps the loop can take: bytes of a block for directory
  searches, length and fill of the ring for the bounded channel, blocks of the file for iterators.  The
  theorems say that a result is returned, so the fuel is enough under their hypotheses; for the
  directory search \<open>find_in_block_ends\<close> says exactly on which blocks it does not end.  The
  theorems on the disk layout are for blocks of 1024 bytes, the smallest size of ext2, and for a
  partition whose requests succeed.

  \<^bold>\<open>Not modelled.\<close>  Device drivers (AHCI, PATA, keyboard, terminal), interrupt controllers, firmware
  tables, timer calibration, page and descriptor tables and start-up of processors access registers
  and raw memory.  The program loader (\<^verbatim>\<open>arch/x86_64/scheduler/loader.rs\<close>) writes through the page
  tables of an external crate, and the kernel heap wraps an external allocator.  Registration of
  devices and request queues of \<^verbatim>\<open>hal/storage.rs\<close> are left out: a request is served at once.  Atomic
  accesses are sequentially consistent, where the source asks for acquire and release ordering.
  Resuming a thread ends in the values that its assembly routine is given.
\<close>

end
